(* ===== verification/Prelude.thy ===== *)
theory Prelude
  imports Main
begin

text \<open>
  What every component shares.

  \<^item> Effects of a sequential program: the calls it makes, in order (\<open>event\<close>), and how it
    goes on (\<open>outcome\<close>): it continues, it has called \<open>exit\<close>, it has run into behaviour C leaves
    undefined, or it waits in a blocking call for ever.  \<open>bindc\<close> is the C semicolon.
  \<^item> Concurrent programs: a step function \<open>'s \<Rightarrow> 'l \<Rightarrow> 's option\<close> (\<open>None\<close>: the step is not
    enabled), runs over schedules, reachable states, and locales for invariants, progress and for
    measures that bound the length of every run.
  \<^item> Small lemmas on \<open>takeWhile\<close> and \<open>find\<close> that several components use.
\<close>

named_theorems effect_simps "unfolding of the effect combinators"

type_synonym fd = int

section \<open>Sequential programs: effects\<close>

text \<open>
  \<open>Perror s\<close> is \<open>perror(s)\<close>, \<open>Out s\<close> is \<open>printf\<close> to standard output, \<open>Wr fd s\<close> is
  \<open>write(fd, ...)\<close> (or \<open>send\<close>) of the bytes \<open>s\<close>, \<open>Cl fd\<close> is \<open>close(fd)\<close>, \<open>Call name args\<close>
  is any other call whose result the program ignores or gets from its environment.
  Bytes are \<open>char\<close>; messages that the source prints in Chinese appear as an ASCII paraphrase.
\<close>

datatype event =
    Perror string
  | Out string
  | Wr fd string
  | Cl fd
  | Call string "int list"

datatype 'a outcome = Done 'a | Exit int | Undef | Block

type_synonym 'a comp = "event list \<times> 'a outcome"

definition ret :: "'a \<Rightarrow> 'a comp" where
  "ret a = ([], Done a)"

definition emit :: "event \<Rightarrow> unit comp" where
  "emit e = ([e], Done ())"

definition exit_with :: "int \<Rightarrow> 'a comp" where
  "exit_with n = ([], Exit n)"

definition undef :: "'a comp" where
  "undef = ([], Undef)"

definition block :: "'a comp" where
  "block = ([], Block)"

definition bindc :: "'a comp \<Rightarrow> ('a \<Rightarrow> 'b comp) \<Rightarrow> 'b comp" where
  "bindc m f =
     (case m of
        (es, Done a) \<Rightarrow> (case f a of (es', r) \<Rightarrow> (es @ es', r))
      | (es, Exit n) \<Rightarrow> (es, Exit n)
      | (es, Undef) \<Rightarrow> (es, Undef)
      | (es, Block) \<Rightarrow> (es, Block))"

abbreviation thenc :: "unit comp \<Rightarrow> 'b comp \<Rightarrow> 'b comp" where
  "thenc m k \<equiv> bindc m (\<lambda>_. k)"

abbreviation events :: "'a comp \<Rightarrow> event list" where
  "events \<equiv> fst"

abbreviation outcome :: "'a comp \<Rightarrow> 'a outcome" where
  "outcome \<equiv> snd"

lemma bindc_Done [effect_simps]: "bindc (es, Done a) f = (es @ events (f a), outcome (f a))"
  by (simp add: bindc_def split: prod.split)

lemma bindc_stop [effect_simps]:
  "bindc (es, Exit n) f = (es, Exit n)"
  "bindc (es, Undef) f = (es, Undef)"
  "bindc (es, Block) f = (es, Block)"
  by (simp_all add: bindc_def)

lemmas prim_effects [effect_simps] = ret_def emit_def exit_with_def undef_def block_def

lemma bindc_ret_left [simp]: "bindc (ret a) f = f a"
  by (simp add: effect_simps)

lemma bindc_ret_right [simp]: "bindc m ret = m"
  by (cases m; cases "snd m") (auto simp: effect_simps)

lemma bindc_assoc: "bindc (bindc m f) g = bindc m (\<lambda>x. bindc (f x) g)"
  by (cases m; cases "snd m") (auto simp: effect_simps bindc_def split: prod.split outcome.split)

text \<open>A composition continues exactly when both parts do, and then the traces are appended.\<close>

lemma bindc_eq_Done:
  "bindc m f = (es, Done b) \<longleftrightarrow>
     (\<exists>es1 a es2. m = (es1, Done a) \<and> f a = (es2, Done b) \<and> es = es1 @ es2)"
  by (auto simp: bindc_def split: prod.splits outcome.splits)

lemma bindc_DoneE:
  assumes "bindc m f = (es, Done b)"
  obtains es1 a es2 where "m = (es1, Done a)" "f a = (es2, Done b)" "es = es1 @ es2"
  using assms by (auto simp: bindc_eq_Done)

text \<open>The error helpers every program of the repository defines.\<close>

definition syserr :: "int \<Rightarrow> string \<Rightarrow> unit comp" where
  "syserr r str = (if -1 = r then thenc (emit (Perror str)) (exit_with r) else ret ())"

lemma syserr_ok [simp]: "r \<noteq> -1 \<Longrightarrow> syserr r str = ret ()"
  by (simp add: syserr_def)

lemma syserr_fail [simp]: "syserr (-1) str = ([Perror str], Exit (-1))"
  by (simp add: syserr_def effect_simps)

lemma syserr_eq_Done [simp]: "syserr r str = (es, Done u) \<longleftrightarrow> r \<noteq> -1 \<and> es = []"
  by (auto simp: syserr_def effect_simps)

section \<open>Concurrent programs: schedules and reachable states\<close>

fun run :: "('s \<Rightarrow> 'l \<Rightarrow> 's option) \<Rightarrow> 's \<Rightarrow> 'l list \<Rightarrow> 's option" where
  "run step s [] = Some s"
| "run step s (l # ls) = (case step s l of None \<Rightarrow> None | Some t \<Rightarrow> run step t ls)"

inductive reachable :: "('s \<Rightarrow> 'l \<Rightarrow> 's option) \<Rightarrow> 's \<Rightarrow> 's \<Rightarrow> bool"
  for step :: "'s \<Rightarrow> 'l \<Rightarrow> 's option" and s0 :: 's
where
  reach_start: "reachable step s0 s0"
| reach_step: "reachable step s0 s \<Longrightarrow> step s l = Some t \<Longrightarrow> reachable step s0 t"

lemma run_append: "run step s (ks @ ls) = Option.bind (run step s ks) (\<lambda>t. run step t ls)"
  by (induction ks arbitrary: s) (auto split: option.split)

lemma reachable_run: "reachable step s0 s \<Longrightarrow> run step s ls = Some t \<Longrightarrow> reachable step s0 t"
  by (induction ls arbitrary: s) (auto split: option.splits intro: reach_step)

lemma reachable_has_run: "reachable step s0 s \<Longrightarrow> \<exists>ls. run step s0 ls = Some s"
proof (induction rule: reachable.induct)
  case reach_start
  have "run step s0 [] = Some s0" by simp
  then show ?case by (rule exI)
next
  case (reach_step s l t)
  then obtain ls where "run step s0 ls = Some s" by (elim exE)
  with reach_step.hyps have "run step s0 (ls @ [l]) = Some t"
    by (simp add: run_append)
  then show ?case by (rule exI)
qed

lemma reachable_iff_run: "reachable step s0 s \<longleftrightarrow> (\<exists>ls. run step s0 ls = Some s)"
  using reachable_has_run reachable_run [OF reach_start] by (intro iffI) (assumption, elim exE)

lemma run_reachable: "run step s0 ls = Some s \<Longrightarrow> reachable step s0 s"
  by (auto simp: reachable_iff_run)

definition stuck :: "('s \<Rightarrow> 'l \<Rightarrow> 's option) \<Rightarrow> 's \<Rightarrow> bool" where
  "stuck step s \<longleftrightarrow> (\<forall>l. step s l = None)"

text \<open>A system with an inductive invariant.\<close>

locale safe_system =
  fixes step :: "'s \<Rightarrow> 'l \<Rightarrow> 's option"
    and s0 :: 's
    and inv :: "'s \<Rightarrow> bool"
  assumes inv_start: "inv s0"
    and inv_step: "inv s \<Longrightarrow> step s l = Some t \<Longrightarrow> inv t"
begin

lemma inv_run: "inv s \<Longrightarrow> run step s ls = Some t \<Longrightarrow> inv t"
  by (induction ls arbitrary: s) (auto split: option.splits dest: inv_step)

lemma inv_reachable: "reachable step s0 s \<Longrightarrow> inv s"
  by (induction rule: reachable.induct) (auto intro: inv_start inv_step)

end

text \<open>A system in which, moreover, every step uses up some of a measure: all its runs are finite.\<close>

locale bounded_system = safe_system step s0 inv
  for step :: "'s \<Rightarrow> 'l \<Rightarrow> 's option" and s0 :: 's and inv :: "'s \<Rightarrow> bool" +
  fixes fuel :: "'s \<Rightarrow> nat"
  assumes fuel_step: "inv s \<Longrightarrow> step s l = Some t \<Longrightarrow> fuel t < fuel s"
begin

lemma run_length: "inv s \<Longrightarrow> run step s ls = Some t \<Longrightarrow> length ls + fuel t \<le> fuel s"
proof (induction ls arbitrary: s)
  case (Cons l ls)
  then obtain u where u: "step s l = Some u" "run step u ls = Some t"
    by (auto split: option.splits)
  with Cons.prems have "inv u" "fuel u < fuel s"
    by (auto dest: inv_step fuel_step)
  with Cons.IH [OF \<open>inv u\<close> u(2)] show ?case by simp
qed simp

lemma run_bounded: "run step s0 ls = Some t \<Longrightarrow> length ls \<le> fuel s0"
  using run_length [OF inv_start] by fastforce

lemma stuck_after: "inv s \<Longrightarrow> \<exists>ls t. run step s ls = Some t \<and> stuck step t"
proof (induction "fuel s" arbitrary: s rule: less_induct)
  case less
  show ?case
  proof (cases "stuck step s")
    case True
    then show ?thesis by (intro exI [of _ "[]"] exI [of _ s]) simp
  next
    case False
    then obtain l u where u: "step s l = Some u" by (auto simp: stuck_def)
    with less.hyps [of u] less.prems obtain ls t where "run step u ls = Some t" "stuck step t"
      by (blast dest: inv_step fuel_step)
    with u show ?thesis by (intro exI [of _ "l # ls"] exI [of _ t]) simp
  qed
qed

lemma stuck_reachable: "\<exists>ls t. run step s0 ls = Some t \<and> stuck step t"
  by (rule stuck_after [OF inv_start])

end

text \<open>
  A system that does not deadlock: as long as it is \<open>alive\<close>, one of the steps that count (those of the threads, say)
  is possible and leaves it alive; and when it is not alive yet, others (those of a main thread that creates them)
  can make it so, unless it is no longer \<open>able\<close> to go on.
\<close>

locale live_system = safe_system step s0 inv
  for step :: "'s \<Rightarrow> 'l \<Rightarrow> 's option" and s0 :: 's and inv :: "'s \<Rightarrow> bool" +
  fixes counts :: "'l \<Rightarrow> bool" and able :: "'s \<Rightarrow> bool" and alive :: "'s \<Rightarrow> bool"
  assumes moves: "inv s \<Longrightarrow> alive s \<Longrightarrow> \<exists>l t. counts l \<and> step s l = Some t \<and> alive t"
    and begins: "inv s \<Longrightarrow> able s \<Longrightarrow> \<exists>ls t. (\<forall>l\<in>set ls. \<not> counts l) \<and> run step s ls = Some t \<and> alive t"
begin

lemma goes_on: "inv s \<Longrightarrow> alive s \<Longrightarrow> \<exists>ls t. length ls = n \<and> (\<forall>l\<in>set ls. counts l) \<and> run step s ls = Some t"
proof (induction n arbitrary: s)
  case 0
  have "length [] = 0 \<and> (\<forall>l\<in>set []. counts l) \<and> run step s [] = Some s" by simp
  then show ?case by (intro exI)
next
  case (Suc n)
  from moves [OF Suc.prems] obtain l t where l: "counts l" "step s l = Some t" "alive t" by blast
  with Suc.IH [of t] Suc.prems(1) obtain ls u where
    "length ls = n" "\<forall>l\<in>set ls. counts l" "run step t ls = Some u" by (blast dest: inv_step)
  with l have "length (l # ls) = Suc n \<and> (\<forall>l\<in>set (l # ls). counts l) \<and> run step s (l # ls) = Some u" by simp
  then show ?case by (intro exI)
qed

lemma no_deadlock:
  assumes "reachable step s0 s" "able s"
  shows "\<exists>ks ls t. (\<forall>l\<in>set ks. \<not> counts l) \<and> length ls = n \<and> (\<forall>l\<in>set ls. counts l) \<and> run step s (ks @ ls) = Some t"
proof -
  from begins [OF inv_reachable] assms obtain ks u where
    ks: "\<forall>l\<in>set ks. \<not> counts l" "run step s ks = Some u" "alive u" by blast
  have "inv u" using inv_run [OF inv_reachable [OF assms(1)] ks(2)] .
  from goes_on [OF this ks(3), of n] obtain ls t where
    ls: "length ls = n" "\<forall>l\<in>set ls. counts l" "run step u ls = Some t" by blast
  then have "run step s (ks @ ls) = Some t" using ks(2) by (simp add: run_append)
  with ks(1) ls(1,2) show ?thesis by blast
qed

end

section \<open>Lists\<close>

lemma take_length_takeWhile: "take (length (takeWhile P xs)) xs = takeWhile P xs"
  by (metis append_eq_conv_conj takeWhile_dropWhile_id)

lemma takeWhile_append_stop: "x \<in> set xs \<Longrightarrow> \<not> P x \<Longrightarrow> takeWhile P (xs @ ys) = takeWhile P xs"
  by (simp add: takeWhile_append1)

lemma takeWhile_append_all: "(\<And>x. x \<in> set xs \<Longrightarrow> P x) \<Longrightarrow> takeWhile P (xs @ ys) = xs @ takeWhile P ys"
  by (simp add: takeWhile_append2)

text \<open>Interleavings: one more element at the end of either list.\<close>

lemma shuffles_snoc_left: "zs \<in> shuffles xs ys \<Longrightarrow> zs @ [x] \<in> shuffles (xs @ [x]) ys"
proof (induction xs ys arbitrary: zs rule: shuffles.induct)
  case (1 ys)
  then show ?case by (induction ys arbitrary: zs) (auto simp: Cons_in_shuffles_iff)
qed (auto simp: Cons_in_shuffles_iff)

lemma shuffles_snoc_right: "zs \<in> shuffles xs ys \<Longrightarrow> zs @ [y] \<in> shuffles xs (ys @ [y])"
  using shuffles_snoc_left [of zs ys xs y] by (simp add: shuffles_commutes)

end
