(* ===== verification/CString.thy ===== *)
theory CString
  imports Prelude
begin

text \<open>
  Character buffers and C strings.  A buffer is the list of the bytes of the array; \<open>strlen\<close>
  looks for the terminating NUL inside it and is undefined (\<open>None\<close>) when there is none, as the
  C function then reads past the end of the array.  \<open>fill\<close> is what \<open>read\<close>, \<open>recv\<close> and
  \<open>sprintf\<close> do to a buffer: the first bytes are replaced, the rest stays.  \<open>show_int\<close> is the
  \<open>%d\<close> conversion.
\<close>

section \<open>Buffers\<close>

definition NUL :: char where
  "NUL = CHR 0x00"

definition NL :: string where
  "NL = [CHR 0x0A]"

definition zeros :: "nat \<Rightarrow> string" where
  "zeros n = replicate n NUL"

definition fill :: "string \<Rightarrow> string \<Rightarrow> string" where
  "fill buf d = d @ drop (length d) buf"

definition strlen :: "string \<Rightarrow> nat option" where
  "strlen buf = (if NUL \<in> set buf then Some (length (takeWhile (\<lambda>c. c \<noteq> NUL) buf)) else None)"

definition cstr :: "string \<Rightarrow> string comp" where
  "cstr buf = (case strlen buf of None \<Rightarrow> undef | Some n \<Rightarrow> ret (take n buf))"

text \<open>\<open>text_of d\<close>: the C string a run of bytes spells, up to its first NUL or its end.\<close>

definition text_of :: "string \<Rightarrow> string" where
  "text_of d = takeWhile (\<lambda>c. c \<noteq> NUL) d"

lemma length_zeros [simp]: "length (zeros n) = n"
  by (simp add: zeros_def)

lemma zeros_0 [simp]: "zeros 0 = []"
  by (simp add: zeros_def)

lemma NUL_in_zeros [simp]: "NUL \<in> set (zeros n) \<longleftrightarrow> 0 < n"
  by (simp add: zeros_def)

lemma drop_zeros [simp]: "drop k (zeros n) = zeros (n - k)"
  by (simp add: zeros_def)

lemma length_fill [simp]: "length d \<le> length buf \<Longrightarrow> length (fill buf d) = length buf"
  by (simp add: fill_def)

lemma take_fill [simp]: "take (length d) (fill buf d) = d"
  by (simp add: fill_def)

lemma text_of_zeros [simp]: "text_of (zeros n) = []"
  by (cases n) (simp_all add: text_of_def zeros_def)

lemma text_of_no_NUL: "NUL \<notin> set d \<Longrightarrow> text_of d = d"
  unfolding text_of_def by (rule takeWhile_eq_all_conv [THEN iffD2]) auto

lemma text_of_no_NUL_append: "NUL \<notin> set d \<Longrightarrow> text_of (d @ xs) = d @ text_of xs"
  by (induction d) (auto simp: text_of_def)

lemma length_text_of: "length (text_of d) \<le> length d"
  by (simp add: text_of_def length_takeWhile_le)

lemma text_of_append_NUL [simp]: "text_of (d @ NUL # xs) = text_of d"
  by (induction d) (auto simp: text_of_def)

lemma NUL_notin_text_of [simp]: "NUL \<notin> set (text_of d)"
  by (auto simp: text_of_def dest: set_takeWhileD)

lemma NUL_in_fill_zeros: "length d < n \<Longrightarrow> NUL \<in> set (fill (zeros n) d)"
  by (simp add: fill_def)

lemma strlen_eq_Some: "strlen buf = Some n \<longleftrightarrow> NUL \<in> set buf \<and> n = length (text_of buf)"
  by (auto simp: strlen_def text_of_def)

lemma strlen_eq_None: "strlen buf = None \<longleftrightarrow> NUL \<notin> set buf"
  by (simp add: strlen_def)

lemma take_strlen: "strlen buf = Some n \<Longrightarrow> take n buf = text_of buf"
  by (auto simp: strlen_eq_Some text_of_def take_length_takeWhile)

lemma text_of_split: "NUL \<in> set buf \<Longrightarrow> \<exists>rest. buf = text_of buf @ NUL # rest"
proof (induction buf)
  case (Cons c cs)
  then show ?case by (cases "c = NUL") (auto simp: text_of_def)
qed simp

text \<open>\<open>strlen(buf) + 1\<close> bytes of \<open>buf\<close>: the text and its terminator.\<close>

lemma take_Suc_strlen: "strlen buf = Some n \<Longrightarrow> take (Suc n) buf = text_of buf @ [NUL]"
proof -
  assume n: "strlen buf = Some n"
  then obtain rest where eq: "buf = text_of buf @ NUL # rest"
    using text_of_split strlen_eq_Some by blast
  from n have "n = length (text_of buf)"
    by (simp add: strlen_eq_Some)
  then show ?thesis
    by (subst eq) simp
qed

lemma text_of_fill_zeros [simp]: "text_of (fill (zeros n) d) = text_of d"
proof (cases "NUL \<in> set d")
  case True
  then show ?thesis by (simp add: text_of_def fill_def takeWhile_append_stop)
next
  case False
  then have all: "x \<noteq> NUL" if "x \<in> set d" for x using that by auto
  have "text_of (fill (zeros n) d) = d @ text_of (zeros (n - length d))"
    unfolding text_of_def fill_def using all by (simp add: takeWhile_append_all)
  with False show ?thesis by (simp add: text_of_no_NUL)
qed

lemma strlen_fill_zeros: "length d < n \<Longrightarrow> strlen (fill (zeros n) d) = Some (length (text_of d))"
  by (simp add: strlen_eq_Some NUL_in_fill_zeros)

lemma text_of_fill_NUL: "NUL \<in> set d \<Longrightarrow> text_of (fill buf d) = text_of d"
  by (simp add: text_of_def fill_def takeWhile_append_stop)

lemma cstr_eq_Done: "cstr buf = (es, Done t) \<longleftrightarrow> NUL \<in> set buf \<and> es = [] \<and> t = text_of buf"
  by (auto simp: cstr_def effect_simps strlen_eq_None take_strlen dest: take_strlen
      split: option.splits) (auto simp: strlen_eq_Some)

lemma cstr_NUL: "NUL \<in> set buf \<Longrightarrow> cstr buf = ret (text_of buf)"
  using cstr_eq_Done [of buf "[]" "text_of buf"] by (simp add: effect_simps)

lemma cstr_no_NUL: "NUL \<notin> set buf \<Longrightarrow> cstr buf = undef"
  by (simp add: cstr_def strlen_eq_None [THEN iffD2])

section \<open>Decimal output\<close>

definition digit :: "nat \<Rightarrow> char" where
  "digit d = char_of (48 + d)"

fun show_nat :: "nat \<Rightarrow> string" where
  "show_nat n = (if n < 10 then [digit n] else show_nat (n div 10) @ [digit (n mod 10)])"

declare show_nat.simps [simp del]

definition show_int :: "int \<Rightarrow> string" where
  "show_int i = (if i < 0 then CHR ''-'' # show_nat (nat (- i)) else show_nat (nat i))"

text \<open>Reading the digits back, as \<open>atoi\<close> does on a string of digits.\<close>

definition digit_val :: "char \<Rightarrow> nat" where
  "digit_val c = of_char c - 48"

definition read_nat :: "string \<Rightarrow> nat" where
  "read_nat s = foldl (\<lambda>a c. 10 * a + digit_val c) 0 s"

lemma digit_val_digit [simp]: "d < 10 \<Longrightarrow> digit_val (digit d) = d"
  by (simp add: digit_val_def digit_def)

lemma read_show_nat [simp]: "read_nat (show_nat n) = n"
proof (induction n rule: show_nat.induct)
  case (1 n)
  show ?case
  proof (cases "n < 10")
    case True
    then show ?thesis by (subst show_nat.simps) (simp add: read_nat_def)
  next
    case False
    with "1.IH" have "read_nat (show_nat (n div 10)) = n div 10" by simp
    with False show ?thesis
      by (subst show_nat.simps) (simp add: read_nat_def)
  qed
qed

lemma show_nat_inject [simp]: "show_nat m = show_nat n \<longleftrightarrow> m = n"
  by (metis read_show_nat)

lemma length_show_nat: "n < 10 ^ Suc k \<Longrightarrow> length (show_nat n) \<le> Suc k"
proof (induction k arbitrary: n)
  case 0
  then show ?case by (subst show_nat.simps) simp
next
  case (Suc k)
  then have "n div 10 < 10 ^ Suc k" by auto
  with Suc.IH show ?case by (subst show_nat.simps) simp
qed

text \<open>What is printed for a number consists of digits.\<close>

definition is_digit :: "char \<Rightarrow> bool" where
  "is_digit c \<longleftrightarrow> 48 \<le> (of_char c :: nat) \<and> (of_char c :: nat) \<le> 57"

lemma of_char_digit: "d < 10 \<Longrightarrow> of_char (digit d) = 48 + d"
  by (simp add: digit_def)

lemma show_nat_digits: "c \<in> set (show_nat n) \<Longrightarrow> is_digit c"
proof (induction n rule: show_nat.induct)
  case (1 n)
  then show ?case
    by (subst (asm) (2) show_nat.simps) (auto simp: is_digit_def of_char_digit split: if_splits)
qed

lemma digit_neq_NUL: "d < 10 \<Longrightarrow> digit d \<noteq> NUL"
proof
  assume d: "d < 10" and "digit d = NUL"
  then have "of_char (digit d) = (of_char NUL :: nat)" by simp
  with d show False by (simp add: digit_def NUL_def)
qed

lemma NUL_notin_show_nat [simp]: "NUL \<notin> set (show_nat n)"
proof (induction n rule: show_nat.induct)
  case (1 n)
  show ?case
  proof (cases "n < 10")
    case True
    with digit_neq_NUL [OF this] show ?thesis by (subst show_nat.simps) auto
  next
    case False
    with digit_neq_NUL [of "n mod 10"] 1 show ?thesis by (subst show_nat.simps) auto
  qed
qed

lemma NUL_notin_show_int [simp]: "NUL \<notin> set (show_int i)"
proof -
  have "CHR ''-'' \<noteq> NUL" by (simp add: NUL_def)
  then show ?thesis by (auto simp: show_int_def)
qed

end
