(* ===== verification/ListFile.thy ===== *)
theory ListFile
  imports CString "HOL-Library.Word"
begin

unbundle bit_operations_syntax

text \<open>
  \<^verbatim>\<open>f_ls.c\<close>, a version of \<^verbatim>\<open>ls -l\<close> for one file, and \<^verbatim>\<open>f_opendir_readir_closedir.c\<close>, which counts the regular
  files under a directory.  \<open>stat\<close>, the user and group databases, \<open>ctime\<close> and the directory tree are
  inputs.
\<close>

section \<open>The mode string\<close>

type_synonym mode_t = "32 word"

definition S_IFMT :: mode_t where "S_IFMT = 0xF000"
definition S_IFLNK :: mode_t where "S_IFLNK = 0xA000"
definition S_IFDIR :: mode_t where "S_IFDIR = 0x4000"
definition S_IFREG :: mode_t where "S_IFREG = 0x8000"
definition S_IFBLK :: mode_t where "S_IFBLK = 0x6000"
definition S_IFSOCK :: mode_t where "S_IFSOCK = 0xC000"
definition S_IFIFO :: mode_t where "S_IFIFO = 0x1000"

lemmas S_IF_defs = S_IFMT_def S_IFLNK_def S_IFDIR_def S_IFREG_def S_IFBLK_def S_IFSOCK_def S_IFIFO_def

text \<open>The switch on the file type; \<open>'1'\<close> for a symbolic link is what the source has.\<close>

definition type_char :: "mode_t \<Rightarrow> char" where
  "type_char m =
     (let k = m AND S_IFMT in
      if k = S_IFLNK then CHR ''1''
      else if k = S_IFDIR then CHR ''d''
      else if k = S_IFREG then CHR ''-''
      else if k = S_IFBLK then CHR ''b''
      else if k = S_IFSOCK then CHR ''s''
      else if k = S_IFIFO then CHR ''p''
      else CHR ''?'')"

definition S_IRUSR :: mode_t where "S_IRUSR = 0x100"
definition S_IWUSR :: mode_t where "S_IWUSR = 0x80"
definition S_IXUSR :: mode_t where "S_IXUSR = 0x40"
definition S_IRGRP :: mode_t where "S_IRGRP = 0x20"
definition S_IWGRP :: mode_t where "S_IWGRP = 0x10"
definition S_IXGRP :: mode_t where "S_IXGRP = 0x8"
definition S_IROTH :: mode_t where "S_IROTH = 0x4"
definition S_IWOTH :: mode_t where "S_IWOTH = 0x2"
definition S_IXOTH :: mode_t where "S_IXOTH = 0x1"

definition perm_char :: "mode_t \<Rightarrow> mode_t \<Rightarrow> char \<Rightarrow> char" where
  "perm_char m flag c = (if m AND flag \<noteq> 0 then c else CHR ''-'')"

definition perms :: "mode_t \<Rightarrow> string" where
  "perms m =
     [type_char m,
      perm_char m S_IRUSR (CHR ''r''), perm_char m S_IWUSR (CHR ''w''), perm_char m S_IXUSR (CHR ''x''),
      perm_char m S_IRGRP (CHR ''r''), perm_char m S_IWGRP (CHR ''w''), perm_char m S_IXGRP (CHR ''x''),
      perm_char m S_IROTH (CHR ''r''), perm_char m S_IWOTH (CHR ''w''), perm_char m S_IXOTH (CHR ''x'')]"

text \<open>Reading the nine permission letters back into a mode.\<close>

definition read_perms :: "string \<Rightarrow> mode_t" where
  "read_perms s = foldl (\<lambda>a b. push_bit 1 a OR b) 0 (map (\<lambda>c. if c = CHR ''-'' then 0 else 1) (tl s))"

lemma perm_char_bit: "c \<noteq> CHR ''-'' \<Longrightarrow> (if perm_char m (push_bit k 1) c = CHR ''-'' then 0 else 1) = (if bit m k then 1 else 0 :: mode_t)"
proof -
  assume "c \<noteq> CHR ''-''"
  moreover have "m AND push_bit k 1 \<noteq> 0 \<longleftrightarrow> bit m k"
  proof
    assume "bit m k"
    then have "bit (m AND push_bit k 1) k" using bit_imp_le_length [of m k] by (simp add: bit_simps)
    then show "m AND push_bit k 1 \<noteq> 0" by auto
  next
    assume nz: "m AND push_bit k 1 \<noteq> 0"
    show "bit m k"
    proof (rule ccontr)
      assume "\<not> bit m k"
      then have "m AND push_bit k 1 = 0" by (intro bit_word_eqI) (auto simp: bit_simps)
      with nz show False by simp
    qed
  qed
  ultimately show ?thesis by (simp add: perm_char_def)
qed

lemma flags_push:
  "S_IRUSR = push_bit 8 1" "S_IWUSR = push_bit 7 1" "S_IXUSR = push_bit 6 1"
  "S_IRGRP = push_bit 5 1" "S_IWGRP = push_bit 4 1" "S_IXGRP = push_bit 3 1"
  "S_IROTH = push_bit 2 1" "S_IWOTH = push_bit 1 1" "S_IXOTH = push_bit 0 1"
 
  by (simp_all add: push_bit_eq_mult S_IRUSR_def S_IWUSR_def S_IXUSR_def S_IRGRP_def S_IWGRP_def S_IXGRP_def S_IROTH_def S_IWOTH_def S_IXOTH_def)

definition bitw :: "mode_t \<Rightarrow> nat \<Rightarrow> mode_t" where
  "bitw m k = (if bit m k then 1 else 0)"

lemma take_bit_step: "take_bit (Suc k) m = take_bit k m OR push_bit k (bitw m k)"
  by (rule bit_word_eqI) (auto simp: bit_simps bitw_def less_Suc_eq)

lemma foldl_bits:
  "foldl (\<lambda>a b. push_bit 1 a OR b) a (map (bitw m) (rev [0..<n])) = push_bit n a OR take_bit n m"
proof (induction n arbitrary: a)
  case (Suc n)
  have "push_bit n (push_bit 1 a OR bitw m n) OR take_bit n m = push_bit (Suc n) a OR take_bit (Suc n) m"
    unfolding take_bit_step by (rule bit_word_eqI) (auto simp: bit_simps)
  with Suc show ?case by simp
qed simp

lemma read_perms_eq: "read_perms (perms m) = take_bit 9 m"
proof -
  have c: "CHR ''r'' \<noteq> CHR ''-''" "CHR ''w'' \<noteq> CHR ''-''" "CHR ''x'' \<noteq> CHR ''-''" by simp_all
  note bits = perm_char_bit [OF c(1)] perm_char_bit [OF c(2)] perm_char_bit [OF c(3)]
  have "map (\<lambda>c. if c = CHR ''-'' then 0 else 1) (tl (perms m)) = map (bitw m) [8, 7, 6, 5, 4, 3, 2, 1, 0]"
    by (simp only: perms_def flags_push list.map list.sel bits bitw_def)
  then have "read_perms (perms m) = foldl (\<lambda>a b. push_bit 1 a OR b) 0 (map (bitw m) [8, 7, 6, 5, 4, 3, 2, 1, 0])"
    by (simp only: read_perms_def)
  also have "[8, 7, 6, 5, 4, 3, 2, 1, 0] = rev [0..<9]"
    by (simp add: upt_rec)
  also have "foldl (\<lambda>a b. push_bit 1 a OR b) 0 (map (bitw m) (rev [0..<9])) = take_bit 9 m"
    by (simp only: foldl_bits push_bit_of_0 or.left_neutral)
  finally show ?thesis .
qed

section \<open>The line\<close>

text \<open>What \<open>stat\<close> and the calls that follow give: \<open>owner\<close> and \<open>group\<close> are \<open>None\<close> when the id has no entry
  in the database, which the program does not check.\<close>

record stat_t =
  st_mode :: mode_t
  st_nlink :: int
  owner :: "string option"
  group :: "string option"
  st_size :: int
  mtime :: string

definition SP :: string where
  "SP = '' ''"

definition ls_line :: "stat_t \<Rightarrow> string \<Rightarrow> string \<Rightarrow> string \<Rightarrow> string" where
  "ls_line st user grp name =
     perms (st_mode st) @ SP @ show_int (st_nlink st) @ SP @ user @ SP @ grp @ SP @ show_int (st_size st) @ SP @
     take (length (mtime st) - 1) (mtime st) @ SP @ name"

definition ls_main :: "string \<Rightarrow> string option \<Rightarrow> stat_t option \<Rightarrow> unit comp" where
  "ls_main argv0 arg st =
     (case arg of
        None \<Rightarrow> thenc (emit (Out (argv0 @ '' filename'' @ NL))) (exit_with (-1))
      | Some name \<Rightarrow>
          (case st of
             None \<Rightarrow> thenc (emit (Perror ''stat'')) (exit_with (-1))
           | Some st \<Rightarrow>
               (case (owner st, group st) of
                  (Some user, Some grp) \<Rightarrow>
                    (if length (ls_line st user grp name) < 1024
                     then emit (Out (ls_line st user grp name @ NL)) else undef)
                | _ \<Rightarrow> undef)))"

section \<open>Counting the regular files\<close>

text \<open>A directory entry: its name, its \<open>d_type\<close>, and what \<open>opendir\<close> finds when it is opened.\<close>

datatype ent = Ent (ename: string) (dtype: int) (sub: "ent list option")

fun getFileNum :: "string \<Rightarrow> ent list option \<Rightarrow> int comp"
  and read_entries :: "string \<Rightarrow> int \<Rightarrow> ent list \<Rightarrow> int comp" where
  "getFileNum path None = thenc (emit (Perror ''opendir'')) (exit_with 0)"
| "getFileNum path (Some es) = read_entries path 0 es"
| "read_entries path cnt [] = ret cnt"
| "read_entries path cnt (Ent dname ty d # es) =
     (if dname = ''.'' \<or> dname = ''..'' then read_entries path cnt es
      else if ty = 4 then
        (if length (path @ ''/'' @ dname) < 256
         then bindc (getFileNum (path @ ''/'' @ dname) d) (\<lambda>n. read_entries path (cnt + n) es)
         else undef)
      else if ty = 8 then read_entries path (cnt + 1) es
      else read_entries path cnt es)"

definition dir_main :: "string \<Rightarrow> string option \<Rightarrow> ent list option \<Rightarrow> unit comp" where
  "dir_main argv0 arg tree =
     (case arg of
        None \<Rightarrow> thenc (emit (Out (argv0 @ '' path'' @ NL))) (exit_with (-1))
      | Some path \<Rightarrow> bindc (getFileNum path tree) (\<lambda>n. emit (Out (''regular files: '' @ show_int n @ NL))))"

text \<open>Specification: the paths of the regular files, and the directories that are opened on the way.\<close>

fun reg_files :: "string \<Rightarrow> ent list option \<Rightarrow> string list"
  and reg_entries :: "string \<Rightarrow> ent list \<Rightarrow> string list" where
  "reg_files path None = []"
| "reg_files path (Some es) = reg_entries path es"
| "reg_entries path [] = []"
| "reg_entries path (Ent n ty d # es) =
     (if n \<in> {''.'', ''..''} then []
      else if ty = 4 then reg_files (path @ ''/'' @ n) d
      else if ty = 8 then [path @ ''/'' @ n] else []) @ reg_entries path es"

fun opened :: "string \<Rightarrow> ent list option \<Rightarrow> (string \<times> bool) list"
  and opened_entries :: "string \<Rightarrow> ent list \<Rightarrow> (string \<times> bool) list" where
  "opened path None = [(path, False)]"
| "opened path (Some es) = (path, True) # opened_entries path es"
| "opened_entries path [] = []"
| "opened_entries path (Ent n ty d # es) =
     (if n \<notin> {''.'', ''..''} \<and> ty = 4 then opened (path @ ''/'' @ n) d else []) @ opened_entries path es"

text \<open>A directory below the starting point whose path does not fit \<open>newpath\<close>.\<close>

definition long_path :: "string \<times> bool \<Rightarrow> bool" where
  "long_path x \<longleftrightarrow> 256 \<le> length (fst x)"

definition ends_walk :: "string \<times> bool \<Rightarrow> bool" where
  "ends_walk x \<longleftrightarrow> long_path x \<or> \<not> snd x"

text \<open>The first directory that does not fit or cannot be opened decides.\<close>

definition walked :: "(string \<times> bool) list \<Rightarrow> int \<Rightarrow> int comp" where
  "walked xs n =
     (case find ends_walk xs of
        None \<Rightarrow> ret n
      | Some x \<Rightarrow> if long_path x then undef else ([Perror ''opendir''], Exit 0))"

lemma find_append: "find P (xs @ ys) = (case find P xs of None \<Rightarrow> find P ys | Some x \<Rightarrow> Some x)"
  by (induction xs) simp_all

lemma walked_append:
  "(\<And>n. f n = walked ys (n + k)) \<Longrightarrow> bindc (walked xs n) f = walked (xs @ ys) (n + k)"
  by (auto simp: walked_def find_append effect_simps split: option.split)

lemma getFileNum_walk:
  "getFileNum path d = (case d of None \<Rightarrow> ([Perror ''opendir''], Exit 0)
     | Some es \<Rightarrow> walked (opened_entries path es) (int (length (reg_files path d))))"
  "read_entries path cnt es = walked (opened_entries path es) (cnt + int (length (reg_entries path es)))"
proof (induction path d and path cnt es rule: getFileNum_read_entries.induct)
  case (4 path cnt dname ty d es)
  show ?case
  proof (cases "dname \<notin> {''.'', ''..''} \<and> ty = 4")
    case True
    let ?p = "path @ ''/'' @ dname"
    show ?thesis
    proof (cases "length ?p < 256")
      case len: True
      have rest: "read_entries path (cnt + n) es = walked (opened_entries path es) (n + (cnt + int (length (reg_entries path es))))" for n
        using "4.IH"(3) True len by (simp add: add.assoc add.left_commute)
      have sub: "getFileNum ?p d = walked (opened ?p d) (int (length (reg_files ?p d)))"
        using "4.IH"(2) True len
        by (cases d) (simp_all add: walked_def ends_walk_def long_path_def)
      show ?thesis using True len sub walked_append [OF rest] by (simp add: add.assoc add.left_commute)
    next
      case False
      then have "find ends_walk (opened ?p d @ ys) = Some (?p, d \<noteq> None)" for ys
        by (cases d) (simp_all add: ends_walk_def long_path_def)
      with True False show ?thesis by (simp add: walked_def long_path_def)
    qed
  next
    case False
    with 4 show ?thesis by (auto simp: add.assoc)
  qed
qed (auto simp: effect_simps walked_def)

section \<open>Properties\<close>

text \<open>Claim C22.  When \<^verbatim>\<open>f_ls.c\<close> prints a line, the nine permission bits can be read back from it, its first
  letter is \<open>d\<close> exactly for directories and \<open>-\<close> exactly for regular files, and a character device
  gets a question mark.  The set-id and sticky bits are not shown.\<close>

theorem ls_mode_readable:
  assumes "ls_main argv0 arg (Some st) = ([Out line], Done ())"
  shows "read_perms (take 10 line) = take_bit 9 (st_mode st) \<and>
    (line ! 0 = CHR ''d'' \<longleftrightarrow> st_mode st AND S_IFMT = S_IFDIR) \<and>
    (line ! 0 = CHR ''-'' \<longleftrightarrow> st_mode st AND S_IFMT = S_IFREG) \<and>
    (st_mode st AND S_IFMT = 0x2000 \<longrightarrow> line ! 0 = CHR ''?'')"
proof (intro conjI impI)
  from assms obtain rest where line: "line = perms (st_mode st) @ rest"
    by (auto simp: ls_main_def ls_line_def effect_simps split: option.splits if_splits)
  have ten: "length (perms (st_mode st)) = 10" "perms (st_mode st) ! 0 = type_char (st_mode st)"
    by (simp_all add: perms_def)
  then have zero: "line ! 0 = type_char (st_mode st)" by (simp add: line nth_append)
  show "read_perms (take 10 line) = take_bit 9 (st_mode st)" using ten(1) by (simp add: line read_perms_eq)
  show "line ! 0 = CHR ''d'' \<longleftrightarrow> st_mode st AND S_IFMT = S_IFDIR"
    "line ! 0 = CHR ''-'' \<longleftrightarrow> st_mode st AND S_IFMT = S_IFREG"
    unfolding zero by (simp_all add: type_char_def Let_def S_IF_defs)
  show "st_mode st AND S_IFMT = 0x2000 \<Longrightarrow> line ! 0 = CHR ''?''"
    unfolding zero by (simp add: type_char_def S_IF_defs)
qed

lemma ls_mode_readable_witness:
  "\<exists>line. ls_main ''ls'' (Some ''a.txt'')
      (Some \<lparr>st_mode = 0x81A4, st_nlink = 1, owner = Some ''gloria'', group = Some ''gloria'', st_size = 722,
             mtime = ''May  5'' @ NL\<rparr>) = ([Out line], Done ()) \<and>
     take 10 line = ''-rw-r--r--'' \<and> read_perms (take 10 line) = 0x1A4"
proof -
  let ?st = "\<lparr>st_mode = 0x81A4, st_nlink = 1, owner = Some ''gloria'', group = Some ''gloria'', st_size = 722,
             mtime = ''May  5'' @ NL\<rparr>"
  have p: "perms 0x81A4 = ''-rw-r--r--''" by code_simp
  have n: "show_int 1 = ''1''" "show_int 722 = ''722''" by code_simp+
  obtain line where l: "ls_main ''ls'' (Some ''a.txt'') (Some ?st) = ([Out line], Done ())" "take 10 line = ''-rw-r--r--''"
    by (simp add: ls_main_def ls_line_def p n SP_def NL_def effect_simps)
  from ls_mode_readable [OF l(1)] have "read_perms (take 10 line) = take_bit 9 0x81A4" by simp
  also have "\<dots> = 0x1A4" by simp
  finally show ?thesis using l by blast
qed

text \<open>Claim C20.  \<open>getFileNum\<close> counts the regular files of a directory tree, at any depth, when every directory
  can be opened and the path of each one below the start fits the 256 bytes of \<open>newpath\<close>.  Otherwise the first directory
  on the way for which this fails decides: one that cannot be opened ends the whole program, with status 0 and without
  a count, and a path that is too long overflows the buffer, which is undefined.\<close>

theorem dir_main_counts:
  "dir_main argv0 (Some path) None = ([Perror ''opendir''], Exit 0) \<and>
   dir_main argv0 (Some path) (Some es) =
     (case find (\<lambda>x. long_path x \<or> \<not> snd x) (tl (opened path (Some es))) of
        None \<Rightarrow> ([Out (''regular files: '' @ show_int (int (length (reg_files path (Some es)))) @ NL)], Done ())
      | Some x \<Rightarrow> if long_path x then ([], Undef) else ([Perror ''opendir''], Exit 0))"
proof -
  have "find (\<lambda>x. long_path x \<or> \<not> snd x) xs = find ends_walk xs" for xs
    by (rule find_cong) (simp_all add: ends_walk_def)
  then show ?thesis
    by (simp add: dir_main_def getFileNum_walk walked_def effect_simps del: getFileNum.simps split: option.split)
qed

lemma dir_main_counts_witness:
  "dir_main ''n'' (Some ''d'') (Some [Ent ''.'' 4 None, Ent ''a'' 8 None, Ent ''s'' 4 (Some [Ent ''b'' 8 None, Ent ''p'' 1 None]), Ent ''c'' 8 None]) =
     ([Out (''regular files: '' @ show_int 3 @ NL)], Done ())"
  using dir_main_counts [of "''n''" "''d''" "[Ent ''.'' 4 None, Ent ''a'' 8 None, Ent ''s'' 4 (Some [Ent ''b'' 8 None, Ent ''p'' 1 None]), Ent ''c'' 8 None]"]
  by (simp add: long_path_def)

end
