(* ===== verification/Echo.thy ===== *)
theory Echo
  imports CString
begin

text \<open>
  What the TCP echo servers of \<^verbatim>\<open>NetCode/IO\<close> share: opening the listening socket, the reply
  \<open>write(fd, buf, strlen(buf) + 1)\<close>, and the abstract specification of one round of a
  multiplexing echo server, as the locale \<open>echo_mux\<close>.  A server that meets its contract never
  stops, keeps exactly the clients that joined and did not close, and sends every client the
  text of what it sent, NUL-terminated, in order.
\<close>

section \<open>System call results\<close>

text \<open>\<open>read\<close> fails with -1, or stores some bytes (none: the peer has closed).\<close>

datatype rdres = RdErr | RdData string

definition data_of :: "rdres \<Rightarrow> string" where
  "data_of r = (case r of RdErr \<Rightarrow> [] | RdData d \<Rightarrow> d)"

text \<open>The address of a peer: its text, as \<open>inet_ntop\<close> gives it, and its port.\<close>

type_synonym address = "string \<times> int"

definition BUFSIZ :: nat where
  "BUFSIZ = 8192"

lemma BUFSIZ_pos [simp]: "0 < BUFSIZ" "BUFSIZ \<noteq> 0"
  by (simp_all add: BUFSIZ_def)

text \<open>\<open>_syserr\<close>, here \<open>syserr_num\<close>, is defined beside \<open>syserr\<close> in the servers and called nowhere.\<close>

definition syserr_num :: "int \<Rightarrow> int \<Rightarrow> string \<Rightarrow> unit comp" where
  "syserr_num f_Num r str = (if f_Num = r then thenc (emit (Perror str)) (exit_with r) else ret ())"

lemma syserr_num_syserr: "syserr_num (-1) r str = syserr r str"
  by (simp add: syserr_num_def syserr_def)

definition tcp_listen :: "int \<Rightarrow> int \<Rightarrow> int \<Rightarrow> fd comp" where
  "tcp_listen sock bnd lst =
     thenc (syserr sock ''socket'')
    (thenc (emit (Call ''bind'' [sock, 9527]))
    (thenc (syserr bnd ''bind'')
    (thenc (emit (Call ''listen'' [sock, 128]))
    (thenc (syserr lst ''listen'')
    (ret sock)))))"

lemma tcp_listen_Done:
  "tcp_listen sock bnd lst = (es, Done l) \<longleftrightarrow>
     sock \<noteq> -1 \<and> bnd \<noteq> -1 \<and> lst \<noteq> -1 \<and> l = sock \<and>
     es = [Call ''bind'' [sock, 9527], Call ''listen'' [sock, 128]]"
  by (cases "sock = -1"; cases "bnd = -1"; cases "lst = -1")
     (auto simp: tcp_listen_def effect_simps)

lemma tcp_listen_fails:
  "sock = -1 \<or> bnd = -1 \<or> lst = -1 \<Longrightarrow> outcome (tcp_listen sock bnd lst) = Exit (-1)"
  by (cases "sock = -1"; cases "bnd = -1") (auto simp: tcp_listen_def effect_simps)

section \<open>The reply\<close>

definition reply :: "fd \<Rightarrow> string \<Rightarrow> unit comp" where
  "reply fd buf =
     (case strlen buf of None \<Rightarrow> undef | Some n \<Rightarrow> emit (Wr fd (take (n + 1) buf)))"

definition fits :: "nat \<Rightarrow> string \<Rightarrow> bool" where
  "fits n d \<longleftrightarrow> length d \<le> n \<and> (length d = n \<longrightarrow> NUL \<in> set d)"

lemma fits_NUL: "fits n d \<Longrightarrow> NUL \<in> set (fill (zeros n) d)"
  by (cases "length d < n") (auto simp: fits_def fill_def)

lemma not_fits_NUL: "length d = n \<Longrightarrow> \<not> fits n d \<Longrightarrow> NUL \<notin> set (fill (zeros n) d)"
  by (auto simp: fits_def fill_def)

lemma cstr_fits [simp]: "fits n d \<Longrightarrow> cstr (fill (zeros n) d) = ret (text_of d)"
proof -
  assume "fits n d"
  then have "cstr (fill (zeros n) d) = ([], Done (text_of d))"
    by (simp add: cstr_eq_Done fits_NUL)
  then show ?thesis by (simp add: effect_simps)
qed

lemma reply_fits [simp]: "fits n d \<Longrightarrow> reply fd (fill (zeros n) d) = emit (Wr fd (text_of d @ [NUL]))"
proof -
  assume "fits n d"
  then have "strlen (fill (zeros n) d) = Some (length (text_of d))"
    by (simp add: strlen_eq_Some fits_NUL)
  from this take_Suc_strlen [OF this] show ?thesis
    by (simp add: reply_def)
qed

lemma reply_overrun: "length d = n \<Longrightarrow> \<not> fits n d \<Longrightarrow> reply fd (fill (zeros n) d) = undef"
  by (simp add: reply_def strlen_eq_None [THEN iffD2] not_fits_NUL)

lemma cstr_overrun: "length d = n \<Longrightarrow> \<not> fits n d \<Longrightarrow> cstr (fill (zeros n) d) = undef"
  by (simp add: cstr_def strlen_eq_None [THEN iffD2] not_fits_NUL)

section \<open>Specification of an echo round\<close>

definition is_io :: "event \<Rightarrow> bool" where
  "is_io e = (case e of Wr _ _ \<Rightarrow> True | Cl _ \<Rightarrow> True | _ \<Rightarrow> False)"

lemma is_io_simps [simp]:
  "is_io (Wr f s)" "is_io (Cl f)" "\<not> is_io (Perror s)" "\<not> is_io (Out s)" "\<not> is_io (Call c as)"
  by (simp_all add: is_io_def)

abbreviation io :: "event list \<Rightarrow> event list" where
  "io es \<equiv> filter is_io es"

text \<open>What one served client gets: an empty read is its end of file.\<close>

definition answer :: "fd \<times> string \<Rightarrow> event list" where
  "answer = (\<lambda>(fd, d). if d = [] then [Cl fd] else [Wr fd (text_of d @ [NUL])])"

definition answers :: "(fd \<times> string) list \<Rightarrow> event list" where
  "answers xs = concat (map answer xs)"

definition leaving :: "(fd \<times> string) list \<Rightarrow> fd set" where
  "leaving xs = {fd. (fd, []) \<in> set xs}"

lemma answers_simps [simp]:
  "answers [] = []"
  "answers ((fd, d) # xs) = (if d = [] then Cl fd # answers xs
                             else Wr fd (text_of d @ [NUL]) # answers xs)"
  "answers (xs @ ys) = answers xs @ answers ys"
  by (simp_all add: answers_def answer_def)

lemma answers_Cons: "answers (x # xs) = answer x @ answers xs"
  by (simp add: answers_def)

lemma leaving_simps [simp]:
  "leaving [] = {}"
  "leaving ((fd, d) # xs) = (if d = [] then insert fd (leaving xs) else leaving xs)"
  "leaving (xs @ ys) = leaving xs \<union> leaving ys"
  by (auto simp: leaving_def)

text \<open>The bytes a trace sends to one descriptor.\<close>

definition sent_to :: "fd \<Rightarrow> event list \<Rightarrow> string" where
  "sent_to fd es = concat (map (\<lambda>e. case e of Wr f s \<Rightarrow> (if f = fd then s else []) | _ \<Rightarrow> []) es)"

lemma sent_to_simps [simp]:
  "sent_to fd [] = []"
  "sent_to fd (Wr f s # es) = (if f = fd then s @ sent_to fd es else sent_to fd es)"
  "sent_to fd (Cl f # es) = sent_to fd es"
  "sent_to fd (Perror m # es) = sent_to fd es"
  "sent_to fd (Out m # es) = sent_to fd es"
  "sent_to fd (Call c as # es) = sent_to fd es"
  "sent_to fd (es @ fs) = sent_to fd es @ sent_to fd fs"
  by (simp_all add: sent_to_def)

lemma sent_to_io: "sent_to fd (io es) = sent_to fd es"
proof (induction es)
  case (Cons e es)
  then show ?case by (cases e) simp_all
qed simp

definition echo_of :: "fd \<Rightarrow> (fd \<times> string) list \<Rightarrow> string" where
  "echo_of fd xs = concat (map (\<lambda>(f, d). text_of d @ [NUL]) (filter (\<lambda>(f, d). f = fd \<and> d \<noteq> []) xs))"

lemma sent_to_answers: "sent_to fd (answers xs) = echo_of fd xs"
proof (induction xs)
  case (Cons x xs)
  then show ?case by (cases x; cases "snd x = []"; cases "fst x = fd") (simp_all add: echo_of_def)
qed (simp add: echo_of_def)

text \<open>A server's loop, over the inputs of its successive rounds.\<close>

fun rounds :: "('i \<Rightarrow> 's \<Rightarrow> 's comp) \<Rightarrow> 's \<Rightarrow> 'i list \<Rightarrow> 's comp" where
  "rounds step s [] = ret s"
| "rounds step s (i # is) = bindc (step i s) (\<lambda>t. rounds step t is)"

lemma rounds_snoc: "rounds step s (is @ [i]) = bindc (rounds step s is) (step i)"
proof (induction "is" arbitrary: s)
  case Nil
  show ?case by simp
next
  case (Cons j js)
  show ?case by (simp add: Cons bindc_assoc)
qed

lemma rounds_keep:
  assumes "\<And>i s es t. step i s = (es, Done t) \<Longrightarrow> f t = f s" "rounds step s is = (es, Done t)"
  shows "f t = f s"
  using assms(2)
proof (induction "is" arbitrary: s es)
  case (Cons i "is")
  from Cons.prems obtain es1 u es2 where u: "step i s = (es1, Done u)" "rounds step u is = (es2, Done t)"
    by (auto elim: bindc_DoneE)
  with Cons.IH [OF u(2)] assms(1) [OF u(1)] show ?case by simp
qed (simp add: effect_simps)

text \<open>All rounds meet a contract, each in the state the rounds before it led to; and what they serve.\<close>

fun all_ok :: "('i \<Rightarrow> 's \<Rightarrow> 's comp) \<Rightarrow> ('i \<Rightarrow> 's \<Rightarrow> bool) \<Rightarrow> 's \<Rightarrow> 'i list \<Rightarrow> bool" where
  "all_ok step ok s [] = True"
| "all_ok step ok s (i # is) =
     (ok i s \<and> (case step i s of (es, Done t) \<Rightarrow> all_ok step ok t is | _ \<Rightarrow> True))"

fun all_served ::
  "('i \<Rightarrow> 's \<Rightarrow> 's comp) \<Rightarrow> ('i \<Rightarrow> 's \<Rightarrow> (fd \<times> string) list) \<Rightarrow> 's \<Rightarrow> 'i list \<Rightarrow> (fd \<times> string) list"
where
  "all_served step served s [] = []"
| "all_served step served s (i # is) =
     served i s @ (case step i s of (es, Done t) \<Rightarrow> all_served step served t is | _ \<Rightarrow> [])"

text \<open>
  Who is connected after the rounds, from who joined and who was read as gone in each; no table of a server
  enters into it.
\<close>

fun members ::
  "('i \<Rightarrow> 's \<Rightarrow> 's comp) \<Rightarrow> ('i \<Rightarrow> 's \<Rightarrow> fd set) \<Rightarrow> ('i \<Rightarrow> 's \<Rightarrow> (fd \<times> string) list) \<Rightarrow> fd set \<Rightarrow> 's \<Rightarrow> 'i list \<Rightarrow> fd set"
where
  "members step joined served C s [] = C"
| "members step joined served C s (i # is) =
     (let C' = (C \<union> joined i s) - leaving (served i s) in
      case step i s of (es, Done t) \<Rightarrow> members step joined served C' t is | _ \<Rightarrow> C')"

locale echo_mux =
  fixes step :: "'i \<Rightarrow> 's \<Rightarrow> 's comp"
    and clients :: "'s \<Rightarrow> fd set"
    and inv :: "'s \<Rightarrow> bool"
    and ok :: "'i \<Rightarrow> 's \<Rightarrow> bool"
    and joined :: "'i \<Rightarrow> 's \<Rightarrow> fd set"
    and served :: "'i \<Rightarrow> 's \<Rightarrow> (fd \<times> string) list"
  assumes round_total: "inv s \<Longrightarrow> ok i s \<Longrightarrow> \<exists>es t. step i s = (es, Done t)"
    and round_inv: "inv s \<Longrightarrow> ok i s \<Longrightarrow> step i s = (es, Done t) \<Longrightarrow> inv t"
    and round_io: "inv s \<Longrightarrow> ok i s \<Longrightarrow> step i s = (es, Done t) \<Longrightarrow> io es = answers (served i s)"
    and round_clients: "inv s \<Longrightarrow> ok i s \<Longrightarrow> step i s = (es, Done t) \<Longrightarrow>
      clients t = (clients s \<union> joined i s) - leaving (served i s)"
begin

lemma rounds_total:
  "inv s \<Longrightarrow> all_ok step ok s is \<Longrightarrow>
     \<exists>es t. rounds step s is = (es, Done t) \<and> inv t \<and> io es = answers (all_served step served s is)"
proof (induction "is" arbitrary: s)
  case Nil
  then show ?case by (simp add: effect_simps)
next
  case (Cons i "is")
  then have i: "ok i s" by simp
  with Cons.prems(1) obtain es t where st: "step i s = (es, Done t)"
    using round_total by blast
  with Cons.prems i have t: "inv t" "all_ok step ok t is" "io es = answers (served i s)"
    using round_inv round_io by auto
  with Cons.IH [of t] obtain es' u where
    "rounds step t is = (es', Done u)" "inv u" "io es' = answers (all_served step served t is)"
    by blast
  with st t show ?case by (simp add: effect_simps)
qed

lemma rounds_echo:
  assumes "inv s" "all_ok step ok s is"
  shows "sent_to fd (events (rounds step s is)) = echo_of fd (all_served step served s is)"
proof -
  from rounds_total [OF assms] obtain es t where
    r: "rounds step s is = (es, Done t)" "io es = answers (all_served step served s is)" by blast
  have "sent_to fd es = sent_to fd (io es)" by (simp add: sent_to_io)
  with r show ?thesis by (simp add: sent_to_answers)
qed

lemma rounds_clients:
  assumes "inv s" "all_ok step ok s is" "rounds step s is = (es, Done t)"
  shows "clients t = members step joined served (clients s) s is"
  using assms
proof (induction "is" arbitrary: s es)
  case Nil
  then show ?case by (simp add: effect_simps)
next
  case (Cons i "is")
  from Cons.prems(3) obtain es1 u es2 where
    u: "step i s = (es1, Done u)" "rounds step u is = (es2, Done t)"
    by (auto elim: bindc_DoneE)
  with Cons.prems(1,2) have "inv u" "all_ok step ok u is"
    "clients u = (clients s \<union> joined i s) - leaving (served i s)"
    using round_inv [of s i es1 u] round_clients [of s i es1 u] by auto
  with Cons.IH [OF _ _ u(2)] u(1) show ?case by (simp add: Let_def)
qed

lemma client_stays:
  assumes "inv s" "all_ok step ok s is" "fd \<in> clients s" "fd \<notin> leaving (all_served step served s is)"
    and "rounds step s is = (es, Done t)"
  shows "fd \<in> clients t"
  using assms
proof (induction "is" arbitrary: s es)
  case Nil
  then show ?case by (simp add: effect_simps)
next
  case (Cons i "is")
  from Cons.prems(5) obtain es1 u es2 where
    u: "step i s = (es1, Done u)" "rounds step u is = (es2, Done t)"
    by (auto elim: bindc_DoneE)
  with Cons.prems(1-4) have "inv u" "all_ok step ok u is" "fd \<notin> leaving (all_served step served u is)" "fd \<in> clients u"
    using round_inv [of s i es1 u] round_clients [of s i es1 u] by auto
  then show ?case using Cons.IH u(2) by blast
qed

end

end
