(* ===== verification/Fcntl.thy ===== *)
theory Fcntl
  imports Echo "HOL-Library.Word"
begin

unbundle bit_operations_syntax

text \<open>
  Open flags and \<open>fcntl\<close>, on the 32-bit words of the C headers.  A descriptor has status flags
  (\<open>F_GETFL\<close>, \<open>F_SETFL\<close>) and descriptor flags (\<open>F_SETFD\<close>); \<open>F_SETFL\<close> changes only the
  settable status bits, \<open>F_SETFD\<close> keeps only \<open>FD_CLOEXEC\<close>.
\<close>

type_synonym flags = "32 word"

definition O_RDONLY :: flags where "O_RDONLY = 0"
definition O_WRONLY :: flags where "O_WRONLY = 1"
definition O_RDWR :: flags where "O_RDWR = 2"
definition O_CREAT :: flags where "O_CREAT = 0x40"
definition O_APPEND :: flags where "O_APPEND = 0x400"
definition O_NONBLOCK :: flags where "O_NONBLOCK = 0x800"
definition FD_CLOEXEC :: flags where "FD_CLOEXEC = 1"

lemmas flag_defs = O_RDONLY_def O_WRONLY_def O_RDWR_def O_CREAT_def O_APPEND_def O_NONBLOCK_def FD_CLOEXEC_def

definition SETFL_MASK :: flags where
  "SETFL_MASK = O_APPEND OR O_NONBLOCK"

record descr =
  status :: flags
  fdflags :: flags

definition F_GETFL :: "'a descr_scheme \<Rightarrow> flags" where
  "F_GETFL k = status k"

definition F_SETFL :: "flags \<Rightarrow> 'a descr_scheme \<Rightarrow> 'a descr_scheme" where
  "F_SETFL arg k = k\<lparr>status := (status k AND NOT SETFL_MASK) OR (arg AND SETFL_MASK)\<rparr>"

definition F_SETFD :: "flags \<Rightarrow> 'a descr_scheme \<Rightarrow> 'a descr_scheme" where
  "F_SETFD arg k = k\<lparr>fdflags := arg AND FD_CLOEXEC\<rparr>"

definition nonblocking :: "'a descr_scheme \<Rightarrow> bool" where
  "nonblocking k \<longleftrightarrow> status k AND O_NONBLOCK \<noteq> 0"

definition appending :: "'a descr_scheme \<Rightarrow> bool" where
  "appending k \<longleftrightarrow> status k AND O_APPEND \<noteq> 0"

lemma status_F_SETFD [simp]: "status (F_SETFD a k) = status k"
  by (simp add: F_SETFD_def)

lemma nonblocking_F_SETFD [simp]: "nonblocking (F_SETFD a k) = nonblocking k"
  by (simp add: nonblocking_def)

lemma nonblocking_F_SETFL: "nonblocking (F_SETFL (a OR O_NONBLOCK) k)"
proof -
  have "((status k AND NOT SETFL_MASK) OR ((a OR O_NONBLOCK) AND SETFL_MASK)) AND O_NONBLOCK = O_NONBLOCK"
    by (rule bit_word_eqI) (auto simp: SETFL_MASK_def bit_simps)
  then show ?thesis by (simp add: nonblocking_def F_SETFL_def flag_defs)
qed

lemma appending_F_SETFL: "appending (F_SETFL (a OR O_APPEND) k)"
proof -
  have "((status k AND NOT SETFL_MASK) OR ((a OR O_APPEND) AND SETFL_MASK)) AND O_APPEND = O_APPEND"
    by (rule bit_word_eqI) (auto simp: SETFL_MASK_def bit_simps)
  then show ?thesis by (simp add: appending_def F_SETFL_def flag_defs)
qed

text \<open>Changing one status flag through \<open>F_GETFL\<close> / \<open>F_SETFL\<close> leaves every other bit as it was.\<close>

lemma F_SETFL_keeps:
  assumes "m AND SETFL_MASK = m"
  shows "status (F_SETFL (F_GETFL k OR m) k) = status k OR m"
proof -
  have "bit m n \<Longrightarrow> bit SETFL_MASK n" for n
    using assms by (metis bit_and_iff)
  then show ?thesis
    by (auto intro!: bit_word_eqI simp: F_SETFL_def F_GETFL_def bit_simps)
qed

end
