(* ===== verification/HttpConn.thy ===== *)
theory HttpConn
  imports ListFile Fcntl
begin

text \<open>
  The connections of the web server of \<^verbatim>\<open>FIN_project/Abandoned_webserver\<close> (\<^verbatim>\<open>http_connection.h\<close>,
  \<^verbatim>\<open>http_connection.cpp\<close>): the read buffer, the two state machines that take it apart (lines, and
  what the lines mean), the answer, and the epoll helpers.  Pointers into the read buffer are
  positions in it; a null pointer is \<open>None\<close>.  A C string runs to the next NUL of the buffer, and using
  one that has none is undefined.  The file as it stands does not compile (it misspells and
  leaves out members); names that exist nowhere under \<^verbatim>\<open>src\<close> are parameters.
\<close>

section \<open>Data\<close>

datatype METHOD = GET | POST | PUT | DELETE | TRACE | OPTIONS | CONNECT

datatype CHECK_STATE = CHECK_STATE_REQUESTLINE | CHECKSTATE_HEADER | CHECK_STATE_CONTENT

text \<open>The states in the order of their C values: a request is taken apart from its line to its content.\<close>

fun check_value :: "CHECK_STATE \<Rightarrow> nat" where
  "check_value CHECK_STATE_REQUESTLINE = 0"
| "check_value CHECKSTATE_HEADER = 1"
| "check_value CHECK_STATE_CONTENT = 2"

lemma check_value_inject: "check_value a = check_value b \<longleftrightarrow> a = b"
  by (cases a; cases b) simp_all

instantiation CHECK_STATE :: linorder
begin

definition less_eq_CHECK_STATE :: "CHECK_STATE \<Rightarrow> CHECK_STATE \<Rightarrow> bool" where
  "a \<le> b \<longleftrightarrow> check_value a \<le> check_value b"

definition less_CHECK_STATE :: "CHECK_STATE \<Rightarrow> CHECK_STATE \<Rightarrow> bool" where
  "a < b \<longleftrightarrow> check_value a < check_value b"

instance
  by intro_classes (auto simp: less_eq_CHECK_STATE_def less_CHECK_STATE_def simp flip: check_value_inject)

end

datatype LINE_STATUS = LINE_OK | LINE_BAD | LINE_OPEN

datatype HTTP_CODE =
    NO_REQUEST | GET_REQUSET | BAD_REQUSEST | NO_RESOURCE | FORBIDDEN_REQUEST | FILE_REQUEST
  | INTERNAL_ERROR | CLOSE_CONNECTION

definition READ_BUFFER_SIZE :: nat where
  "READ_BUFFER_SIZE = 2048"

definition WRITE_BUFFER_SIZE :: int where
  "WRITE_BUFFER_SIZE = 1024"

record http_connection =
  m_sockfd :: int
  m_read_buf :: string
  m_read_idx :: nat
  m_checked_index :: nat
  m_start_line :: nat
  m_url :: "nat option"
  m_version :: "nat option"
  m_method :: METHOD
  m_host :: "nat option"
  m_linger :: bool
  m_content_length :: int
  m_real_file :: "string option"
  m_check_state :: CHECK_STATE

section \<open>C strings in the read buffer\<close>

definition str_at :: "http_connection \<Rightarrow> nat \<Rightarrow> string comp" where
  "str_at c i = cstr (drop i (m_read_buf c))"

definition put_NUL :: "nat \<Rightarrow> http_connection \<Rightarrow> http_connection comp" where
  "put_NUL i c =
     (if i < length (m_read_buf c) then ret (c\<lparr>m_read_buf := (m_read_buf c)[i := NUL]\<rparr>) else undef)"

definition blank :: "char \<Rightarrow> bool" where
  "blank x \<longleftrightarrow> x = CHR '' '' \<or> x = CHR 0x09"

text \<open>\<open>strpbrk\<close> and \<open>strchr\<close>: the place of the first character of a kind.\<close>

definition first_of :: "(char \<Rightarrow> bool) \<Rightarrow> string \<Rightarrow> nat option" where
  "first_of P s = (if list_ex P s then Some (length (takeWhile (\<lambda>x. \<not> P x) s)) else None)"

definition strpbrk :: "http_connection \<Rightarrow> nat \<Rightarrow> nat option comp" where
  "strpbrk c i = bindc (str_at c i) (\<lambda>s. ret (map_option (\<lambda>k. i + k) (first_of blank s)))"

definition strchr :: "char \<Rightarrow> http_connection \<Rightarrow> nat \<Rightarrow> nat option comp" where
  "strchr x c i = bindc (str_at c i) (\<lambda>s. ret (map_option (\<lambda>k. i + k) (first_of (\<lambda>y. y = x) s)))"

definition strspn :: "http_connection \<Rightarrow> nat \<Rightarrow> nat comp" where
  "strspn c i = bindc (str_at c i) (\<lambda>s. ret (length (takeWhile blank s)))"

definition lower :: "char \<Rightarrow> char" where
  "lower x = (let n = of_char x :: nat in if 65 \<le> n \<and> n \<le> 90 then char_of (n + 32) else x)"

definition same_nocase :: "string \<Rightarrow> string \<Rightarrow> bool" where
  "same_nocase s t \<longleftrightarrow> map lower s = map lower t"

definition strcasecmp :: "http_connection \<Rightarrow> nat \<Rightarrow> string \<Rightarrow> bool comp" where
  "strcasecmp c i t = bindc (str_at c i) (\<lambda>s. ret (same_nocase s t))"

definition strncasecmp :: "http_connection \<Rightarrow> nat \<Rightarrow> string \<Rightarrow> bool comp" where
  "strncasecmp c i t = bindc (str_at c i) (\<lambda>s. ret (same_nocase (take (length t) s) t))"

text \<open>\<open>atol\<close> and the conversion of its \<open>long\<close> to the \<open>int\<close> member.\<close>

definition atol :: "string \<Rightarrow> int" where
  "atol s =
     (let t = dropWhile (\<lambda>x. blank x \<or> x \<in> {CHR 0x0A, CHR 0x0B, CHR 0x0C, CHR 0x0D}) s;
          neg = (take 1 t = ''-''); u = (if take 1 t \<in> {''-'', ''+''} then drop 1 t else t);
          v = int (read_nat (takeWhile (\<lambda>x. 48 \<le> (of_char x :: nat) \<and> (of_char x :: nat) \<le> 57) u))
      in if neg then - v else v)"

definition to_int :: "int \<Rightarrow> int" where
  "to_int n = (n + 2 ^ 31) mod 2 ^ 32 - 2 ^ 31"

section \<open>Starting and reading\<close>

definition http_init :: "http_connection \<Rightarrow> http_connection" where
  "http_init c = c\<lparr>m_check_state := CHECK_STATE_REQUESTLINE, m_checked_index := 0, m_start_line := 0,
     m_read_idx := 0, m_method := GET, m_url := None, m_version := None,
     m_read_buf := zeros READ_BUFFER_SIZE, m_linger := False, m_content_length := 0, m_real_file := None\<rparr>"

text \<open>
  \<open>read\<close> receives until the socket is empty.  Each entry of the input is what one \<open>recv\<close> stores; the
  end of the list is EAGAIN.  Every call allows as many bytes as the whole buffer has, wherever it
  starts, so the buffer can overflow.
\<close>

datatype recv = Recv string | RecvErr

fun recv_loop :: "recv list \<Rightarrow> http_connection \<Rightarrow> (bool \<times> http_connection) comp" where
  "recv_loop [] c = ret (True, c)"
| "recv_loop (RecvErr # rs) c = ret (False, c)"
| "recv_loop (Recv d # rs) c =
     (if d = [] then ret (False, c)
      else if READ_BUFFER_SIZE < m_read_idx c + length d then undef
      else recv_loop rs (c\<lparr>m_read_buf := take (m_read_idx c) (m_read_buf c) @ d @
                              drop (m_read_idx c + length d) (m_read_buf c),
                           m_read_idx := m_read_idx c + length d\<rparr>))"

definition http_read :: "recv list \<Rightarrow> http_connection \<Rightarrow> (bool \<times> http_connection) comp" where
  "http_read rs c =
     (if READ_BUFFER_SIZE \<le> m_read_idx c then ret (False, c)
      else bindc (recv_loop rs c) (\<lambda>(more, c).
        if \<not> more then ret (False, c)
        else bindc (str_at c 0) (\<lambda>s.
             thenc (emit (Out (''read data: '' @ s @ NL)))
             (ret (True, c)))))"

section \<open>Lines\<close>

text \<open>The loop of \<open>parse_line\<close> returns on every path of its body, so it is entered at most once.\<close>

definition parse_line :: "http_connection \<Rightarrow> LINE_STATUS \<times> http_connection" where
  "parse_line c =
     (let i = m_checked_index c; b = m_read_buf c in
      if m_read_idx c \<le> i then (LINE_OK, c)
      else if b ! i = CHR 0x0D then
        (if m_read_idx c = i + 1 then (LINE_OPEN, c)
         else if b ! (i + 1) = CHR 0x0A
         then (LINE_OK, c\<lparr>m_read_buf := b[i := NUL, i + 1 := NUL], m_checked_index := i + 2\<rparr>)
         else (LINE_BAD, c))
      else if b ! i = CHR 0x0A then
        (if 1 < i \<and> b ! (i - 1) = CHR 0x0D
         then (LINE_OK, c\<lparr>m_read_buf := b[i - 1 := NUL, i := NUL], m_checked_index := i + 1\<rparr>)
         else (LINE_BAD, c))
      else (LINE_OPEN, c))"

definition get_line :: "http_connection \<Rightarrow> nat" where
  "get_line c = m_start_line c"

section \<open>What the lines mean\<close>

definition target_path :: "nat \<Rightarrow> http_connection \<Rightarrow> (HTTP_CODE \<times> http_connection) comp" where
  "target_path u c =
     bindc (strncasecmp c u ''http://'') (\<lambda>abs.
     bindc (if abs then strchr (CHR ''/'') c (u + 7) else ret (Some u)) (\<lambda>v.
       let c = c\<lparr>m_url := v\<rparr> in
       case v of
         None \<Rightarrow> ret (BAD_REQUSEST, c)
       | Some v \<Rightarrow>
           if m_read_buf c ! v \<noteq> CHR ''/'' then ret (BAD_REQUSEST, c)
           else ret (NO_REQUEST, c\<lparr>m_check_state := CHECKSTATE_HEADER\<rparr>)))"

definition parse_request_line :: "nat \<Rightarrow> http_connection \<Rightarrow> (HTTP_CODE \<times> http_connection) comp" where
  "parse_request_line text c =
     bindc (strpbrk c text) (\<lambda>u. case u of None \<Rightarrow> undef | Some u \<Rightarrow>
     bindc (put_NUL u (c\<lparr>m_url := Some (u + 1)\<rparr>)) (\<lambda>c.
     bindc (strcasecmp c text ''get'') (\<lambda>get.
       if \<not> get then ret (BAD_REQUSEST, c)
       else let c = c\<lparr>m_method := GET\<rparr> in
     bindc (strpbrk c (u + 1)) (\<lambda>v. case v of None \<Rightarrow> ret (BAD_REQUSEST, c\<lparr>m_version := None\<rparr>) | Some v \<Rightarrow>
     bindc (put_NUL v (c\<lparr>m_version := Some (v + 1)\<rparr>)) (\<lambda>c.
     bindc (strcasecmp c (v + 1) ''HTTP/1.1'') (\<lambda>http.
       if \<not> http then ret (BAD_REQUSEST, c)
       else target_path (u + 1) c))))))"

text \<open>
  The test of \<open>parse_headers\<close> for the empty line is the assignment \<open>text[0] = '\0'\<close>: it overwrites the
  first character of the line and is false.
\<close>

definition parse_headers :: "nat \<Rightarrow> http_connection \<Rightarrow> (HTTP_CODE \<times> http_connection) comp" where
  "parse_headers text c =
     bindc (put_NUL text c) (\<lambda>c.
     bindc (strncasecmp c text ''connection:'') (\<lambda>is.
     if is then
       bindc (strspn c (text + 11)) (\<lambda>k.
       bindc (strcasecmp c (text + 11 + k) ''keep-alive'') (\<lambda>alive.
         ret (NO_REQUEST, if alive then c\<lparr>m_linger := True\<rparr> else c)))
     else bindc (strncasecmp c text ''Content-Length:'') (\<lambda>is.
     if is then
       bindc (strspn c (text + 15)) (\<lambda>k.
       bindc (str_at c (text + 15 + k)) (\<lambda>s.
         ret (NO_REQUEST, c\<lparr>m_content_length := to_int (atol s)\<rparr>)))
     else bindc (strncasecmp c text ''Host:'') (\<lambda>is.
     if is then
       bindc (strspn c (text + 5)) (\<lambda>k. ret (NO_REQUEST, c\<lparr>m_host := Some (text + 5 + k)\<rparr>))
     else
       bindc (str_at c text) (\<lambda>s.
       thenc (emit (Out (''oop! unkonw header '' @ s @ '' '' @ NL)))
       (ret (NO_REQUEST, c)))))))"

definition parse_content :: "nat \<Rightarrow> http_connection \<Rightarrow> (HTTP_CODE \<times> http_connection) comp" where
  "parse_content text c =
     (let whole = m_content_length c + int (m_checked_index c); p = int text + m_content_length c in
      if 2 ^ 31 \<le> whole then undef
      else if whole \<le> int (m_read_idx c)
      then if p < 0 then undef
           else bindc (put_NUL (nat p) c) (\<lambda>c. ret (GET_REQUSET, c))
      else ret (NO_REQUEST, c))"

definition doc_root :: string where
  "doc_root = ''/home/godot/Code/Linux-Net-Code/FIN_project/Webserver/res''"

text \<open>
  \<open>do_requset\<close>; \<open>flen\<close> is FILENAME_LEN, which is declared nowhere, and \<open>st\<close> the mode \<open>stat\<close> finds, if any.
  \<open>m_real_file\<close> is a pointer that is only ever set to null.
\<close>

definition do_requset :: "nat \<Rightarrow> 32 word option \<Rightarrow> http_connection \<Rightarrow> (HTTP_CODE \<times> http_connection) comp" where
  "do_requset flen st c =
     (case (m_real_file c, m_url c) of
        (Some f, Some u) \<Rightarrow>
          bindc (str_at c u) (\<lambda>url.
            let len = length doc_root; n = flen - len - 1; name = doc_root @ take n (url @ zeros n) in
            if length f \<le> len \<or> length f < length name then undef
            else let c = c\<lparr>m_real_file := Some (fill f name)\<rparr> in
              case st of
                None \<Rightarrow> ret (NO_RESOURCE, c)
              | Some mode \<Rightarrow>
                  if mode AND 0x4 = 0 then ret (FORBIDDEN_REQUEST, c)
                  else if mode AND S_IFMT = S_IFDIR then ret (BAD_REQUSEST, c)
                  else ([Call ''open'' [], Call ''mmap'' [], Call ''close'' []], Done (FILE_REQUEST, c)))
      | _ \<Rightarrow> undef)"

section \<open>The main state machine\<close>

text \<open>One turn of the loop of \<open>process_read\<close>: the value it returns, or \<open>None\<close> to go on.\<close>

definition read_turn ::
  "(http_connection \<Rightarrow> (HTTP_CODE \<times> http_connection) comp) \<Rightarrow> http_connection \<Rightarrow> (HTTP_CODE option \<times> http_connection) comp"
where
  "read_turn req c =
     (let text = get_line c; c = c\<lparr>m_start_line := m_checked_index c\<rparr> in
      bindc (str_at c text) (\<lambda>s.
      thenc (emit (Out (''got 1 http line: '' @ s @ NL)))
      (case m_check_state c of
         CHECK_STATE_REQUESTLINE \<Rightarrow>
           bindc (parse_request_line text c) (\<lambda>(r, c).
             ret (if r = BAD_REQUSEST then Some BAD_REQUSEST else None, c))
       | CHECKSTATE_HEADER \<Rightarrow>
           bindc (parse_headers text c) (\<lambda>(r, c).
             if r = BAD_REQUSEST then ret (Some BAD_REQUSEST, c)
             else if r = GET_REQUSET then bindc (req c) (\<lambda>(r, c). ret (Some r, c))
             else ret (None, c))
       | CHECK_STATE_CONTENT \<Rightarrow>
           bindc (parse_content text c) (\<lambda>(r, c).
             if r = GET_REQUSET then bindc (req c) (\<lambda>(r, c). ret (Some r, c))
             else ret (None, c)))))"

text \<open>The loop may go on for ever; then its value is \<open>None\<close>.\<close>

partial_function (option) read_loop ::
  "(http_connection \<Rightarrow> (HTTP_CODE \<times> http_connection) comp) \<Rightarrow> event list \<Rightarrow> http_connection \<Rightarrow>
     (HTTP_CODE \<times> http_connection) comp option"
where
  "read_loop req es c =
     (if fst (parse_line c) \<noteq> LINE_OK then Some (es, Done (NO_REQUEST, snd (parse_line c)))
      else case read_turn req (snd (parse_line c)) of
             (fs, Done (Some r, d)) \<Rightarrow> Some (es @ fs, Done (r, d))
           | (fs, Done (None, d)) \<Rightarrow> read_loop req (es @ fs) d
           | (fs, Exit n) \<Rightarrow> Some (es @ fs, Exit n)
           | (fs, Undef) \<Rightarrow> Some (es @ fs, Undef)
           | (fs, Block) \<Rightarrow> Some (es @ fs, Block))"

definition process_read ::
  "(http_connection \<Rightarrow> (HTTP_CODE \<times> http_connection) comp) \<Rightarrow> http_connection \<Rightarrow>
     (HTTP_CODE \<times> http_connection) comp option"
where
  "process_read req c = read_loop req [] c"

section \<open>The answer\<close>

text \<open>
  \<open>add_response\<close>, with \<open>idx\<close> for the bytes already in the write buffer and \<open>len\<close> for what \<open>vsnprintf\<close>
  returns: after a success control reaches the end of the function, which has to return a value.
\<close>

definition add_response :: "int \<Rightarrow> int \<Rightarrow> bool comp" where
  "add_response idx len =
     (if WRITE_BUFFER_SIZE \<le> idx then ret False
      else if WRITE_BUFFER_SIZE - 1 - idx \<le> len then ret False
      else undef)"

text \<open>\<open>error_500\<close> stands for the calls of \<open>add_status_line\<close>, \<open>add_headers\<close> and \<open>add_conten\<close>, which have no code.\<close>

definition process_write ::
  "(http_connection \<Rightarrow> (bool \<times> http_connection) comp) \<Rightarrow> HTTP_CODE \<Rightarrow> http_connection \<Rightarrow> (bool \<times> http_connection) comp"
where
  "process_write error_500 r c = (if r = INTERNAL_ERROR then error_500 c else ret (True, c))"

definition http_write :: "http_connection \<Rightarrow> bool comp" where
  "http_write c = thenc (emit (Out (''all written at once'' @ NL))) (ret True)"

section \<open>epoll\<close>

definition EPOLLIN :: flags where "EPOLLIN = 0x1"
definition EPOLLOUT :: flags where "EPOLLOUT = 0x4"
definition EPOLLERR :: flags where "EPOLLERR = 0x8"
definition EPOLLHUP :: flags where "EPOLLHUP = 0x10"
definition EPOLLRDHUP :: flags where "EPOLLRDHUP = 0x2000"
definition EPOLLONESHOT :: flags where "EPOLLONESHOT = 0x40000000"
definition EPOLLET :: flags where "EPOLLET = 0x80000000"

lemmas EPOLL_defs = EPOLLIN_def EPOLLOUT_def EPOLLERR_def EPOLLHUP_def EPOLLRDHUP_def EPOLLONESHOT_def EPOLLET_def

text \<open>What epoll holds: the events a descriptor is registered for, and the status flags of descriptors.\<close>

record epoll =
  interest :: "int \<Rightarrow> flags option"
  getfl :: "int \<Rightarrow> flags"
  user_count :: int

definition setnonblocking :: "int \<Rightarrow> epoll \<Rightarrow> epoll" where
  "setnonblocking fd e =
     (let old_flag = getfl e fd; new_flag = old_flag OR O_NONBLOCK in
      e\<lparr>getfl := (getfl e)(fd := status (F_SETFL new_flag \<lparr>status = old_flag, fdflags = 0\<rparr>))\<rparr>)"

text \<open>The statement \<open>event.events | EPOLLONESHOT;\<close> under \<open>one_shot\<close> changes nothing.\<close>

definition addfd :: "int \<Rightarrow> bool \<Rightarrow> epoll \<Rightarrow> epoll" where
  "addfd fd one_shot e =
     (let events = EPOLLIN OR EPOLLRDHUP OR EPOLLET in
      setnonblocking fd
        (if interest e fd = None then e\<lparr>interest := (interest e)(fd \<mapsto> events)\<rparr> else e))"

definition removefd :: "int \<Rightarrow> epoll \<Rightarrow> epoll comp" where
  "removefd fd e = thenc (emit (Cl fd)) (ret (e\<lparr>interest := (interest e)(fd := None)\<rparr>))"

definition modfd :: "int \<Rightarrow> flags \<Rightarrow> epoll \<Rightarrow> epoll" where
  "modfd fd ev e =
     (if interest e fd = None then e
      else e\<lparr>interest := (interest e)(fd \<mapsto> ev OR EPOLLONESHOT OR EPOLLRDHUP)\<rparr>)"

definition http_init_new :: "int \<Rightarrow> http_connection \<Rightarrow> epoll \<Rightarrow> http_connection \<times> epoll" where
  "http_init_new sockfd c e =
     (let e = addfd sockfd True e; e = e\<lparr>user_count := user_count e + 1\<rparr> in
      (http_init (c\<lparr>m_sockfd := sockfd\<rparr>), e))"

definition close_conn :: "http_connection \<Rightarrow> epoll \<Rightarrow> (http_connection \<times> epoll) comp" where
  "close_conn c e =
     (if m_sockfd c \<noteq> -1 then
        bindc (removefd (m_sockfd c) e) (\<lambda>e. ret (c\<lparr>m_sockfd := -1\<rparr>, e\<lparr>user_count := user_count e - 1\<rparr>))
      else ret (c, e))"

text \<open>\<open>process\<close>, which a thread of the pool runs.\<close>

definition after_read ::
  "(http_connection \<Rightarrow> (bool \<times> http_connection) comp) \<Rightarrow> epoll \<Rightarrow> HTTP_CODE \<times> http_connection \<Rightarrow>
     (http_connection \<times> epoll) comp"
where
  "after_read error_500 e = (\<lambda>(r, c).
     if r = NO_REQUEST then ret (c, modfd (m_sockfd c) EPOLLIN e)
     else bindc (process_write error_500 r c) (\<lambda>(ok, c).
          bindc (if \<not> ok then close_conn c e else ret (c, e)) (\<lambda>(c, e).
          ret (c, modfd (m_sockfd c) EPOLLOUT e))))"

definition http_process ::
  "(http_connection \<Rightarrow> (HTTP_CODE \<times> http_connection) comp) \<Rightarrow> (http_connection \<Rightarrow> (bool \<times> http_connection) comp) \<Rightarrow>
     http_connection \<Rightarrow> epoll \<Rightarrow> (http_connection \<times> epoll) comp option"
where
  "http_process req error_500 c e =
     map_option (\<lambda>m. bindc m (after_read error_500 e)) (process_read req c)"

section \<open>The request line\<close>

lemma lower_NUL: "lower NUL = NUL"
  by (simp add: lower_def NUL_def)

lemma same_nocase_NUL: "same_nocase s t \<Longrightarrow> NUL \<notin> set (map lower t) \<Longrightarrow> NUL \<notin> set s"
  unfolding same_nocase_def by (metis image_eqI list.set_map lower_NUL)

lemma str_at_eq:
  assumes "m_read_buf c = pre @ s @ NUL # rest" "NUL \<notin> set s" "i = length pre"
  shows "str_at c i = ret s"
proof -
  have "cstr (s @ NUL # rest) = ([], Done s)"
    using assms(2) by (simp add: cstr_eq_Done text_of_no_NUL)
  with assms show ?thesis by (simp add: str_at_def effect_simps)
qed

lemma strpbrk_eq:
  assumes "m_read_buf c = pre @ a @ x # b @ NUL # rest" "NUL \<notin> set (a @ x # b)"
    and "\<forall>y\<in>set a. \<not> blank y" "blank x" "i = length pre"
  shows "strpbrk c i = ret (Some (length pre + length a))"
proof -
  have "str_at c i = ret (a @ x # b)"
    using str_at_eq [of c pre "a @ x # b" rest i] assms by simp
  moreover have "takeWhile (\<lambda>y. \<not> blank y) (a @ x # b) = a"
    using assms(3,4) by (simp add: takeWhile_append2)
  ultimately show ?thesis using assms(4,5) by (simp add: strpbrk_def first_of_def)
qed

lemma put_NUL_eq:
  assumes "m_read_buf c = pre @ x # rest" "i = length pre"
  shows "put_NUL i c = ret (c\<lparr>m_read_buf := pre @ NUL # rest\<rparr>)"
  using assms by (simp add: put_NUL_def)

text \<open>\<open>absolute pfx\<close>: the part of an absolute URL before its path.\<close>

definition absolute :: "string \<Rightarrow> bool" where
  "absolute pfx \<longleftrightarrow> same_nocase (take 7 pfx) ''http://'' \<and> 7 \<le> length pfx \<and> CHR ''/'' \<notin> set (drop 7 pfx)"

lemma target_path_eq:
  assumes buf: "m_read_buf c = pre @ pfx @ CHR ''/'' # path @ NUL # rest" "NUL \<notin> set (pfx @ path)"
    and pfx: "pfx = [] \<or> absolute pfx" and u: "u = length pre"
  shows "target_path u c =
    ret (NO_REQUEST, c\<lparr>m_url := Some (u + length pfx), m_check_state := CHECKSTATE_HEADER\<rparr>)"
proof -
  have nul: "CHR ''/'' \<noteq> NUL" by (simp add: NUL_def)
  have s: "str_at c u = ret (pfx @ CHR ''/'' # path)"
    by (rule str_at_eq [of c pre _ rest]) (use buf u nul in auto)
  have at: "m_read_buf c ! (u + length pfx) = CHR ''/''"
    by (simp add: buf u nth_append)
  show ?thesis
  proof (cases "pfx = []")
    case True
    have "lower (CHR ''/'') = CHR ''/''" "lower (CHR ''h'') = CHR ''h''" by code_simp+
    then have "strncasecmp c u ''http://'' = ret False"
      using True s by (simp add: strncasecmp_def same_nocase_def)
    with True at show ?thesis by (simp add: target_path_def Let_def)
  next
    case False
    with pfx have ab: "absolute pfx" by simp
    then have "take 7 (pfx @ CHR ''/'' # path) = take 7 pfx" by (simp add: absolute_def)
    with ab s have n: "strncasecmp c u ''http://'' = ret True"
      by (simp add: strncasecmp_def absolute_def numeral_eq_Suc)
    obtain p7 rst where p: "pfx = p7 @ rst" "length p7 = 7" "CHR ''/'' \<notin> set rst"
      using ab append_take_drop_id [of 7 pfx] by (metis absolute_def length_take min.absorb2)
    have "str_at c (u + 7) = ret (rst @ CHR ''/'' # path)"
      by (rule str_at_eq [of c "pre @ p7" _ rest]) (use buf u nul p in auto)
    moreover have "takeWhile (\<lambda>y. y \<noteq> CHR ''/'') (rst @ CHR ''/'' # path) = rst"
      using p(3) by (subst takeWhile_append2) auto
    ultimately have "strchr (CHR ''/'') c (u + 7) = ret (Some (u + length pfx))"
      using p by (simp add: strchr_def first_of_def add.assoc)
    with n at show ?thesis by (simp add: target_path_def Let_def)
  qed
qed

definition good_line :: "string \<Rightarrow> string \<Rightarrow> string \<Rightarrow> string \<Rightarrow> bool" where
  "good_line verb pfx path version \<longleftrightarrow>
     same_nocase verb ''get'' \<and> same_nocase version ''HTTP/1.1'' \<and> (pfx = [] \<or> absolute pfx) \<and>
     list_all (\<lambda>x. \<not> blank x \<and> x \<noteq> NUL) (verb @ pfx @ path)"

text \<open>The connection after both separators have been overwritten and the version compared.\<close>

definition parted :: "string \<Rightarrow> string \<Rightarrow> string \<Rightarrow> string \<Rightarrow> string \<Rightarrow> http_connection \<Rightarrow> http_connection" where
  "parted pre verb url version rest c =
     c\<lparr>m_url := Some (length pre + length verb + 1), m_method := GET,
       m_version := Some (length pre + length verb + 1 + length url + 1),
       m_read_buf := pre @ verb @ NUL # url @ NUL # version @ NUL # rest\<rparr>"

lemma good_line_facts:
  assumes "good_line verb pfx path version"
  shows "NUL \<notin> set version" "NUL \<notin> set verb" "NUL \<notin> set (pfx @ CHR ''/'' # path)"
    "\<forall>x\<in>set verb. \<not> blank x" "\<forall>x\<in>set (pfx @ CHR ''/'' # path). \<not> blank x"
    "same_nocase verb ''get''" "same_nocase version ''HTTP/1.1''" "pfx = [] \<or> absolute pfx"
proof -
  note g = assms [unfolded good_line_def list_all_iff]
  have sl: "CHR ''/'' \<noteq> NUL" "\<not> blank (CHR ''/'')" by (simp_all add: NUL_def blank_def)
  show "NUL \<notin> set version"
  proof (rule same_nocase_NUL)
    show "same_nocase version ''HTTP/1.1''" using g by simp
    show "NUL \<notin> set (map lower ''HTTP/1.1'')" by code_simp
  qed
  show "NUL \<notin> set verb" "NUL \<notin> set (pfx @ CHR ''/'' # path)" "\<forall>x\<in>set verb. \<not> blank x"
    "\<forall>x\<in>set (pfx @ CHR ''/'' # path). \<not> blank x"
    "same_nocase verb ''get''" "same_nocase version ''HTTP/1.1''" "pfx = [] \<or> absolute pfx"
    using g sl by auto
qed

lemma parse_request_line_parts:
  assumes buf: "m_read_buf c = pre @ verb @ b1 # url @ b2 # version @ NUL # rest"
    and nul: "NUL \<notin> set version" "NUL \<notin> set verb" "NUL \<notin> set url"
    and blanks: "\<forall>x\<in>set verb. \<not> blank x" "\<forall>x\<in>set url. \<not> blank x" "blank b1" "blank b2"
    and same: "same_nocase verb ''get''" "same_nocase version ''HTTP/1.1''"
  shows "parse_request_line (length pre) c =
    target_path (length pre + length verb + 1) (parted pre verb url version rest c)"
proof -
  let ?p = "length pre"
  let ?u = "?p + length verb" and ?v = "?p + length verb + 1 + length url"
  have bn: "b1 \<noteq> NUL" "b2 \<noteq> NUL" using blanks(3,4) by (auto simp: blank_def NUL_def)
  define c1 where "c1 = c\<lparr>m_url := Some (?u + 1), m_read_buf := pre @ verb @ NUL # url @ b2 # version @ NUL # rest\<rparr>"
  let ?c2 = "parted pre verb url version rest c"
  have s1: "strpbrk c ?p = ret (Some ?u)"
    by (rule strpbrk_eq [of c pre verb b1 "url @ b2 # version" rest]) (use buf nul bn blanks in simp_all)
  have p1: "put_NUL ?u (c\<lparr>m_url := Some (?u + 1)\<rparr>) = ret c1"
    unfolding c1_def
    by (subst put_NUL_eq [of _ "pre @ verb" b1 "url @ b2 # version @ NUL # rest"]) (simp_all add: buf)
  have m1: "strcasecmp c1 ?p ''get'' = ret True"
    using str_at_eq [of c1 pre verb "url @ b2 # version @ NUL # rest" ?p] nul same
    by (simp add: strcasecmp_def c1_def)
  have s2: "strpbrk (c1\<lparr>m_method := GET\<rparr>) (?u + 1) = ret (Some ?v)"
    using strpbrk_eq [of "c1\<lparr>m_method := GET\<rparr>" "pre @ verb @ [NUL]" url b2 version rest "?u + 1"] nul bn blanks
    by (simp add: c1_def)
  have p2: "put_NUL ?v (c1\<lparr>m_method := GET, m_version := Some (?v + 1)\<rparr>) = ret ?c2"
    by (subst put_NUL_eq [of _ "pre @ verb @ NUL # url" b2 "version @ NUL # rest"]) (simp_all add: c1_def parted_def)
  have m2: "strcasecmp ?c2 (?v + 1) ''HTTP/1.1'' = ret True"
    using str_at_eq [of ?c2 "pre @ verb @ NUL # url @ [NUL]" version rest "?v + 1"] nul same
    by (simp add: strcasecmp_def parted_def)
  show ?thesis
    by (simp only: parse_request_line_def s1 p1 m1 s2 p2 m2 Let_def bindc_ret_left option.case
        not_True_eq_False if_False)
qed

text \<open>Claim C28.  The request line is read back: from \<open>GET\<close>, a target and \<open>HTTP/1.1\<close>, in any case and with
  single blanks or tabs between them, the parser finds the path of the target (also behind
  \<open>http://host\<close>) and the version, goes on to the headers, and leaves the rest of the buffer alone.\<close>

theorem request_line_parsed:
  assumes "m_read_buf c = pre @ verb @ b1 # (pfx @ CHR ''/'' # path) @ b2 # version @ NUL # rest"
    and "good_line verb pfx path version" "blank b1" "blank b2"
  shows "\<exists>d u v. parse_request_line (length pre) c = ret (NO_REQUEST, d) \<and>
    m_check_state d = CHECKSTATE_HEADER \<and> m_method d = GET \<and>
    m_url d = Some u \<and> str_at d u = ret (CHR ''/'' # path) \<and>
    m_version d = Some v \<and> str_at d v = ret version \<and>
    m_read_buf d = pre @ verb @ NUL # (pfx @ CHR ''/'' # path) @ NUL # version @ NUL # rest"
proof -
  let ?url = "pfx @ CHR ''/'' # path"
  let ?u = "length pre + length verb" and ?v = "length pre + length verb + 1 + length ?url"
  note g = good_line_facts [OF assms(2)]
  let ?c = "parted pre verb ?url version rest c"
  let ?d = "?c\<lparr>m_url := Some (?u + 1 + length pfx), m_check_state := CHECKSTATE_HEADER\<rparr>"
  have "target_path (?u + 1) ?c = ret (NO_REQUEST, ?d)"
    by (rule target_path_eq [of ?c "pre @ verb @ [NUL]" pfx path "version @ NUL # rest" "?u + 1"])
       (use g in \<open>simp_all add: parted_def\<close>)
  then have "parse_request_line (length pre) c = ret (NO_REQUEST, ?d)"
    using parse_request_line_parts [OF assms(1) g(1-5) assms(3,4) g(6,7)] by simp
  moreover have "str_at ?d (?u + 1 + length pfx) = ret (CHR ''/'' # path)"
    by (rule str_at_eq [of ?d "pre @ verb @ NUL # pfx" _ "version @ NUL # rest"])
       (use g in \<open>simp_all add: parted_def\<close>)
  moreover have "str_at ?d (?v + 1) = ret version"
    by (rule str_at_eq [of ?d "pre @ verb @ NUL # ?url @ [NUL]" _ rest]) (use g in \<open>simp_all add: parted_def\<close>)
  ultimately show ?thesis
    by (intro exI [of _ ?d] exI [of _ "?u + 1 + length pfx"] exI [of _ "?v + 1"]) (simp add: parted_def)
qed

definition conn_of :: "string \<Rightarrow> http_connection" where
  "conn_of d = \<lparr>m_sockfd = 4, m_read_buf = d @ zeros (READ_BUFFER_SIZE - length d), m_read_idx = length d,
     m_checked_index = 0, m_start_line = 0, m_url = None, m_version = None, m_method = GET, m_host = None,
     m_linger = False, m_content_length = 0, m_real_file = None, m_check_state = CHECK_STATE_REQUESTLINE\<rparr>"

lemma request_line_parsed_witness:
  "\<exists>d u. parse_request_line 0 (conn_of ''Get http://h/a.html http/1.1'') = ret (NO_REQUEST, d) \<and>
     m_url d = Some u \<and> str_at d u = ret ''/a.html''"
proof -
  let ?c = "conn_of ''Get http://h/a.html http/1.1''"
  have z: "zeros (READ_BUFFER_SIZE - length ''Get http://h/a.html http/1.1'') = NUL # zeros 2019"
    unfolding READ_BUFFER_SIZE_def zeros_def by (simp add: replicate_Suc [symmetric] del: replicate_Suc)
  have buf: "m_read_buf ?c = [] @ ''Get'' @ CHR '' '' # (''http://h'' @ CHR ''/'' # ''a.html'') @ CHR '' '' # ''http/1.1'' @ NUL # zeros 2019"
    unfolding conn_of_def z by simp
  have good: "good_line ''Get'' ''http://h'' ''a.html'' ''http/1.1''" by code_simp
  from request_line_parsed [OF buf good] show ?thesis by (auto simp: blank_def)
qed

section \<open>Reading\<close>

definition received :: "http_connection \<Rightarrow> string" where
  "received c = take (m_read_idx c) (m_read_buf c)"

text \<open>The buffer holds what was received, then NULs.\<close>

definition buf_ok :: "http_connection \<Rightarrow> bool" where
  "buf_ok c \<longleftrightarrow> m_read_idx c \<le> READ_BUFFER_SIZE \<and>
     m_read_buf c = received c @ zeros (READ_BUFFER_SIZE - m_read_idx c) \<and> length (received c) = m_read_idx c"

lemma buf_okI:
  "m_read_buf c = r @ zeros (READ_BUFFER_SIZE - length r) \<Longrightarrow> m_read_idx c = length r \<Longrightarrow>
     length r \<le> READ_BUFFER_SIZE \<Longrightarrow> buf_ok c \<and> received c = r"
  by (simp add: buf_ok_def received_def)

lemma buf_ok_NUL: "buf_ok c \<Longrightarrow> m_read_idx c < READ_BUFFER_SIZE \<Longrightarrow> NUL \<in> set (m_read_buf c)"
  by (metis NUL_in_zeros Un_iff buf_ok_def set_append zero_less_diff)

definition store :: "string \<Rightarrow> http_connection \<Rightarrow> http_connection" where
  "store x c = c\<lparr>m_read_buf := take (m_read_idx c) (m_read_buf c) @ x @ drop (m_read_idx c + length x) (m_read_buf c),
                m_read_idx := m_read_idx c + length x\<rparr>"

lemma store_ok:
  assumes "buf_ok c" "m_read_idx c + length x \<le> READ_BUFFER_SIZE"
  shows "buf_ok (store x c) \<and> received (store x c) = received c @ x"
proof (rule buf_okI)
  have c: "m_read_buf c = received c @ zeros (READ_BUFFER_SIZE - m_read_idx c)" "length (received c) = m_read_idx c"
    using assms(1) by (simp_all add: buf_ok_def)
  have "drop (m_read_idx c + length x) (m_read_buf c) = zeros (READ_BUFFER_SIZE - (m_read_idx c + length x))"
    by (subst c(1)) (simp add: c(2))
  with c(2) show "m_read_buf (store x c) = (received c @ x) @ zeros (READ_BUFFER_SIZE - length (received c @ x))"
    by (simp add: store_def received_def)
qed (use assms in \<open>simp_all add: store_def buf_ok_def\<close>)

lemma recv_loop_stores:
  assumes "buf_ok c" "[] \<notin> set ds" "length (received c) + length (concat ds) \<le> READ_BUFFER_SIZE"
  shows "\<exists>d. recv_loop (map Recv ds) c = ret (True, d) \<and> buf_ok d \<and> received d = received c @ concat ds"
  using assms
proof (induction ds arbitrary: c)
  case Nil
  then show ?case by (intro exI [of _ c]) simp
next
  case (Cons x ds)
  then have len: "m_read_idx c + length x \<le> READ_BUFFER_SIZE" by (simp add: buf_ok_def)
  note ok = store_ok [OF Cons.prems(1) len]
  with Cons.IH [of "store x c"] Cons.prems obtain e where
    "recv_loop (map Recv ds) (store x c) = ret (True, e)" "buf_ok e" "received e = (received c @ x) @ concat ds"
    by auto
  with len Cons.prems(2) show ?case by (auto simp: store_def)
qed

lemma input_unchanged: "\<exists>buf n. c = c\<lparr>m_read_buf := buf, m_read_idx := n\<rparr>"
  by (intro exI [of _ "m_read_buf c"] exI [of _ "m_read_idx c"]) simp

text \<open>Whatever \<open>recv\<close> gives, reading changes only the buffer and its fill, and keeps them in order.\<close>

lemma recv_loop_keeps:
  assumes "buf_ok c" "recv_loop rs c = (es, Done (b, d))"
  shows "buf_ok d \<and> (\<exists>buf n. d = c\<lparr>m_read_buf := buf, m_read_idx := n\<rparr>)"
  using assms
proof (induction rs c rule: recv_loop.induct)
  case (1 c)
  then show ?case by (auto simp: effect_simps intro: input_unchanged)
next
  case (2 rs c)
  then show ?case by (auto simp: effect_simps intro: input_unchanged)
next
  case (3 x rs c)
  show ?case
  proof (cases "x = []")
    case True
    with 3 show ?thesis by (auto simp: effect_simps intro: input_unchanged)
  next
    case False
    with "3.prems" have len: "m_read_idx c + length x \<le> READ_BUFFER_SIZE" by (auto simp: effect_simps split: if_splits)
    with "3.IH" False "3.prems" store_ok [OF "3.prems"(1) len] have
      "buf_ok d \<and> (\<exists>buf n. d = store x c\<lparr>m_read_buf := buf, m_read_idx := n\<rparr>)"
      by (simp add: store_def)
    then show ?thesis by (auto simp: store_def)
  qed
qed

lemma http_read_keeps:
  assumes "buf_ok c" "http_read rs c = (es, Done (b, d))"
  shows "buf_ok d \<and> (\<exists>buf n. d = c\<lparr>m_read_buf := buf, m_read_idx := n\<rparr>)"
proof (cases "READ_BUFFER_SIZE \<le> m_read_idx c")
  case True
  with assms have "d = c" by (simp add: http_read_def effect_simps)
  with assms(1) show ?thesis by (auto intro: input_unchanged)
next
  case False
  with assms(2) obtain fs a where "recv_loop rs c = (fs, Done (a, d))"
    by (auto simp: http_read_def bindc_eq_Done effect_simps split: if_splits)
  with assms(1) show ?thesis by (rule recv_loop_keeps)
qed

lemma recv_loop_overflow:
  assumes "[] \<notin> set ds" "READ_BUFFER_SIZE < m_read_idx c + length (concat ds)" "m_read_idx c \<le> READ_BUFFER_SIZE"
  shows "outcome (recv_loop (map Recv ds @ rs) c) = Undef"
  using assms by (induction ds arbitrary: c) (auto simp: effect_simps)

lemma recv_loop_ends:
  assumes "[] \<notin> set ds" "m_read_idx c + length (concat ds) \<le> READ_BUFFER_SIZE" "r = RecvErr \<or> r = Recv []"
  shows "\<exists>d. recv_loop (map Recv ds @ r # rs) c = ret (False, d)"
  using assms by (induction ds arbitrary: c) auto

text \<open>Claim C29.  \<open>read\<close> appends what the socket holds, until EAGAIN, to what the buffer has, and reports the end
  of the stream or an error as failure; but when the bytes do not all fit the buffer of 2048, or just
  fill it without a NUL, memory beyond it is written or read.\<close>

theorem http_read_exact:
  assumes "buf_ok c" "[] \<notin> set ds" "m_read_idx c < READ_BUFFER_SIZE"
  shows "(length (received c @ concat ds) < READ_BUFFER_SIZE \<longrightarrow>
      (\<exists>es d. http_read (map Recv ds) c = (es, Done (True, d)) \<and> buf_ok d \<and> received d = received c @ concat ds)) \<and>
    (READ_BUFFER_SIZE < length (received c @ concat ds) \<longrightarrow> outcome (http_read (map Recv ds) c) = Undef) \<and>
    (length (received c @ concat ds) = READ_BUFFER_SIZE \<longrightarrow> NUL \<notin> set (received c @ concat ds) \<longrightarrow>
       outcome (http_read (map Recv ds) c) = Undef) \<and>
    (length (received c @ concat ds) \<le> READ_BUFFER_SIZE \<longrightarrow>
       outcome (http_read (map Recv ds @ [Recv []]) c) \<in> {Done (False, d) | d. True})"
proof (intro conjI impI)
  have len: "length (received c) = m_read_idx c" using assms(1) by (simp add: buf_ok_def)
  note stores = recv_loop_stores [OF assms(1,2)]
  {
    assume "length (received c @ concat ds) < READ_BUFFER_SIZE"
    with stores obtain d where d: "recv_loop (map Recv ds) c = ret (True, d)" "buf_ok d" "received d = received c @ concat ds"
      by auto
    then have "m_read_idx d < READ_BUFFER_SIZE"
      using \<open>length (received c @ concat ds) < READ_BUFFER_SIZE\<close> by (metis buf_ok_def)
    with d(2) have "NUL \<in> set (m_read_buf d)" by (rule buf_ok_NUL)
    then have "cstr (m_read_buf d) = ([], Done (text_of (m_read_buf d)))" by (simp add: cstr_eq_Done)
    with assms(3) d show "\<exists>es d. http_read (map Recv ds) c = (es, Done (True, d)) \<and> buf_ok d \<and> received d = received c @ concat ds"
      by (simp add: http_read_def str_at_def effect_simps)
  next
    assume "READ_BUFFER_SIZE < length (received c @ concat ds)"
    with recv_loop_overflow [OF assms(2), of c "[]"] len assms(3) show "outcome (http_read (map Recv ds) c) = Undef"
      by (cases "recv_loop (map Recv ds) c") (simp add: http_read_def effect_simps)
  next
    assume full: "length (received c @ concat ds) = READ_BUFFER_SIZE" "NUL \<notin> set (received c @ concat ds)"
    with stores obtain d where d: "recv_loop (map Recv ds) c = ret (True, d)" "buf_ok d" "received d = received c @ concat ds"
      by auto
    with full have "m_read_buf d = received d" by (metis append_Nil2 buf_ok_def diff_self_eq_0 zeros_0)
    with d full have "cstr (m_read_buf d) = undef" by (simp add: cstr_def strlen_def)
    with assms(3) d show "outcome (http_read (map Recv ds) c) = Undef"
      by (simp add: http_read_def str_at_def effect_simps)
  next
    assume "length (received c @ concat ds) \<le> READ_BUFFER_SIZE"
    with recv_loop_ends [OF assms(2), of c "Recv []" "[]"] len obtain d where
      "recv_loop (map Recv ds @ [Recv []]) c = ret (False, d)" by auto
    with assms(3) show "outcome (http_read (map Recv ds @ [Recv []]) c) \<in> {Done (False, d) | d. True}"
      by (simp add: http_read_def effect_simps)
  }
qed

lemma http_read_exact_witness:
  "\<forall>c. \<exists>es d. http_read (map Recv [''GET /'', '' HTTP/1.1'']) (http_init c) = (es, Done (True, d)) \<and>
     received d = ''GET / HTTP/1.1''"
proof
  fix c
  have "buf_ok (http_init c)" "m_read_idx (http_init c) < READ_BUFFER_SIZE" "received (http_init c) = []"
    by (simp_all add: http_init_def buf_ok_def received_def READ_BUFFER_SIZE_def)
  with http_read_exact [of "http_init c" "[''GET /'', '' HTTP/1.1'']"]
  show "\<exists>es d. http_read (map Recv [''GET /'', '' HTTP/1.1'']) (http_init c) = (es, Done (True, d)) \<and>
     received d = ''GET / HTTP/1.1''"
    by (auto simp: READ_BUFFER_SIZE_def)
qed

section \<open>No request gets through\<close>

definition fresh :: "http_connection \<Rightarrow> bool" where
  "fresh c \<longleftrightarrow> buf_ok c \<and> m_check_state c = CHECK_STATE_REQUESTLINE \<and> m_checked_index c = 0 \<and>
     m_start_line c = 0 \<and> m_url c = None"

lemma fresh_init: "fresh (http_init c)"
  by (simp add: fresh_def http_init_def buf_ok_def received_def)

text \<open>The inputs on which the first line is taken to be complete: nothing at all, or an empty line.\<close>

definition empty_line :: "string \<Rightarrow> bool" where
  "empty_line d \<longleftrightarrow> d = [] \<or> take 2 d = [CHR 0x0D, CHR 0x0A]"

lemma fresh_nth: "fresh c \<Longrightarrow> i < m_read_idx c \<Longrightarrow> m_read_buf c ! i = received c ! i"
  by (simp add: received_def)

lemma read_turn_empty:
  assumes "m_check_state c = CHECK_STATE_REQUESTLINE" "m_start_line c = 0" "m_read_buf c = NUL # rest"
  shows "read_turn req c = ([Out (''got 1 http line: '' @ NL)], Undef)"
proof -
  have "cstr (NUL # rest) = ([], Done [])" by (simp add: cstr_eq_Done text_of_def)
  with assms show ?thesis
    by (simp add: read_turn_def get_line_def Let_def str_at_def parse_request_line_def strpbrk_def first_of_def
        effect_simps)
qed

lemma parse_line_fresh:
  assumes "fresh c"
  shows "fst (parse_line c) = LINE_OK \<longleftrightarrow> empty_line (received c)"
    and "fst (parse_line c) \<noteq> LINE_OK \<Longrightarrow> snd (parse_line c) = c"
    and "fst (parse_line c) = LINE_OK \<Longrightarrow> \<exists>rest. m_read_buf (snd (parse_line c)) = NUL # rest"
proof -
  have z: "m_checked_index c = 0" and ok: "buf_ok c" using assms by (simp_all add: fresh_def)
  then have len: "length (received c) = m_read_idx c" by (simp add: buf_ok_def)
  show "fst (parse_line c) \<noteq> LINE_OK \<Longrightarrow> snd (parse_line c) = c"
    using z by (auto simp: parse_line_def Let_def)
  show "fst (parse_line c) = LINE_OK \<longleftrightarrow> empty_line (received c)"
  proof (cases "received c")
    case Nil
    with len z show ?thesis by (simp add: parse_line_def empty_line_def)
  next
    case (Cons a as)
    then have i: "0 < m_read_idx c" "m_read_buf c ! 0 = a" using len fresh_nth [OF assms, of 0] by auto
    show ?thesis
    proof (cases as)
      case Nil
      with i len Cons z show ?thesis by (simp add: parse_line_def empty_line_def Let_def)
    next
      case (Cons b bs)
      with \<open>received c = a # as\<close> len have j: "m_read_idx c \<noteq> 1" "m_read_buf c ! 1 = b"
        using fresh_nth [OF assms, of 1] by auto
      with i z Cons \<open>received c = a # as\<close> show ?thesis
        by (simp add: parse_line_def empty_line_def Let_def numeral_eq_Suc)
    qed
  qed
  show "\<exists>rest. m_read_buf (snd (parse_line c)) = NUL # rest" if "fst (parse_line c) = LINE_OK"
  proof (cases "received c")
    case Nil
    with ok have "m_read_buf c = zeros READ_BUFFER_SIZE" using len by (simp add: buf_ok_def)
    also have "\<dots> = NUL # zeros (READ_BUFFER_SIZE - 1)"
      unfolding zeros_def READ_BUFFER_SIZE_def by (simp flip: replicate_Suc)
    finally show ?thesis using Nil len z by (simp add: parse_line_def)
  next
    case (Cons a as)
    then obtain b bs where buf: "m_read_buf c = b # bs" using ok by (cases "m_read_buf c") (auto simp: buf_ok_def)
    with that z Cons len show ?thesis by (auto simp: parse_line_def Let_def split: if_splits)
  qed
qed

lemma process_fresh:
  assumes "fresh c"
  shows "\<exists>m. http_process req error_500 c e = Some m \<and>
    (if empty_line (received c) then m = ([Out (''got 1 http line: '' @ NL)], Undef)
     else m = ret (c, modfd (m_sockfd c) EPOLLIN e))"
proof (cases "empty_line (received c)")
  case True
  let ?c = "snd (parse_line c)"
  from True have ok: "fst (parse_line c) = LINE_OK" using parse_line_fresh(1) [OF assms] by simp
  have "read_turn req ?c = ([Out (''got 1 http line: '' @ NL)], Undef)"
  proof -
    obtain rest where "m_read_buf ?c = NUL # rest" using parse_line_fresh(3) [OF assms ok] by blast
    moreover have "m_check_state ?c = CHECK_STATE_REQUESTLINE" "m_start_line ?c = 0"
      using assms by (simp_all add: fresh_def parse_line_def Let_def)
    ultimately show ?thesis by (intro read_turn_empty)
  qed
  with ok have "process_read req c = Some ([Out (''got 1 http line: '' @ NL)], Undef)"
    unfolding process_read_def by (subst read_loop.simps) simp
  with True show ?thesis by (simp add: http_process_def effect_simps)
next
  case False
  then have "fst (parse_line c) \<noteq> LINE_OK" "snd (parse_line c) = c" using parse_line_fresh(1,2) [OF assms] by auto
  then have "process_read req c = Some (ret (NO_REQUEST, c))"
    unfolding process_read_def by (subst read_loop.simps) (simp add: effect_simps)
  with False show ?thesis by (simp add: http_process_def after_read_def)
qed

lemma http_read_fresh:
  assumes "fresh c" "http_read rs c = (es, Done (b, d))"
  shows "fresh d \<and> m_sockfd d = m_sockfd c"
  using http_read_keeps [OF _ assms(2)] assms(1) by (auto simp: fresh_def)

text \<open>Claim C25.  Whatever a client sends first, no request is served.  As \<open>parse_line\<close> gives up on the first
  ordinary character, the handling of the data ends at once, asks for more and changes nothing, so
  that the same holds after any later data; and when there is nothing or an empty line in the
  buffer, the null pointer that \<open>strpbrk\<close> returns is written through.\<close>

theorem no_request_served:
  assumes "fresh c" "http_read rs c = (es, Done (True, d))"
  shows "fresh d \<and> (\<exists>m. http_process req error_500 d e = Some m \<and>
    (if empty_line (received d) then m = ([Out (''got 1 http line: '' @ NL)], Undef)
     else m = ret (d, modfd (m_sockfd c) EPOLLIN e)))"
proof -
  from http_read_fresh [OF assms] have d: "fresh d" "m_sockfd d = m_sockfd c" by simp_all
  from d(1) process_fresh [OF d(1), of req error_500 e] show ?thesis unfolding d(2) by (rule conjI)
qed

lemma no_request_served_witness:
  "\<forall>c req error_500 e. \<exists>es d. http_read [Recv ''GET / HTTP/1.1''] (http_init c) = (es, Done (True, d)) \<and> fresh d \<and>
     http_process req error_500 d e = Some (ret (d, modfd (m_sockfd c) EPOLLIN e))"
proof (intro allI)
  fix c req error_500 e
  let ?c = "http_init c"
  have c: "fresh ?c" "m_sockfd ?c = m_sockfd c" "received ?c = []" "m_read_idx ?c = 0"
    by (simp_all add: fresh_init) (simp_all add: http_init_def received_def)
  then have ok: "buf_ok ?c" by (simp add: fresh_def)
  from recv_loop_stores [OF ok, of "[''GET / HTTP/1.1'']"] c obtain d where
    d: "recv_loop [Recv ''GET / HTTP/1.1''] ?c = ret (True, d)" "buf_ok d" "received d = ''GET / HTTP/1.1''"
    by (auto simp: READ_BUFFER_SIZE_def)
  then have "m_read_idx d = 14" by (simp add: buf_ok_def)
  with d(2) have "NUL \<in> set (m_read_buf d)" by (intro buf_ok_NUL) (simp_all add: READ_BUFFER_SIZE_def)
  then have "cstr (m_read_buf d) = ([], Done (text_of (m_read_buf d)))" by (simp add: cstr_eq_Done)
  with d(1) c(4) obtain es where r: "http_read [Recv ''GET / HTTP/1.1''] ?c = (es, Done (True, d))"
    by (auto simp: http_read_def str_at_def READ_BUFFER_SIZE_def effect_simps)
  from no_request_served [OF c(1) r, of req error_500 e] d(3) c(2) have
    "fresh d" "http_process req error_500 d e = Some (ret (d, modfd (m_sockfd c) EPOLLIN e))"
    by (auto simp: empty_line_def)
  with r show "\<exists>es d. http_read [Recv ''GET / HTTP/1.1''] (http_init c) = (es, Done (True, d)) \<and> fresh d \<and>
     http_process req error_500 d e = Some (ret (d, modfd (m_sockfd c) EPOLLIN e))" by blast
qed

section \<open>Headers\<close>

lemma str_at_put:
  "i < length (m_read_buf c) \<Longrightarrow> str_at (c\<lparr>m_read_buf := (m_read_buf c)[i := NUL]\<rparr>) i = ret []"
proof -
  assume "i < length (m_read_buf c)"
  then have "drop i ((m_read_buf c)[i := NUL]) = NUL # drop (Suc i) (m_read_buf c)"
    by (simp add: drop_update_swap Cons_nth_drop_Suc [symmetric])
  then have "cstr (drop i ((m_read_buf c)[i := NUL])) = ([], Done [])"
    by (simp add: cstr_eq_Done text_of_def)
  then show ?thesis by (simp add: str_at_def effect_simps)
qed

lemma parse_headers_eq:
  assumes "i < length (m_read_buf c)"
  shows "parse_headers i c = ([Out (''oop! unkonw header '' @ '' '' @ NL)],
    Done (NO_REQUEST, c\<lparr>m_read_buf := (m_read_buf c)[i := NUL]\<rparr>))"
  using assms str_at_put [OF assms]
  by (simp add: parse_headers_def put_NUL_def strncasecmp_def same_nocase_def effect_simps)

text \<open>All data is taken apart and the next line would start here.\<close>

definition at_end :: "http_connection \<Rightarrow> bool" where
  "at_end c \<longleftrightarrow> m_check_state c = CHECKSTATE_HEADER \<and> m_read_idx c \<le> m_checked_index c \<and>
     m_start_line c = m_checked_index c \<and> NUL \<in> set (drop (m_start_line c) (m_read_buf c))"

lemma at_end_turn:
  assumes "at_end c"
  shows "\<exists>es d. parse_line c = (LINE_OK, c) \<and> read_turn req c = (es, Done (None, d)) \<and> at_end d"
proof -
  let ?i = "m_start_line c"
  have i: "?i < length (m_read_buf c)"
  proof (rule ccontr)
    assume "\<not> ?i < length (m_read_buf c)"
    with assms show False by (simp add: at_end_def)
  qed
  have "NUL \<in> set (drop ?i ((m_read_buf c)[?i := NUL]))"
    using i by (simp add: drop_update_swap set_update_memI)
  moreover have "c\<lparr>m_start_line := m_checked_index c\<rparr> = c" using assms by (cases c) (simp add: at_end_def)
  moreover have "cstr (drop ?i (m_read_buf c)) = ([], Done (text_of (drop ?i (m_read_buf c))))"
    using assms unfolding at_end_def cstr_eq_Done by blast
  ultimately show ?thesis using assms i
    by (simp add: at_end_def read_turn_def get_line_def Let_def str_at_def parse_headers_eq parse_line_def effect_simps)
qed

lemma at_end_spins: "at_end c \<Longrightarrow> read_loop req es c = None"
proof (rule ccontr)
  assume c: "at_end c" and "read_loop req es c \<noteq> None"
  then obtain r where "read_loop req es c = Some r" by blast
  then have "at_end c \<longrightarrow> False"
  proof (rule read_loop.raw_induct [rotated, where P = "\<lambda>_ _ c _. at_end c \<longrightarrow> False"])
    fix loop req es c r
    assume rec: "\<And>req es c r. loop req es c = Some r \<Longrightarrow> at_end c \<longrightarrow> False"
      and turn: "(if fst (parse_line c) \<noteq> LINE_OK then Some (es, Done (NO_REQUEST, snd (parse_line c)))
        else case read_turn req (snd (parse_line c)) of
             (fs, Done (Some r, d)) \<Rightarrow> Some (es @ fs, Done (r, d))
           | (fs, Done (None, d)) \<Rightarrow> loop req (es @ fs) d
           | (fs, Exit n) \<Rightarrow> Some (es @ fs, Exit n)
           | (fs, Undef) \<Rightarrow> Some (es @ fs, Undef)
           | (fs, Block) \<Rightarrow> Some (es @ fs, Block)) = Some r"
    show "at_end c \<longrightarrow> False"
    proof
      assume a: "at_end c"
      from at_end_turn [OF a, of req] obtain fs d where
        "parse_line c = (LINE_OK, c)" "read_turn req c = (fs, Done (None, d))" "at_end d" by blast
      with turn rec show False by auto
    qed
  qed
  with c show False by simp
qed

text \<open>The headers are never recognised and never end: the assignment in the test for the empty line
  erases the first character, so that every line counts as an unknown header and asks for more; and
  once all data is taken apart in this state, \<open>process_read\<close> goes round for ever.\<close>

theorem headers_never_end:
  assumes "m_check_state c = CHECKSTATE_HEADER"
  shows "(i < length (m_read_buf c) \<longrightarrow>
      parse_headers i c = ([Out (''oop! unkonw header '' @ '' '' @ NL)],
        Done (NO_REQUEST, c\<lparr>m_read_buf := (m_read_buf c)[i := NUL]\<rparr>))) \<and>
    (m_read_idx c \<le> m_checked_index c \<longrightarrow> m_start_line c = m_checked_index c \<longrightarrow>
       NUL \<in> set (drop (m_start_line c) (m_read_buf c)) \<longrightarrow> process_read req c = None)"
  using assms by (auto simp: parse_headers_eq process_read_def at_end_def intro: at_end_spins)

lemma headers_never_end_witness:
  "process_read req (conn_of []\<lparr>m_check_state := CHECKSTATE_HEADER\<rparr>) = None"
  using headers_never_end [of "conn_of []\<lparr>m_check_state := CHECKSTATE_HEADER\<rparr>"]
  by (simp add: conn_of_def READ_BUFFER_SIZE_def)

text \<open>A connection is watched edge-triggered and not for one event only, whatever \<open>one_shot\<close> asks for.\<close>

lemma addfd_not_oneshot:
  assumes "interest e fd = None"
  shows "interest (addfd fd one_shot e) fd = Some (EPOLLIN OR EPOLLRDHUP OR EPOLLET)"
    and "(EPOLLIN OR EPOLLRDHUP OR EPOLLET) AND EPOLLONESHOT = 0"
  using assms by (simp_all add: addfd_def setnonblocking_def Let_def EPOLL_defs)

lemma addfd_nonblocking: "getfl (addfd fd one_shot e) fd AND O_NONBLOCK \<noteq> 0"
  using nonblocking_F_SETFL [of "getfl e fd" "\<lparr>status = getfl e fd, fdflags = 0\<rparr>"]
  by (simp add: addfd_def setnonblocking_def Let_def nonblocking_def)

section \<open>The state of the parser\<close>

text \<open>What the parts of a turn do to the state.\<close>

lemma put_NUL_state: "put_NUL i c = (es, Done d) \<Longrightarrow> m_check_state d = m_check_state c"
  by (auto simp: put_NUL_def effect_simps split: if_splits)

lemma target_path_state: "target_path u c = (es, Done (r, d)) \<Longrightarrow> m_check_state d \<in> {m_check_state c, CHECKSTATE_HEADER}"
  by (auto simp: target_path_def Let_def effect_simps split: option.splits if_splits elim!: bindc_DoneE)

lemma request_line_state:
  "parse_request_line i c = (es, Done (r, d)) \<Longrightarrow> m_check_state d \<in> {m_check_state c, CHECKSTATE_HEADER}"
  unfolding parse_request_line_def Let_def
  by (fastforce simp: effect_simps split: option.splits if_splits elim!: bindc_DoneE dest: put_NUL_state target_path_state)

lemma content_state: "parse_content i c = (es, Done (r, d)) \<Longrightarrow> m_check_state d = m_check_state c"
  by (auto simp: parse_content_def Let_def effect_simps split: if_splits elim!: bindc_DoneE dest: put_NUL_state)

lemma headers_state: "parse_headers i c = (es, Done (r, d)) \<Longrightarrow> m_check_state d = m_check_state c"
  unfolding parse_headers_def
  by (fastforce simp: effect_simps split: if_splits elim!: bindc_DoneE dest: put_NUL_state)

text \<open>A turn that goes on never leads back to an earlier state, and never to the content of a request, although the parser
  has code for it: only the branch for the empty line, which is dead, could lead there.\<close>

lemma read_turn_advances:
  assumes "read_turn req c = (es, Done (None, d))"
  shows "m_check_state c \<le> m_check_state d \<and>
    (m_check_state c \<noteq> CHECK_STATE_CONTENT \<longrightarrow> m_check_state d \<noteq> CHECK_STATE_CONTENT)"
proof -
  let ?c = "c\<lparr>m_start_line := m_checked_index c\<rparr>"
  have same: "m_check_state ?c = m_check_state c" by simp
  show ?thesis
  proof (cases "m_check_state c")
    case CHECK_STATE_REQUESTLINE
    with assms obtain fs r where "parse_request_line (get_line c) ?c = (fs, Done (r, d))"
      by (auto simp: read_turn_def Let_def prim_effects split: if_splits elim!: bindc_DoneE)
    from request_line_state [OF this] CHECK_STATE_REQUESTLINE show ?thesis
      by (auto simp: less_eq_CHECK_STATE_def)
  next
    case CHECKSTATE_HEADER
    with assms obtain fs r where "parse_headers (get_line c) ?c = (fs, Done (r, d))"
      by (auto simp: read_turn_def Let_def prim_effects split: if_splits elim!: bindc_DoneE)
    from headers_state [OF this] CHECKSTATE_HEADER show ?thesis by simp
  next
    case CHECK_STATE_CONTENT
    with assms obtain fs r where "parse_content (get_line c) ?c = (fs, Done (r, d))"
      by (auto simp: read_turn_def Let_def prim_effects split: if_splits elim!: bindc_DoneE)
    from content_state [OF this] CHECK_STATE_CONTENT show ?thesis by simp
  qed
qed

end
