(* ===== verification/WebServer.thy ===== *)
theory WebServer
  imports HttpConn
begin

text \<open>
  The main program of the web server (\<^verbatim>\<open>main.cpp\<close>, \<^verbatim>\<open>reterr.h\<close>): start, the epoll loop that accepts, reads
  and closes, and the workers that run \<open>process\<close> on what the loop hands to the pool, as interleaved
  handlers.  \<open>users\<close> is the array of connections by descriptor, with arbitrary contents at first;
  \<open>tasks\<close> are the connections in the pool's queue, which theory \<open>ThreadPool\<close> shows to be first in, first
  out.  The kernel reports only registered descriptors and hands out only closed ones.
\<close>

definition MAX_FD :: int where
  "MAX_FD = 65535"

definition reterr :: "int \<Rightarrow> string \<Rightarrow> bool \<Rightarrow> unit comp" where
  "reterr r str isex =
     (if -1 = r then thenc (emit (Perror str)) (if isex then exit_with (-1) else ret ()) else ret ())"

definition reterr_num :: "int \<Rightarrow> int \<Rightarrow> string \<Rightarrow> unit comp" where
  "reterr_num n r str = (if n = r then thenc (emit (Perror str)) (exit_with n) else ret ())"

text \<open>\<open>_reterr\<close>, here \<open>reterr_num\<close>, is called nowhere; with -1 it is what \<open>reterr\<close> is by default.\<close>

lemma reterr_num_reterr: "reterr_num (-1) r str = reterr r str True"
  by (simp add: reterr_num_def reterr_def)

text \<open>\<open>addsig\<close>: the signal, the handler, the flags, which \<open>memset\<close> has cleared, and a mask with every signal in it.\<close>

definition SIGPIPE :: int where "SIGPIPE = 13"
definition SIG_IGN :: int where "SIG_IGN = 1"

definition addsig :: "int \<Rightarrow> int \<Rightarrow> event" where
  "addsig sig handler = (let sa_flags = 0; sa_mask = uint (- 1 :: 64 word) in Call ''sigaction'' [sig, handler, sa_flags, sa_mask])"

record server =
  users :: "int \<Rightarrow> http_connection"
  ep :: epoll
  tasks :: "int list"
  wtrace :: "event list"
  stop :: "unit outcome"

text \<open>
  \<open>main\<close> up to its loop: \<open>pool\<close> tells whether the pool could be made, \<open>sock\<close>, \<open>bnd\<close> and \<open>lst\<close> are the results
  of \<open>socket\<close>, \<open>bind\<close> and \<open>listen\<close>, \<open>g\<close> what is in the memory of the array.
\<close>

definition web_start ::
  "int \<Rightarrow> string \<Rightarrow> string \<Rightarrow> bool \<Rightarrow> int \<Rightarrow> int \<Rightarrow> int \<Rightarrow> (int \<Rightarrow> http_connection) \<Rightarrow> server comp"
where
  "web_start argc prog port pool sock bnd lst g =
     (if argc \<le> 1 then thenc (emit (Out (''run as ./'' @ prog @ '' port_number '' @ NL))) (exit_with (-1))
      else
        thenc (emit (addsig SIGPIPE SIG_IGN))
       (if \<not> pool then exit_with (-1)
        else
          thenc (reterr sock ''socket'' True)
         (thenc (emit (Call ''bind'' [sock, to_int (atol port)]))
         (thenc (reterr bnd ''bind'' True)
         (thenc (emit (Call ''listen'' [sock, 5]))
         (thenc (reterr lst ''listen'' True)
         (ret \<lparr>users = g,
               ep = addfd sock False \<lparr>interest = (\<lambda>_. None), getfl = (\<lambda>_. O_RDWR), user_count = 0\<rparr>,
               tasks = [], wtrace = [], stop = Done ()\<rparr>)))))))"

definition apply_comp :: "(http_connection \<times> epoll) comp \<Rightarrow> int \<Rightarrow> server \<Rightarrow> server" where
  "apply_comp m fd s =
     (case m of
        (es, Done (c, e)) \<Rightarrow> s\<lparr>users := (users s)(fd := c), ep := e, wtrace := wtrace s @ es\<rparr>
      | (es, Exit n) \<Rightarrow> s\<lparr>wtrace := wtrace s @ es, stop := Exit n\<rparr>
      | (es, Undef) \<Rightarrow> s\<lparr>wtrace := wtrace s @ es, stop := Undef\<rparr>
      | (es, Block) \<Rightarrow> s\<lparr>wtrace := wtrace s @ es, stop := Block\<rparr>)"

text \<open>A new connection: the result of \<open>accept\<close> is reported but not acted on.\<close>

definition web_accept :: "int \<Rightarrow> server \<Rightarrow> server" where
  "web_accept connfd s =
     (let s = s\<lparr>wtrace := wtrace s @ events (reterr connfd ''accept'' False)\<rparr> in
      if MAX_FD \<le> user_count (ep s) then s\<lparr>wtrace := wtrace s @ [Cl connfd]\<rparr>
      else if connfd < 0 \<or> MAX_FD \<le> connfd then s\<lparr>stop := Undef\<rparr>
      else case http_init_new connfd (users s connfd) (ep s) of
             (c, e) \<Rightarrow> s\<lparr>users := (users s)(connfd := c), ep := e\<rparr>)"

definition web_close :: "int \<Rightarrow> server \<Rightarrow> server" where
  "web_close fd s = apply_comp (close_conn (users s fd) (ep s)) fd s"

text \<open>An event on a client; \<open>rs\<close> is what \<open>recv\<close> gives, \<open>app\<close> whether the pool takes the request.\<close>

definition web_ready :: "int \<Rightarrow> flags \<Rightarrow> recv list \<Rightarrow> bool \<Rightarrow> server \<Rightarrow> server" where
  "web_ready sockfd ev rs app s =
     (if ev AND (EPOLLRDHUP OR EPOLLHUP OR EPOLLERR) \<noteq> 0 then web_close sockfd s
      else if ev AND EPOLLIN \<noteq> 0 then
        (case http_read rs (users s sockfd) of
           (es, Done (True, c)) \<Rightarrow>
             s\<lparr>users := (users s)(sockfd := c), wtrace := wtrace s @ es,
               tasks := (if app then tasks s @ [sockfd] else tasks s)\<rparr>
         | (es, Done (False, c)) \<Rightarrow> web_close sockfd (s\<lparr>users := (users s)(sockfd := c), wtrace := wtrace s @ es\<rparr>)
         | (es, Exit n) \<Rightarrow> s\<lparr>wtrace := wtrace s @ es, stop := Exit n\<rparr>
         | (es, Undef) \<Rightarrow> s\<lparr>wtrace := wtrace s @ es, stop := Undef\<rparr>
         | (es, Block) \<Rightarrow> s\<lparr>wtrace := wtrace s @ es, stop := Block\<rparr>)
      else if ev AND EPOLLOUT \<noteq> 0 then
        (case http_write (users s sockfd) of
           (es, Done ok) \<Rightarrow> (let s = s\<lparr>wtrace := wtrace s @ es\<rparr> in if \<not> ok then web_close sockfd s else s)
         | (es, _) \<Rightarrow> s\<lparr>stop := Undef\<rparr>)
      else s)"

text \<open>A worker takes the oldest task and processes it; \<open>stop\<close> is \<open>Block\<close> should that never end.\<close>

definition web_work ::
  "(http_connection \<Rightarrow> (HTTP_CODE \<times> http_connection) comp) \<Rightarrow> (http_connection \<Rightarrow> (bool \<times> http_connection) comp) \<Rightarrow>
     server \<Rightarrow> server option"
where
  "web_work req error_500 s =
     (case tasks s of
        [] \<Rightarrow> None
      | fd # fds \<Rightarrow>
          Some (case http_process req error_500 (users s fd) (ep s) of
                  None \<Rightarrow> s\<lparr>stop := Block\<rparr>
                | Some m \<Rightarrow> apply_comp m fd (s\<lparr>tasks := fds\<rparr>)))"

datatype wlabel = Conn int | Ready int flags "recv list" bool | Work | Fail

definition web_step ::
  "(http_connection \<Rightarrow> (HTTP_CODE \<times> http_connection) comp) \<Rightarrow> (http_connection \<Rightarrow> (bool \<times> http_connection) comp) \<Rightarrow>
     int \<Rightarrow> server \<Rightarrow> wlabel \<Rightarrow> server option"
where
  "web_step req error_500 listenfd s l =
     (if stop s \<noteq> Done () then None
      else case l of
        Conn c \<Rightarrow> (if c = -1 \<or> 0 \<le> c \<and> interest (ep s) c = None then Some (web_accept c s) else None)
      | Ready fd ev rs app \<Rightarrow>
          (if fd \<noteq> listenfd \<and> interest (ep s) fd \<noteq> None then Some (web_ready fd ev rs app s) else None)
      | Work \<Rightarrow> web_work req error_500 s
      | Fail \<Rightarrow> Some (s\<lparr>wtrace := wtrace s @ [Out (''epoll failure'' @ NL), Call ''close epollfd'' [], Cl listenfd], stop := Exit 0\<rparr>))"

section \<open>No request is ever answered\<close>

definition no_write :: "event list \<Rightarrow> bool" where
  "no_write es \<longleftrightarrow> (\<forall>fd d. Wr fd d \<notin> set es)"

lemma no_write_simps [simp]:
  "no_write []" "no_write (es @ fs) \<longleftrightarrow> no_write es \<and> no_write fs"
  "no_write (Out x # es) \<longleftrightarrow> no_write es" "no_write (Cl c # es) \<longleftrightarrow> no_write es"
  "\<not> no_write (Wr c d # es)" "no_write (Perror x # es) \<longleftrightarrow> no_write es" "no_write (Call x as # es) \<longleftrightarrow> no_write es"
  by (auto simp: no_write_def)

text \<open>The connections: the descriptors watched but for the listening one.\<close>

definition conns :: "int \<Rightarrow> epoll \<Rightarrow> int set" where
  "conns listenfd e = dom (interest e) - {listenfd}"

definition user_ok :: "int \<Rightarrow> http_connection \<Rightarrow> bool" where
  "user_ok fd c \<longleftrightarrow> fresh c \<and> (m_sockfd c = fd \<or> m_sockfd c = -1)"

definition quiet :: "int \<Rightarrow> epoll \<Rightarrow> bool" where
  "quiet listenfd e \<longleftrightarrow> finite (conns listenfd e) \<and> user_count e = int (card (conns listenfd e)) \<and>
     listenfd \<in> dom (interest e) \<and> interest e (-1) = None \<and> conns listenfd e \<subseteq> {0..<MAX_FD} \<and>
     (\<forall>fd ev. interest e fd = Some ev \<longrightarrow> ev AND EPOLLOUT = 0)"

definition web_inv :: "int \<Rightarrow> server \<Rightarrow> bool" where
  "web_inv listenfd s \<longleftrightarrow> quiet listenfd (ep s) \<and> no_write (wtrace s) \<and>
     (\<forall>fd \<in> conns listenfd (ep s). m_sockfd (users s fd) = fd) \<and>
     (\<forall>fd \<in> conns listenfd (ep s) \<union> set (tasks s). user_ok fd (users s fd))"

lemma ev_quiet [simp]:
  "(EPOLLIN OR EPOLLRDHUP OR EPOLLET) AND EPOLLOUT = 0" "(EPOLLIN OR EPOLLONESHOT OR EPOLLRDHUP) AND EPOLLOUT = 0"
  by (simp_all add: EPOLL_defs)

lemma interest_addfd: "interest e fd = None \<Longrightarrow>
    interest (addfd fd one_shot e) = (interest e)(fd \<mapsto> EPOLLIN OR EPOLLRDHUP OR EPOLLET)"
  "user_count (addfd fd one_shot e) = user_count e"
  by (simp_all add: addfd_def setnonblocking_def Let_def)

lemma quiet_add:
  assumes "quiet l e" "interest e fd = None" "0 \<le> fd" "fd < MAX_FD"
    and "interest e' = (interest e)(fd \<mapsto> EPOLLIN OR EPOLLRDHUP OR EPOLLET)" "user_count e' = user_count e + 1"
  shows "quiet l e' \<and> conns l e' = insert fd (conns l e)"
proof -
  have l: "fd \<noteq> l" "l \<in> dom (interest e)" using assms(1,2) by (auto simp: quiet_def)
  then have c: "conns l e' = insert fd (conns l e)" "fd \<notin> conns l e"
    using assms(2,5) by (auto simp: conns_def)
  with assms l show ?thesis by (auto simp: quiet_def)
qed

lemma quiet_remove:
  assumes "quiet l e" "fd \<in> conns l e" "interest e' = (interest e)(fd := None)" "user_count e' = user_count e - 1"
  shows "quiet l e' \<and> conns l e' = conns l e - {fd}"
proof -
  have c: "conns l e' = conns l e - {fd}" using assms(3) by (auto simp: conns_def)
  have "fd \<noteq> l" using assms(2) by (simp add: conns_def)
  moreover have "1 \<le> card (conns l e)" using assms(1,2) by (metis One_nat_def Suc_leI card_gt_0_iff empty_iff quiet_def)
  ultimately show ?thesis unfolding c using assms by (auto simp: quiet_def c split: if_splits)
qed

lemma modfd_quiet: "quiet l e \<Longrightarrow> quiet l (modfd fd EPOLLIN e) \<and> conns l (modfd fd EPOLLIN e) = conns l e"
proof (cases "interest e fd")
  case (Some ev)
  assume q: "quiet l e"
  have "dom (interest (modfd fd EPOLLIN e)) = dom (interest e)" using Some by (auto simp: modfd_def)
  then have c: "conns l (modfd fd EPOLLIN e) = conns l e" by (simp add: conns_def)
  with q Some show ?thesis unfolding quiet_def c by (auto simp: modfd_def)
qed (simp add: modfd_def)

lemma web_accept_inv:
  assumes "web_inv l s" "c = -1 \<or> 0 \<le> c \<and> interest (ep s) c = None"
  shows "web_inv l (web_accept c s)"
proof -
  let ?es = "events (reterr c ''accept'' False)"
  have es: "no_write ?es" by (simp add: reterr_def effect_simps)
  consider "MAX_FD \<le> user_count (ep s)" | "\<not> MAX_FD \<le> user_count (ep s)" "c < 0 \<or> MAX_FD \<le> c"
    | "\<not> MAX_FD \<le> user_count (ep s)" "0 \<le> c" "c < MAX_FD"
    by linarith
  then show ?thesis
  proof cases
    case 3
    with assms(2) have none: "interest (ep s) c = None" by auto
    let ?e = "(addfd c True (ep s))\<lparr>user_count := user_count (addfd c True (ep s)) + 1\<rparr>"
    let ?u = "http_init (users s c\<lparr>m_sockfd := c\<rparr>)"
    have t: "web_accept c s = s\<lparr>wtrace := wtrace s @ ?es, users := (users s)(c := ?u), ep := ?e\<rparr>"
      using 3 by (simp add: web_accept_def http_init_new_def Let_def)
    have q: "quiet l ?e \<and> conns l ?e = insert c (conns l (ep s))"
      by (rule quiet_add) (use assms none 3 in \<open>simp_all add: web_inv_def interest_addfd\<close>)
    have "user_ok c ?u" "m_sockfd ?u = c" by (simp_all add: user_ok_def fresh_init) (simp_all add: http_init_def)
    with q assms(1) es show ?thesis unfolding t web_inv_def by auto
  qed (use assms es in \<open>simp_all add: web_accept_def web_inv_def Let_def\<close>)
qed

lemma web_close_inv:
  assumes "web_inv l s" "fd \<in> conns l (ep s)"
  shows "web_inv l (web_close fd s)"
proof -
  have m: "m_sockfd (users s fd) = fd" "user_ok fd (users s fd)" using assms by (auto simp: web_inv_def)
  have "fd \<noteq> -1" using assms by (auto simp: web_inv_def quiet_def)
  let ?e = "(ep s)\<lparr>interest := (interest (ep s))(fd := None), user_count := user_count (ep s) - 1\<rparr>"
  let ?u = "users s fd\<lparr>m_sockfd := -1\<rparr>"
  have t: "web_close fd s = s\<lparr>users := (users s)(fd := ?u), ep := ?e, wtrace := wtrace s @ [Cl fd]\<rparr>"
    using m \<open>fd \<noteq> -1\<close> by (simp add: web_close_def apply_comp_def close_conn_def removefd_def effect_simps)
  have q: "quiet l ?e \<and> conns l ?e = conns l (ep s) - {fd}"
    by (rule quiet_remove) (use assms in \<open>simp_all add: web_inv_def\<close>)
  have "fresh ?u = fresh (users s fd)" by (simp add: fresh_def buf_ok_def received_def)
  then have "user_ok fd ?u" using m(2) by (simp add: user_ok_def)
  with q assms(1) show ?thesis unfolding t web_inv_def by auto
qed

lemma http_read_no_write: "no_write (events (http_read rs c)) \<and> outcome (http_read rs c) \<noteq> Block"
proof -
  have "events (recv_loop rs k) = [] \<and> outcome (recv_loop rs k) \<noteq> Block" for k
    by (induction rs k rule: recv_loop.induct) (simp_all add: effect_simps)
  then obtain r where r: "recv_loop rs c = ([], r)" "r \<noteq> Block" by (metis prod.collapse)
  then show ?thesis
    by (cases r) (auto simp: http_read_def str_at_def cstr_def effect_simps split: option.splits if_splits)
qed

lemma web_read_inv:
  assumes "web_inv l s" "fd \<in> conns l (ep s)" "http_read rs (users s fd) = (es, Done (b, c))"
    and "set ts \<subseteq> insert fd (set (tasks s))"
  shows "web_inv l (s\<lparr>users := (users s)(fd := c), wtrace := wtrace s @ es, tasks := ts\<rparr>)"
proof -
  have m: "m_sockfd (users s fd) = fd" "fresh (users s fd)" using assms by (auto simp: web_inv_def user_ok_def)
  from http_read_fresh [OF m(2) assms(3)] m(1) have c: "user_ok fd c" "m_sockfd c = fd" by (simp_all add: user_ok_def)
  have "no_write es" using http_read_no_write [of rs "users s fd"] assms(3) by simp
  with c assms show ?thesis by (auto simp: web_inv_def)
qed

lemma web_stop_inv: "web_inv l s \<Longrightarrow> no_write es \<Longrightarrow> web_inv l (s\<lparr>wtrace := wtrace s @ es, stop := x\<rparr>)"
  by (simp add: web_inv_def)

lemma web_ready_inv:
  assumes "web_inv l s" "fd \<noteq> l" "interest (ep s) fd \<noteq> None"
  shows "web_inv l (web_ready fd ev rs app s)"
proof -
  have fd: "fd \<in> conns l (ep s)" using assms(2,3) by (auto simp: conns_def)
  consider "ev AND (EPOLLRDHUP OR EPOLLHUP OR EPOLLERR) \<noteq> 0"
    | "ev AND (EPOLLRDHUP OR EPOLLHUP OR EPOLLERR) = 0" "ev AND EPOLLIN \<noteq> 0"
    | "ev AND (EPOLLRDHUP OR EPOLLHUP OR EPOLLERR) = 0" "ev AND EPOLLIN = 0"
    by blast
  then show ?thesis
  proof cases
    case 1
    then show ?thesis using web_close_inv [OF assms(1) fd] by (simp add: web_ready_def)
  next
    case 2
    obtain es r where r: "http_read rs (users s fd) = (es, r)" by fastforce
    note nw = http_read_no_write [of rs "users s fd", unfolded r fst_conv]
    show ?thesis
    proof (cases r)
      case (Done bc)
      then obtain b c where bc: "r = Done (b, c)" by (cases bc) simp
      note inv = web_read_inv [OF assms(1) fd r [unfolded bc]]
      show ?thesis
      proof (cases b)
        case True
        have "set (if app then tasks s @ [fd] else tasks s) \<subseteq> insert fd (set (tasks s))" by auto
        from inv [OF this] True 2 r bc show ?thesis by (simp add: web_ready_def)
      next
        case False
        have i: "web_inv l (s\<lparr>users := (users s)(fd := c), wtrace := wtrace s @ es\<rparr>)"
          using inv [of "tasks s"] by auto
        from web_close_inv [OF i] fd False 2 r bc show ?thesis by (simp add: web_ready_def)
      qed
    qed (use 2 r nw assms(1) in \<open>simp_all add: web_ready_def web_stop_inv\<close>)
  next
    case 3
    with assms(1) show ?thesis by (simp add: web_ready_def http_write_def effect_simps web_inv_def Let_def)
  qed
qed

lemma web_work_inv:
  assumes "web_inv l s" "web_work req error_500 s = Some t" and stop: "stop s \<noteq> Block"
  shows "web_inv l t \<and> stop t \<noteq> Block"
proof -
  obtain fd fds where f: "tasks s = fd # fds" using assms(2) by (cases "tasks s") (simp_all add: web_work_def)
  let ?u = "users s fd"
  have u: "fresh ?u" using assms(1) f by (simp add: web_inv_def user_ok_def)
  from process_fresh [OF u, of req error_500 "ep s"] obtain m where
    m: "http_process req error_500 ?u (ep s) = Some m"
       "if empty_line (received ?u) then m = ([Out (''got 1 http line: '' @ NL)], Undef)
        else m = ret (?u, modfd (m_sockfd ?u) EPOLLIN (ep s))" by blast
  have t: "t = apply_comp m fd (s\<lparr>tasks := fds\<rparr>)" using assms(2) f m(1) by (simp add: web_work_def)
  show ?thesis
  proof (cases "empty_line (received ?u)")
    case True
    with m(2) t f assms(1) show ?thesis by (simp add: apply_comp_def web_inv_def)
  next
    case False
    with m(2) have "t = s\<lparr>tasks := fds, users := (users s)(fd := ?u), ep := modfd (m_sockfd ?u) EPOLLIN (ep s)\<rparr>"
      unfolding t by (simp add: apply_comp_def effect_simps)
    moreover have "web_inv l t" if "t = s\<lparr>tasks := fds, users := users s, ep := modfd (m_sockfd ?u) EPOLLIN (ep s)\<rparr>"
      using assms(1) f modfd_quiet [of l "ep s" "m_sockfd ?u"] unfolding that web_inv_def by simp
    ultimately show ?thesis using stop by simp
  qed
qed

text \<open>The server after its start.\<close>

definition web_begun :: "int \<Rightarrow> (int \<Rightarrow> http_connection) \<Rightarrow> server" where
  "web_begun l g = \<lparr>users = g, ep = addfd l False \<lparr>interest = (\<lambda>_. None), getfl = (\<lambda>_. O_RDWR), user_count = 0\<rparr>,
     tasks = [], wtrace = [], stop = Done ()\<rparr>"

lemma web_start_begun:
  assumes "web_start argc prog port pool sock bnd lst g = (es, Done s)"
  shows "s = web_begun sock g \<and> sock \<noteq> -1"
  using assms by (cases "sock = -1"; cases "bnd = -1"; cases "lst = -1")
    (auto simp: web_start_def web_begun_def reterr_def effect_simps split: if_splits)

lemma web_inv_begun: "l \<noteq> -1 \<Longrightarrow> web_inv l (web_begun l g)"
  by (auto simp: web_begun_def web_inv_def quiet_def conns_def interest_addfd)

lemma web_inv_step:
  assumes "web_inv l s" "stop s \<noteq> Block" "web_step req error_500 l s x = Some t"
  shows "web_inv l t \<and> stop t \<noteq> Block"
proof -
  have s: "stop s = Done ()" using assms(3) by (simp add: web_step_def split: if_splits)
  show ?thesis
  proof (cases x)
    case (Conn c)
    with assms s have "t = web_accept c s" "c = -1 \<or> 0 \<le> c \<and> interest (ep s) c = None"
      by (auto simp: web_step_def split: if_splits)
    moreover have "stop (web_accept c s) \<noteq> Block" using s by (simp add: web_accept_def Let_def split: prod.split)
    ultimately show ?thesis using web_accept_inv [OF assms(1)] by simp
  next
    case (Ready fd ev rs app)
    with assms s have t: "t = web_ready fd ev rs app s" "fd \<noteq> l" "interest (ep s) fd \<noteq> None"
      by (auto simp: web_step_def split: if_splits)
    have c: "stop (web_close fd u) \<noteq> Block" if "stop u = Done ()" for u
      using that by (simp add: web_close_def apply_comp_def close_conn_def removefd_def effect_simps)
    have "outcome (http_read rs (users s fd)) \<noteq> Block" using http_read_no_write by blast
    then have "stop t \<noteq> Block" unfolding t(1) web_ready_def using s c
      by (auto simp: http_write_def effect_simps Let_def split: prod.splits outcome.splits bool.splits)
    with t web_ready_inv [OF assms(1)] show ?thesis by simp
  next
    case Work
    with assms s have "web_work req error_500 s = Some t" by (simp add: web_step_def)
    with web_work_inv [OF assms(1) _ assms(2)] show ?thesis by blast
  next
    case Fail
    with assms s have "t = s\<lparr>wtrace := wtrace s @ [Out (''epoll failure'' @ NL), Call ''close epollfd'' [], Cl l], stop := Exit 0\<rparr>"
      by (simp add: web_step_def)
    with assms(1) show ?thesis by (simp add: web_inv_def)
  qed
qed

interpretation ws: safe_system "web_step req error_500 l" "web_begun l g"
  "\<lambda>s. l \<noteq> -1 \<longrightarrow> web_inv l s \<and> stop s \<noteq> Block"
  by unfold_locales (simp add: web_inv_begun, simp add: web_begun_def, blast dest: web_inv_step)

lemma web_reach_inv:
  assumes "web_start argc prog port pool sock bnd lst g = (es, Done s0)" "reachable (web_step req error_500 sock) s0 s"
  shows "web_inv sock s" "stop s \<noteq> Block"
  using web_start_begun [OF assms(1)] ws.inv_reachable assms(2) by blast+

lemma no_write_sent: "no_write es \<Longrightarrow> sent_to fd es = []"
proof (induction es)
  case (Cons e es)
  then show ?case by (cases e) simp_all
qed simp


text \<open>Claim C27.  The server counts its connections right: \<open>m_user_count\<close> is the number of descriptors watched
  beside the listening one, each of these is in the range of the array and its element knows it, so
  that the count never passes 65535; but a failed \<open>accept\<close> makes it write before the array.\<close>

theorem web_counts:
  assumes "web_start argc prog port pool sock bnd lst g = (es, Done s0)"
    and "reachable (web_step req error_500 sock) s0 s"
  shows "user_count (ep s) = int (card (conns sock (ep s))) \<and> conns sock (ep s) \<subseteq> {0..<MAX_FD} \<and>
    user_count (ep s) \<le> MAX_FD \<and> (\<forall>c \<in> conns sock (ep s). m_sockfd (users s c) = c) \<and>
    (stop s = Done () \<longrightarrow> user_count (ep s) < MAX_FD \<longrightarrow>
       (\<exists>t. web_step req error_500 sock s (Conn (-1)) = Some t \<and> stop t = Undef))"
proof -
  note inv = web_reach_inv(1) [OF assms, unfolded web_inv_def quiet_def]
  then have sub: "conns sock (ep s) \<subseteq> {0..<MAX_FD}" and cnt: "user_count (ep s) = int (card (conns sock (ep s)))"
    by simp_all
  have "card (conns sock (ep s)) \<le> card {0..<MAX_FD}" using sub by (intro card_mono) simp_all
  then have "user_count (ep s) \<le> MAX_FD" using cnt by (simp add: MAX_FD_def)
  with inv show ?thesis by (auto simp: web_step_def web_accept_def Let_def)
qed

lemma web_runs:
  "\<exists>es s. web_start 2 ''web'' ''80'' True 3 0 0 g = (es, Done (web_begun 3 g)) \<and>
     run (web_step req error_500 3) (web_begun 3 g) [Conn 5, Conn 6, Ready 5 EPOLLRDHUP [] True] = Some s \<and>
     conns 3 (ep s) = {6} \<and> wtrace s = [Cl 5] \<and> stop s = Done ()"
proof -
  have "web_start 2 ''web'' ''80'' True 3 0 0 g =
      ([addsig SIGPIPE SIG_IGN, Call ''bind'' [3, to_int (atol ''80'')], Call ''listen'' [3, 5]], Done (web_begun 3 g))"
    by (simp add: web_start_def web_begun_def reterr_def effect_simps)
  moreover have "\<exists>s. run (web_step req error_500 3) (web_begun 3 g) [Conn 5, Conn 6, Ready 5 EPOLLRDHUP [] True] = Some s \<and>
     conns 3 (ep s) = {6} \<and> wtrace s = [Cl 5] \<and> stop s = Done ()"
    by (auto simp: web_step_def web_begun_def web_accept_def reterr_def web_ready_def web_close_def apply_comp_def
        close_conn_def removefd_def http_init_new_def http_init_def addfd_def setnonblocking_def Let_def MAX_FD_def
        EPOLL_defs conns_def effect_simps)
  ultimately show ?thesis by blast
qed


lemma web_counts_witness:
  "\<forall>req error_500 g. \<exists>s.
     run (web_step req error_500 3) (web_begun 3 g) [Conn 5, Conn 6, Ready 5 EPOLLRDHUP [] True] = Some s \<and>
     user_count (ep s) = 1 \<and> (\<exists>t. web_step req error_500 3 s (Conn (-1)) = Some t \<and> stop t = Undef)"
proof (intro allI)
  fix req error_500 g
  obtain es s where s: "web_start 2 ''web'' ''80'' True 3 0 0 g = (es, Done (web_begun 3 g))"
    "run (web_step req error_500 3) (web_begun 3 g) [Conn 5, Conn 6, Ready 5 EPOLLRDHUP [] True] = Some s"
    "conns 3 (ep s) = {6}" "stop s = Done ()" using web_runs by blast
  from web_counts [OF s(1) run_reachable [OF s(2)]] s(3,4) have
    "user_count (ep s) = 1" "\<exists>t. web_step req error_500 3 s (Conn (-1)) = Some t \<and> stop t = Undef"
    by (simp_all add: MAX_FD_def)
  with s(2) show "\<exists>s.
     run (web_step req error_500 3) (web_begun 3 g) [Conn 5, Conn 6, Ready 5 EPOLLRDHUP [] True] = Some s \<and>
     user_count (ep s) = 1 \<and> (\<exists>t. web_step req error_500 3 s (Conn (-1)) = Some t \<and> stop t = Undef)"
    by blast
qed

end
