(* ===== verification/Mutex.thy ===== *)
theory Mutex
  imports Prelude
begin

text \<open>
  A mutex and the threads that use it.  \<open>owned crit m ps\<close>: of the threads with control points \<open>ps\<close>,
  exactly the one that \<open>m\<close> names is in its critical region.  The locale \<open>mutex_system\<close> is what the
  programs of \<^verbatim>\<open>thread_synchornization\<close> promise: their invariant has it, so no reachable state has
  two threads in the critical region.
\<close>

definition owned :: "('p \<Rightarrow> bool) \<Rightarrow> nat option \<Rightarrow> 'p list \<Rightarrow> bool" where
  "owned crit m ps \<longleftrightarrow>
     (\<forall>i < length ps. crit (ps ! i) \<longleftrightarrow> m = Some i) \<and> (\<forall>i. m = Some i \<longrightarrow> i < length ps)"

lemma owned_crit: "owned crit m ps \<Longrightarrow> i < length ps \<Longrightarrow> crit (ps ! i) \<longleftrightarrow> m = Some i"
  by (simp add: owned_def)

lemma owned_lt: "owned crit (Some i) ps \<Longrightarrow> i < length ps"
  by (simp add: owned_def)

lemma owned_holder: "owned crit (Some i) ps \<Longrightarrow> crit (ps ! i)"
  by (simp add: owned_def)

lemma owned_Nil [simp]: "owned crit m [] \<longleftrightarrow> m = None"
  by (auto simp: owned_def)

lemma owned_stay: "owned crit m ps \<Longrightarrow> crit p = crit (ps ! i) \<Longrightarrow> owned crit m (ps[i := p])"
  by (cases "i < length ps") (auto simp: owned_def nth_list_update)

lemma owned_enter: "owned crit None ps \<Longrightarrow> i < length ps \<Longrightarrow> crit p \<Longrightarrow> owned crit (Some i) (ps[i := p])"
  by (auto simp: owned_def nth_list_update)

lemma owned_leave:
  "owned crit m ps \<Longrightarrow> i < length ps \<Longrightarrow> crit (ps ! i) \<Longrightarrow> \<not> crit p \<Longrightarrow> owned crit None (ps[i := p])"
  by (auto simp: owned_def nth_list_update)

lemma owned_new: "owned crit m ps \<Longrightarrow> \<not> crit p \<Longrightarrow> owned crit m (ps @ [p])"
  by (auto simp: owned_def nth_append less_Suc_eq)

lemma owned_excl:
  "owned crit m ps \<Longrightarrow> i < length ps \<Longrightarrow> j < length ps \<Longrightarrow> crit (ps ! i) \<Longrightarrow> crit (ps ! j) \<Longrightarrow> i = j"
  by (simp add: owned_def)

locale mutex_system = safe_system step s0 inv
  for step :: "'s \<Rightarrow> 'l \<Rightarrow> 's option" and s0 :: 's and inv :: "'s \<Rightarrow> bool" +
  fixes crit :: "'p \<Rightarrow> bool" and holder :: "'s \<Rightarrow> nat option" and pcs :: "'s \<Rightarrow> 'p list"
  assumes inv_owned: "inv s \<Longrightarrow> owned crit (holder s) (pcs s)"
begin

lemma exclusion:
  "reachable step s0 s \<Longrightarrow> i < length (pcs s) \<Longrightarrow> j < length (pcs s) \<Longrightarrow>
     crit (pcs s ! i) \<Longrightarrow> crit (pcs s ! j) \<Longrightarrow> i = j"
  using inv_owned [OF inv_reachable] by (rule owned_excl)

lemma held: "reachable step s0 s \<Longrightarrow> i < length (pcs s) \<Longrightarrow> crit (pcs s ! i) \<Longrightarrow> holder s = Some i"
  using owned_crit [OF inv_owned [OF inv_reachable]] by blast

end

text \<open>A property of single control points after one of them has changed.\<close>

lemma ball_update: "\<forall>p\<in>set ps. P p \<Longrightarrow> P q \<Longrightarrow> \<forall>p\<in>set (ps[i := q]). P p"
  using set_update_subset_insert [of ps i q] by blast

lemma not_in_update [simp]: "p \<notin> set ps \<Longrightarrow> q \<noteq> p \<Longrightarrow> p \<notin> set (ps[i := q])"
  using set_update_subset_insert [of ps i q] by blast

lemma ball_update_other:
  assumes "\<And>j. j < length ps \<Longrightarrow> j \<noteq> i \<Longrightarrow> P (ps ! j)" "P q"
  shows "\<forall>p\<in>set (ps[i := q]). P p"
proof
  fix p assume "p \<in> set (ps[i := q])"
  then obtain j where j: "j < length ps" "p = ps[i := q] ! j" by (auto simp: in_set_conv_nth)
  then show "P p" using assms by (cases "j = i") simp_all
qed

text \<open>Sums over the threads, for the measures.\<close>

lemma sum_list_update_nat:
  fixes f :: "'p \<Rightarrow> nat"
  shows "i < length ps \<Longrightarrow> sum_list (map f (ps[i := p])) + f (ps ! i) = sum_list (map f ps) + f p"
proof (induction ps arbitrary: i)
  case (Cons q ps)
  then show ?case
  proof (cases i)
    case (Suc k)
    with Cons.IH [of k] Cons.prems show ?thesis by simp
  qed simp
qed simp

end
