(* ===== verification/ThreadPool.thy ===== *)
theory ThreadPool
  imports Mutex CString "HOL-Library.Multiset"
begin

text \<open>
  The thread pool of the web server (\<^verbatim>\<open>thread_pool.h\<close>) with the wrappers of \<^verbatim>\<open>locker.h\<close> it uses: a queue
  of requests under a mutex, a semaphore that counts them, one thread that appends (thread 0, the
  main thread of the server) and \<open>thread_Num\<close> workers, one statement per step.  A request is an
  address, 0 the null pointer.  \<open>accepted\<close>, \<open>taken\<close>, \<open>processed\<close> and \<open>skipped\<close> are histories.
\<close>

section \<open>locker.h\<close>

datatype 'a exn = Throw | Value 'a

text \<open>The constructors, with the result of the \<open>init\<close> call.\<close>

definition Locker_ctor :: "int \<Rightarrow> nat option exn" where
  "Locker_ctor r = (if 0 \<noteq> r then Throw else Value None)"

definition Semaphore_ctor :: "nat \<Rightarrow> int \<Rightarrow> nat exn" where
  "Semaphore_ctor num r = (if r \<noteq> 0 then Throw else Value num)"

text \<open>A semicolon ends the \<open>if\<close>, so that the \<open>throw\<close> is unconditional.\<close>

definition Condition_ctor :: "int \<Rightarrow> unit exn" where
  "Condition_ctor r = (let nothing = (if r \<noteq> 0 then () else ()) in Throw)"

definition Locker_lock :: "nat \<Rightarrow> nat option \<Rightarrow> nat option option" where
  "Locker_lock i m = (if m = None then Some (Some i) else None)"

definition Locker_unlock :: "nat option \<Rightarrow> nat option" where
  "Locker_unlock m = None"

definition Semaphore_wait :: "nat \<Rightarrow> nat option" where
  "Semaphore_wait n = (if 0 < n then Some (n - 1) else None)"

definition Semaphore_post :: "nat \<Rightarrow> nat" where
  "Semaphore_post n = n + 1"

section \<open>The pool\<close>

datatype ppc =
    AIdle | ALock nat | ASize nat | APush nat | AFull | AUnlock | APost | AGone
  | RStop | RWait | RLock | REmpty | RUnlockEmpty | RFront | RPop nat | RUnlock nat | RNull nat | RProcess nat | ROver

record pool =
  workQueue :: "nat list"
  queueLocker :: "nat option"
  queseStat :: nat
  m_stop :: bool
  freed :: bool
  pcs :: "ppc list"
  accepted :: "nat list"
  refused :: "nat list"
  taken :: "nat list"
  processed :: "nat list"
  skipped :: nat
  fault :: bool

definition pgo :: "nat \<Rightarrow> ppc \<Rightarrow> pool \<Rightarrow> pool" where
  "pgo i p s = s\<lparr>pcs := (pcs s)[i := p]\<rparr>"

definition pool_init :: "nat \<Rightarrow> pool" where
  "pool_init n = \<lparr>workQueue = [], queueLocker = None, queseStat = 0, m_stop = False, freed = False,
     pcs = AIdle # replicate n RStop, accepted = [], refused = [], taken = [], processed = [], skipped = 0,
     fault = False\<rparr>"

text \<open>The constructor; \<open>rs i\<close> are the results of \<open>pthread_create\<close> and \<open>pthread_detach\<close> for thread \<open>i\<close>.\<close>

definition created_line :: "nat \<Rightarrow> event" where
  "created_line i = Out (''created the'' @ show_int (int i) @ ''th thread'' @ NL)"

fun start_threads :: "nat \<Rightarrow> nat \<Rightarrow> (nat \<Rightarrow> int \<times> int) \<Rightarrow> event list \<times> bool" where
  "start_threads i 0 rs = ([], True)"
| "start_threads i (Suc n) rs =
     (case rs i of (c, d) \<Rightarrow>
        if 0 \<noteq> c then ([created_line i], False)
        else if d \<noteq> 0 then ([created_line i], False)
        else case start_threads (Suc i) n rs of (es, ok) \<Rightarrow> (created_line i # es, ok))"

definition Thread_pool_ctor :: "int \<Rightarrow> int \<Rightarrow> (nat \<Rightarrow> int \<times> int) \<Rightarrow> event list \<times> pool exn" where
  "Thread_pool_ctor thread_Num max_Request rs =
     (if thread_Num \<le> 0 \<or> max_Request \<le> 0 then ([], Throw)
      else case start_threads 0 (nat thread_Num) rs of
             (es, ok) \<Rightarrow> (es, if ok then Value (pool_init (nat thread_Num)) else Throw))"

text \<open>The pool is made exactly when the two numbers are positive and no call fails; else the thread that cannot be
  made is the last one announced.\<close>

lemma start_threads_eq:
  "start_threads i n rs =
     (case find (\<lambda>j. rs j \<noteq> (0, 0)) [i..<i + n] of
        None \<Rightarrow> (map created_line [i..<i + n], True)
      | Some j \<Rightarrow> (map created_line [i..<Suc j], False))"
proof (induction i n rs rule: start_threads.induct)
  case (2 i n rs)
  have up: "[i..<i + Suc n] = i # [Suc i..<Suc i + n]" by (simp add: upt_conv_Cons del: upt_Suc)
  have more: "[i..<Suc j] = i # [Suc i..<Suc j]" if "find (\<lambda>j. rs j \<noteq> (0, 0)) [Suc i..<Suc i + n] = Some j" for j
  proof -
    from that have "j \<in> set [Suc i..<Suc i + n]" unfolding find_Some_iff by (metis nth_mem)
    then show ?thesis by (simp add: upt_conv_Cons del: upt_Suc)
  qed
  show ?case
  proof (cases "rs i = (0, 0)")
    case True
    then show ?thesis using 2 [OF True [symmetric]] more unfolding up
      by (auto simp del: upt_Suc split: option.splits)
  next
    case False
    then show ?thesis unfolding up by (cases "rs i") auto
  qed
qed simp

lemma Thread_pool_ctor_Value:
  "snd (Thread_pool_ctor n m rs) = Value p \<longleftrightarrow> 0 < n \<and> 0 < m \<and> (\<forall>i < nat n. rs i = (0, 0)) \<and> p = pool_init (nat n)"
  by (auto simp: Thread_pool_ctor_def start_threads_eq find_None_iff find_Some_iff split: option.splits)

text \<open>\<open>append\<close>, from its call on.\<close>

definition append_step :: "nat \<Rightarrow> pool \<Rightarrow> pool option" where
  "append_step max_Request s =
     (case pcs s ! 0 of
        ALock r \<Rightarrow> map_option (\<lambda>m. pgo 0 (ASize r) (s\<lparr>queueLocker := m\<rparr>)) (Locker_lock 0 (queueLocker s))
      | ASize r \<Rightarrow> Some (if max_Request < length (workQueue s) then pgo 0 AFull (s\<lparr>refused := refused s @ [r]\<rparr>)
                        else pgo 0 (APush r) s)
      | AFull \<Rightarrow> Some (pgo 0 AIdle (s\<lparr>queueLocker := Locker_unlock (queueLocker s)\<rparr>))
      | APush r \<Rightarrow> Some (pgo 0 AUnlock (s\<lparr>workQueue := workQueue s @ [r], accepted := accepted s @ [r]\<rparr>))
      | AUnlock \<Rightarrow> Some (pgo 0 APost (s\<lparr>queueLocker := Locker_unlock (queueLocker s)\<rparr>))
      | APost \<Rightarrow> Some (pgo 0 AIdle (s\<lparr>queseStat := Semaphore_post (queseStat s)\<rparr>))
      | _ \<Rightarrow> None)"

text \<open>\<open>run\<close> of one worker.  Once the pool is deleted, whatever it does with it is undefined.\<close>

definition run_step :: "nat \<Rightarrow> pool \<Rightarrow> pool option" where
  "run_step i s =
     (if freed s \<and> pcs s ! i \<noteq> ROver \<and> (\<forall>r. pcs s ! i \<noteq> RNull r \<and> pcs s ! i \<noteq> RProcess r)
      then Some (s\<lparr>fault := True\<rparr>)
      else case pcs s ! i of
        RStop \<Rightarrow> Some (pgo i (if m_stop s then ROver else RWait) s)
      | RWait \<Rightarrow> map_option (\<lambda>n. pgo i RLock (s\<lparr>queseStat := n\<rparr>)) (Semaphore_wait (queseStat s))
      | RLock \<Rightarrow> map_option (\<lambda>m. pgo i REmpty (s\<lparr>queueLocker := m\<rparr>)) (Locker_lock i (queueLocker s))
      | REmpty \<Rightarrow> Some (pgo i (if workQueue s = [] then RUnlockEmpty else RFront) s)
      | RUnlockEmpty \<Rightarrow> Some (pgo i RStop (s\<lparr>queueLocker := Locker_unlock (queueLocker s)\<rparr>))
      | RFront \<Rightarrow> Some (case workQueue s of [] \<Rightarrow> s\<lparr>fault := True\<rparr> | r # rs \<Rightarrow> pgo i (RPop r) s)
      | RPop r \<Rightarrow> Some (case workQueue s of [] \<Rightarrow> s\<lparr>fault := True\<rparr>
                       | q # qs \<Rightarrow> pgo i (RUnlock r) (s\<lparr>workQueue := qs, taken := taken s @ [q]\<rparr>))
      | RUnlock r \<Rightarrow> Some (pgo i (RNull r) (s\<lparr>queueLocker := Locker_unlock (queueLocker s)\<rparr>))
      | RNull r \<Rightarrow> Some (if r = 0 then pgo i RStop (s\<lparr>skipped := skipped s + 1\<rparr>) else pgo i (RProcess r) s)
      | RProcess r \<Rightarrow> Some (pgo i RStop (s\<lparr>processed := processed s @ [r]\<rparr>))
      | _ \<Rightarrow> None)"

text \<open>\<open>Append r\<close>: the server calls \<open>append\<close>.  \<open>Delete\<close>: it deletes the pool.  \<open>Turn i\<close>: thread \<open>i\<close> makes a step.\<close>

datatype plabel = Append nat | Delete | Turn nat

definition pool_step :: "nat \<Rightarrow> pool \<Rightarrow> plabel \<Rightarrow> pool option" where
  "pool_step max_Request s l =
     (if fault s then None
      else case l of
        Append r \<Rightarrow> (if pcs s ! 0 = AIdle then Some (pgo 0 (ALock r) s) else None)
      | Delete \<Rightarrow> (if pcs s ! 0 = AIdle then Some (pgo 0 AGone (s\<lparr>m_stop := True, freed := True\<rparr>)) else None)
      | Turn i \<Rightarrow> (if i = 0 then append_step max_Request s else if i < length (pcs s) then run_step i s else None))"

section \<open>Invariant\<close>

definition pcrit :: "ppc \<Rightarrow> bool" where
  "pcrit p = (case p of ASize _ \<Rightarrow> True | APush _ \<Rightarrow> True | AFull \<Rightarrow> True | AUnlock \<Rightarrow> True
     | REmpty \<Rightarrow> True | RUnlockEmpty \<Rightarrow> True | RFront \<Rightarrow> True | RPop _ \<Rightarrow> True | RUnlock _ \<Rightarrow> True | _ \<Rightarrow> False)"

text \<open>Threads that answer for one request of the queue: a worker that has waited for it and has not taken it
  yet, the appending thread before it posts.\<close>

definition stake :: "ppc \<Rightarrow> nat" where
  "stake p = (case p of RLock \<Rightarrow> 1 | REmpty \<Rightarrow> 1 | RFront \<Rightarrow> 1 | RPop _ \<Rightarrow> 1 | AUnlock \<Rightarrow> 1 | APost \<Rightarrow> 1 | _ \<Rightarrow> 0)"

definition inhand :: "ppc \<Rightarrow> nat multiset" where
  "inhand p = (case p of RUnlock r \<Rightarrow> {#r#} | RNull r \<Rightarrow> {#r#} | RProcess r \<Rightarrow> {#r#} | _ \<Rightarrow> {#})"

definition appender :: "ppc \<Rightarrow> bool" where
  "appender p = (case p of AIdle \<Rightarrow> True | ALock _ \<Rightarrow> True | ASize _ \<Rightarrow> True | APush _ \<Rightarrow> True | AFull \<Rightarrow> True
     | AUnlock \<Rightarrow> True | APost \<Rightarrow> True | AGone \<Rightarrow> True | _ \<Rightarrow> False)"

lemma ppc_simps [simp]:
  "pcrit (ASize r)" "pcrit (APush r)" "pcrit AFull" "pcrit AUnlock" "pcrit REmpty" "pcrit RUnlockEmpty"
  "pcrit RFront" "pcrit (RPop r)" "pcrit (RUnlock r)" "\<not> pcrit AIdle" "\<not> pcrit (ALock r)" "\<not> pcrit APost"
  "\<not> pcrit AGone" "\<not> pcrit RStop" "\<not> pcrit RWait" "\<not> pcrit RLock" "\<not> pcrit (RNull r)" "\<not> pcrit (RProcess r)"
  "\<not> pcrit ROver"
  "stake (ASize r) = 0" "stake (APush r) = 0" "stake AFull = 0" "stake AUnlock = 1" "stake REmpty = 1"
  "stake RUnlockEmpty = 0" "stake RFront = 1" "stake (RPop r) = 1" "stake (RUnlock r) = 0" "stake AIdle = 0"
  "stake (ALock r) = 0" "stake APost = 1" "stake AGone = 0" "stake RStop = 0" "stake RWait = 0" "stake RLock = 1"
  "stake (RNull r) = 0" "stake (RProcess r) = 0" "stake ROver = 0"
  "inhand (ASize r) = {#}" "inhand (APush r) = {#}" "inhand AFull = {#}" "inhand AUnlock = {#}"
  "inhand REmpty = {#}" "inhand RUnlockEmpty = {#}" "inhand RFront = {#}" "inhand (RPop r) = {#}"
  "inhand (RUnlock r) = {#r#}" "inhand AIdle = {#}" "inhand (ALock r) = {#}" "inhand APost = {#}"
  "inhand AGone = {#}" "inhand RStop = {#}" "inhand RWait = {#}" "inhand RLock = {#}" "inhand (RNull r) = {#r#}"
  "inhand (RProcess r) = {#r#}" "inhand ROver = {#}"
  "appender (ASize r)" "appender (APush r)" "appender AFull" "appender AUnlock" "\<not> appender REmpty"
  "\<not> appender RUnlockEmpty" "\<not> appender RFront" "\<not> appender (RPop r)" "\<not> appender (RUnlock r)" "appender AIdle"
  "appender (ALock r)" "appender APost" "appender AGone" "\<not> appender RStop" "\<not> appender RWait" "\<not> appender RLock"
  "\<not> appender (RNull r)" "\<not> appender (RProcess r)" "\<not> appender ROver"
  by (simp_all add: pcrit_def stake_def inhand_def appender_def)

definition stakes :: "pool \<Rightarrow> nat" where
  "stakes s = sum_list (map stake (pcs s))"

definition hands :: "pool \<Rightarrow> nat multiset" where
  "hands s = sum_list (map inhand (pcs s))"

definition roles :: "pool \<Rightarrow> bool" where
  "roles s \<longleftrightarrow> pcs s \<noteq> [] \<and> (\<forall>i < length (pcs s). appender (pcs s ! i) \<longleftrightarrow> i = 0)"

definition points_ok :: "nat \<Rightarrow> nat list \<Rightarrow> ppc \<Rightarrow> bool" where
  "points_ok max_Request q p = (case p of APush _ \<Rightarrow> length q \<le> max_Request | RPop r \<Rightarrow> take 1 q = [r] | RUnlockEmpty \<Rightarrow> False
     | RProcess r \<Rightarrow> r \<noteq> 0 | _ \<Rightarrow> True)"

definition pool_inv :: "nat \<Rightarrow> pool \<Rightarrow> bool" where
  "pool_inv max_Request s \<longleftrightarrow> roles s \<and> owned pcrit (queueLocker s) (pcs s) \<and>
     queseStat s + stakes s = length (workQueue s) \<and> accepted s = taken s @ workQueue s \<and>
     mset (taken s) = mset (processed s) + replicate_mset (skipped s) 0 + hands s \<and>
     length (workQueue s) \<le> max_Request + 1 \<and> (\<forall>p\<in>set (pcs s). points_ok max_Request (workQueue s) p) \<and>
     0 \<notin> set (processed s) \<and> (fault s \<longrightarrow> freed s)"

lemma sum_list_update_comm:
  fixes f :: "'p \<Rightarrow> 'a::comm_monoid_add"
  shows "i < length ps \<Longrightarrow> sum_list (map f (ps[i := p])) + f (ps ! i) = sum_list (map f ps) + f p"
proof (induction ps arbitrary: i)
  case (Cons q ps)
  then show ?case
  proof (cases i)
    case (Suc k)
    with Cons.IH [of k] Cons.prems show ?thesis by (simp add: add.assoc)
  qed (simp add: add.commute add.left_commute)
qed simp

lemma pgo_simps [simp]:
  "pcs (pgo i p s) = (pcs s)[i := p]" "workQueue (pgo i p s) = workQueue s" "queueLocker (pgo i p s) = queueLocker s"
  "queseStat (pgo i p s) = queseStat s" "m_stop (pgo i p s) = m_stop s" "freed (pgo i p s) = freed s"
  "accepted (pgo i p s) = accepted s" "taken (pgo i p s) = taken s" "processed (pgo i p s) = processed s"
  "skipped (pgo i p s) = skipped s" "fault (pgo i p s) = fault s"
  by (simp_all add: pgo_def)

lemma stakes_move: "pcs t = (pcs s)[i := p] \<Longrightarrow> i < length (pcs s) \<Longrightarrow> stakes t + stake (pcs s ! i) = stakes s + stake p"
  by (simp add: stakes_def sum_list_update_comm)

lemma hands_move: "pcs t = (pcs s)[i := p] \<Longrightarrow> i < length (pcs s) \<Longrightarrow> hands t + inhand (pcs s ! i) = hands s + inhand p"
  by (simp add: hands_def sum_list_update_comm)

lemma roles_move:
  "roles s \<Longrightarrow> pcs t = (pcs s)[i := p] \<Longrightarrow> appender p = appender (pcs s ! i) \<Longrightarrow> roles t"
  by (cases "i < length (pcs s)") (auto simp: roles_def nth_list_update)

lemma stakes_ge: "i < length (pcs s) \<Longrightarrow> stake (pcs s ! i) \<le> stakes s"
  by (simp add: stakes_def member_le_sum_list)

text \<open>A step of thread \<open>i\<close> to \<open>p\<close> that leaves the queue and the histories alone.\<close>

lemma pool_inv_quiet:
  assumes "pool_inv max_Request s" "i < length (pcs s)" "pcs t = (pcs s)[i := p]" "appender p = appender (pcs s ! i)"
    and "owned pcrit (queueLocker t) (pcs t)" "queseStat t + stake p = queseStat s + stake (pcs s ! i)"
    and "workQueue t = workQueue s" "accepted t = accepted s" "taken t = taken s" "processed t = processed s"
    and "inhand p + replicate_mset (skipped t) 0 = inhand (pcs s ! i) + replicate_mset (skipped s) 0"
    and "points_ok max_Request (workQueue s) p" "fault t \<longrightarrow> freed t"
  shows "pool_inv max_Request t"
proof -
  note inv = assms(1) [unfolded pool_inv_def]
  have "queseStat s + stakes s = length (workQueue s)" using inv by blast
  then have "queseStat t + stakes t = length (workQueue t)"
    using stakes_move [OF assms(3,2)] assms(6) unfolding assms(7) by linarith
  moreover have "mset (taken t) = mset (processed t) + replicate_mset (skipped t) 0 + hands t"
  proof -
    have "replicate_mset (skipped t) 0 + hands t + inhand (pcs s ! i) =
        (inhand p + replicate_mset (skipped t) 0) + hands s"
      using hands_move [OF assms(3,2)] by (simp add: ac_simps)
    also have "\<dots> = replicate_mset (skipped s) 0 + hands s + inhand (pcs s ! i)"
      unfolding assms(11) by (simp add: ac_simps)
    finally have "replicate_mset (skipped t) 0 + hands t = replicate_mset (skipped s) 0 + hands s"
      by (rule add_right_imp_eq)
    with inv show ?thesis unfolding assms(9,10) by (simp add: add.assoc)
  qed
  moreover have "\<forall>p\<in>set (pcs t). points_ok max_Request (workQueue t) p"
    unfolding assms(3,7) using inv assms(12) by (intro ball_update) auto
  ultimately show ?thesis
    using inv roles_move [OF _ assms(3,4)] assms by (simp add: pool_inv_def)
qed

text \<open>The same, for the two steps that change the queue.\<close>

lemma pool_inv_push:
  assumes "pool_inv max_Request s" "pcs s ! 0 = APush r"
  shows "pool_inv max_Request (pgo 0 AUnlock (s\<lparr>workQueue := workQueue s @ [r], accepted := accepted s @ [r]\<rparr>))"
    (is "pool_inv _ ?t")
proof -
  note inv = assms(1) [unfolded pool_inv_def]
  have i: "0 < length (pcs s)" using inv by (simp add: roles_def)
  then have "points_ok max_Request (workQueue s) (APush r)" using inv assms(2) nth_mem by metis
  then have len: "length (workQueue s) \<le> max_Request" by (simp add: points_ok_def)
  have lock: "queueLocker s = Some 0"
    using inv owned_crit [of pcrit "queueLocker s" "pcs s" 0] i assms(2) by simp
  have p: "pcs ?t = (pcs s)[0 := AUnlock]" by simp
  have own: "owned pcrit (queueLocker ?t) (pcs ?t)" using inv assms(2) by (simp add: owned_stay)
  have others: "\<forall>p\<in>set (pcs ?t). points_ok max_Request (workQueue ?t) p"
    unfolding p
  proof (rule ball_update_other)
    fix j assume j: "j < length (pcs s)" "j \<noteq> 0"
    with lock inv owned_crit [of pcrit "queueLocker s" "pcs s" j] have "\<not> pcrit (pcs s ! j)" by simp
    moreover have "points_ok max_Request (workQueue s) (pcs s ! j)" using inv j by simp
    ultimately show "points_ok max_Request (workQueue ?t) (pcs s ! j)"
      by (cases "pcs s ! j") (simp_all add: points_ok_def)
  qed (simp add: points_ok_def)
  have "stakes ?t = stakes s + 1" using stakes_move [OF p i] assms(2) by simp
  moreover have "hands ?t = hands s" using hands_move [OF p i] assms(2) by simp
  ultimately show ?thesis using inv len own others roles_move [OF _ p] assms(2)
    by (simp add: pool_inv_def)
qed

lemma pool_inv_pop:
  assumes "pool_inv max_Request s" "i < length (pcs s)" "pcs s ! i = RPop r" "workQueue s = q # qs"
  shows "pool_inv max_Request (pgo i (RUnlock r) (s\<lparr>workQueue := qs, taken := taken s @ [q]\<rparr>))"
    (is "pool_inv _ ?t")
proof -
  note inv = assms(1) [unfolded pool_inv_def]
  have "points_ok max_Request (workQueue s) (RPop r)" using inv assms(2,3) nth_mem by metis
  then have q: "q = r" using assms(4) by (simp add: points_ok_def)
  have lock: "queueLocker s = Some i"
    using inv owned_crit [of pcrit "queueLocker s" "pcs s" i] assms(2,3) by simp
  have p: "pcs ?t = (pcs s)[i := RUnlock r]" by simp
  have own: "owned pcrit (queueLocker ?t) (pcs ?t)" using inv assms(3) by (simp add: owned_stay)
  have others: "\<forall>p\<in>set (pcs ?t). points_ok max_Request (workQueue ?t) p"
    unfolding p
  proof (rule ball_update_other)
    fix j assume j: "j < length (pcs s)" "j \<noteq> i"
    with lock inv owned_crit [of pcrit "queueLocker s" "pcs s" j] have "\<not> pcrit (pcs s ! j)" by simp
    moreover have "points_ok max_Request (workQueue s) (pcs s ! j)" using inv j by simp
    ultimately show "points_ok max_Request (workQueue ?t) (pcs s ! j)"
      by (cases "pcs s ! j") (simp_all add: points_ok_def)
  qed (simp add: points_ok_def)
  have "stakes ?t + 1 = stakes s" using stakes_move [OF p assms(2)] assms(3) by simp
  moreover have "hands ?t = hands s + {#r#}" using hands_move [OF p assms(2)] assms(3) by simp
  ultimately show ?thesis using inv own others roles_move [OF _ p] assms(3,4) q
    by (simp add: pool_inv_def)
qed

lemmas locker_defs = Locker_lock_def Locker_unlock_def Semaphore_wait_def Semaphore_post_def

lemma append_inv:
  assumes "pool_inv max_Request s" "append_step max_Request s = Some t"
  shows "pool_inv max_Request t"
proof -
  note inv = assms(1) [unfolded pool_inv_def]
  have i: "0 < length (pcs s)" using inv by (simp add: roles_def)
  note own = owned_crit [of pcrit "queueLocker s" "pcs s" 0]
  note quiet = pool_inv_quiet [OF assms(1) i]
  show ?thesis
  proof (cases "pcs s ! 0")
    case (ALock r)
    with assms(2) have t: "t = pgo 0 (ASize r) (s\<lparr>queueLocker := Some 0\<rparr>)" "queueLocker s = None"
      by (auto simp: append_step_def locker_defs split: if_splits)
    show ?thesis by (rule quiet) (use t inv i ALock in \<open>auto simp: points_ok_def owned_enter\<close>)
  next
    case (ASize r)
    with assms(2) have t: "t = (if max_Request < length (workQueue s) then pgo 0 AFull (s\<lparr>refused := refused s @ [r]\<rparr>)
                                else pgo 0 (APush r) s)"
      by (simp add: append_step_def)
    show ?thesis by (rule quiet [where p = "if max_Request < length (workQueue s) then AFull else APush r"])
       (use t inv ASize in \<open>auto simp: points_ok_def owned_stay\<close>)
  next
    case AFull
    with assms(2) have t: "t = pgo 0 AIdle (s\<lparr>queueLocker := None\<rparr>)"
      by (simp add: append_step_def locker_defs)
    show ?thesis by (rule quiet) (use t inv i AFull in \<open>auto simp: points_ok_def intro: owned_leave\<close>)
  next
    case (APush r)
    with assms show ?thesis by (auto simp: append_step_def intro: pool_inv_push)
  next
    case AUnlock
    with assms(2) have t: "t = pgo 0 APost (s\<lparr>queueLocker := None\<rparr>)"
      by (simp add: append_step_def locker_defs)
    show ?thesis by (rule quiet) (use t inv i AUnlock in \<open>auto simp: points_ok_def intro: owned_leave\<close>)
  next
    case APost
    with assms(2) have t: "t = pgo 0 AIdle (s\<lparr>queseStat := queseStat s + 1\<rparr>)"
      by (simp add: append_step_def locker_defs)
    show ?thesis by (rule quiet) (use t inv APost in \<open>auto simp: points_ok_def owned_stay\<close>)
  qed (use assms(2) in \<open>simp_all add: append_step_def\<close>)
qed

text \<open>A worker that has waited finds the queue not empty.\<close>

lemma stake_nonempty:
  assumes "pool_inv max_Request s" "i < length (pcs s)" "stake (pcs s ! i) = 1"
  shows "workQueue s \<noteq> []"
proof -
  have "queseStat s + stakes s = length (workQueue s)" using assms(1) by (simp add: pool_inv_def)
  with stakes_ge [OF assms(2)] assms(3) show ?thesis by auto
qed

lemma run_inv:
  assumes "pool_inv max_Request s" "0 < i" "i < length (pcs s)" "run_step i s = Some t"
  shows "pool_inv max_Request t"
proof (cases "freed s \<and> pcs s ! i \<noteq> ROver \<and> (\<forall>r. pcs s ! i \<noteq> RNull r \<and> pcs s ! i \<noteq> RProcess r)")
  case True
  with assms(4) have "t = s\<lparr>fault := True\<rparr>" by (simp add: run_step_def)
  with True assms(1) show ?thesis by (simp add: pool_inv_def roles_def stakes_def hands_def)
next
  case False
  note inv = assms(1) [unfolded pool_inv_def]
  have app: "\<not> appender (pcs s ! i)" using inv assms(2,3) by (simp add: roles_def)
  note quiet = pool_inv_quiet [OF assms(1,3)]
  note step = assms(4) [unfolded run_step_def if_not_P [OF False]]
  show ?thesis
  proof (cases "pcs s ! i")
    case RStop
    then show ?thesis by (intro quiet [where p = "if m_stop s then ROver else RWait"])
      (use step inv RStop in \<open>auto simp: points_ok_def owned_stay\<close>)
  next
    case RWait
    then have "t = pgo i RLock (s\<lparr>queseStat := queseStat s - 1\<rparr>)" "0 < queseStat s"
      using step by (auto simp: locker_defs split: if_splits)
    then show ?thesis by (intro quiet [where p = RLock]) (use inv RWait in \<open>auto simp: points_ok_def owned_stay\<close>)
  next
    case RLock
    then have "t = pgo i REmpty (s\<lparr>queueLocker := Some i\<rparr>)" "queueLocker s = None"
      using step by (auto simp: locker_defs split: if_splits)
    then show ?thesis by (intro quiet [where p = REmpty]) (use inv RLock assms(3) in \<open>auto simp: points_ok_def owned_enter\<close>)
  next
    case REmpty
    then have "workQueue s \<noteq> []" using stake_nonempty [OF assms(1,3)] by simp
    then have "t = pgo i RFront s" using step REmpty by simp
    then show ?thesis by (intro quiet [where p = RFront]) (use inv REmpty in \<open>auto simp: points_ok_def owned_stay\<close>)
  next
    case RUnlockEmpty
    have "points_ok max_Request (workQueue s) RUnlockEmpty" using inv assms(3) RUnlockEmpty nth_mem by metis
    then show ?thesis by (simp add: points_ok_def)
  next
    case RFront
    then have "workQueue s \<noteq> []" using stake_nonempty [OF assms(1,3)] by simp
    then obtain q qs where "workQueue s = q # qs" by (cases "workQueue s") auto
    with step RFront have "t = pgo i (RPop q) s" by simp
    then show ?thesis
      by (intro quiet [where p = "RPop q"]) (use inv RFront \<open>workQueue s = q # qs\<close> in \<open>auto simp: points_ok_def owned_stay\<close>)
  next
    case (RPop r)
    then have "workQueue s \<noteq> []" using stake_nonempty [OF assms(1,3)] by simp
    then obtain q qs where "workQueue s = q # qs" by (cases "workQueue s") auto
    with step RPop pool_inv_pop [OF assms(1,3) RPop] show ?thesis by simp
  next
    case (RUnlock r)
    then have "t = pgo i (RNull r) (s\<lparr>queueLocker := None\<rparr>)" using step by (simp add: locker_defs)
    then show ?thesis by (intro quiet [where p = "RNull r"])
      (use inv RUnlock assms(3) in \<open>auto simp: points_ok_def intro: owned_leave\<close>)
  next
    case (RNull r)
    show ?thesis
    proof (cases "r = 0")
      case True
      then have "t = pgo i RStop (s\<lparr>skipped := skipped s + 1\<rparr>)" using step RNull by simp
      then show ?thesis by (intro quiet [where p = RStop]) (use inv RNull True in \<open>auto simp: points_ok_def owned_stay\<close>)
    next
      case False
      then have "t = pgo i (RProcess r) s" using step RNull by simp
      then show ?thesis by (intro quiet [where p = "RProcess r"]) (use inv RNull False in \<open>auto simp: points_ok_def owned_stay\<close>)
    qed
  next
    case (RProcess r)
    let ?t = "pgo i RStop (s\<lparr>processed := processed s @ [r]\<rparr>)"
    have t: "t = ?t" using step RProcess by simp
    have p: "pcs ?t = (pcs s)[i := RStop]" by simp
    have "points_ok max_Request (workQueue s) (RProcess r)" using inv assms(3) RProcess nth_mem by metis
    then have "r \<noteq> 0" by (simp add: points_ok_def)
    moreover have "hands s = hands ?t + {#r#}" using hands_move [OF p assms(3)] RProcess by simp
    moreover have "stakes ?t = stakes s" using stakes_move [OF p assms(3)] RProcess by simp
    moreover have "\<forall>q\<in>set (pcs ?t). points_ok max_Request (workQueue s) q"
      unfolding p using inv by (intro ball_update) (auto simp: points_ok_def)
    ultimately show ?thesis unfolding t using inv roles_move [OF _ p] RProcess
      by (simp add: pool_inv_def owned_stay)
  qed (use step app in simp_all)
qed

lemma pool_inv_step: "pool_inv max_Request s \<Longrightarrow> pool_step max_Request s l = Some t \<Longrightarrow> pool_inv max_Request t"
proof (cases l)
  case (Append r)
  assume inv: "pool_inv max_Request s" and "pool_step max_Request s l = Some t"
  then have t: "t = pgo 0 (ALock r) s" "pcs s ! 0 = AIdle" "0 < length (pcs s)"
    using Append by (auto simp: pool_step_def pool_inv_def roles_def split: if_splits)
  show ?thesis
    by (rule pool_inv_quiet [OF inv t(3)]) (use t inv in \<open>auto simp: pool_inv_def points_ok_def owned_stay\<close>)
next
  case Delete
  assume inv: "pool_inv max_Request s" and "pool_step max_Request s l = Some t"
  then have t: "t = pgo 0 AGone (s\<lparr>m_stop := True, freed := True\<rparr>)" "pcs s ! 0 = AIdle" "0 < length (pcs s)"
    using Delete by (auto simp: pool_step_def pool_inv_def roles_def split: if_splits)
  show ?thesis
    by (rule pool_inv_quiet [OF inv t(3)]) (use t inv in \<open>auto simp: pool_inv_def points_ok_def owned_stay\<close>)
next
  case (Turn i)
  assume "pool_inv max_Request s" "pool_step max_Request s l = Some t"
  with Turn show ?thesis
    by (auto simp: pool_step_def split: if_splits intro: append_inv run_inv)
qed

lemma sum_list_replicate_empty [simp]: "sum_list (replicate n {#}) = {#}"
  by (induction n) simp_all

lemma pool_inv_init: "pool_inv max_Request (pool_init n)"
proof -
  have "appender ((AIdle # replicate n RStop) ! i) \<longleftrightarrow> i = 0" if "i < Suc n" for i
    using that by (cases i) simp_all
  moreover have "owned pcrit None (AIdle # replicate n RStop)"
    unfolding owned_def by (simp add: nth_Cons split: nat.split)
  ultimately show ?thesis
    by (simp add: pool_inv_def pool_init_def roles_def stakes_def hands_def points_ok_def)
qed

interpretation tp: safe_system "pool_step max_Request" "pool_init n" "pool_inv max_Request"
  by unfold_locales (rule pool_inv_init, rule pool_inv_step)

interpretation tpm: mutex_system "pool_step max_Request" "pool_init n" "pool_inv max_Request" pcrit queueLocker pcs
  by unfold_locales (simp add: pool_inv_def)

section \<open>Properties\<close>

text \<open>Claim C26.  The pool loses and invents nothing: the accepted requests are, in order, those taken and those
  still queued; every request taken has been processed once, skipped as null, or is with one worker;
  the semaphore counts the queue but for the workers that have waited and an \<open>append\<close> still to post;
  no worker finds the queue empty; and nothing undefined happens before the pool is deleted.\<close>

theorem pool_exact:
  assumes "reachable (pool_step max_Request) (pool_init n) s"
  shows "accepted s = taken s @ workQueue s \<and>
    mset (taken s) = mset (processed s) + replicate_mset (skipped s) 0 + hands s \<and>
    queseStat s + stakes s = length (workQueue s) \<and>
    RUnlockEmpty \<notin> set (pcs s) \<and> 0 \<notin> set (processed s) \<and> (fault s \<longrightarrow> freed s)"
proof -
  have inv: "pool_inv max_Request s" using assms by (rule tp.inv_reachable)
  then have "RUnlockEmpty \<notin> set (pcs s)" by (auto simp: pool_inv_def points_ok_def)
  with inv show ?thesis by (simp add: pool_inv_def)
qed

lemma pool_exact_witness:
  "\<exists>s. run (pool_step 1) (pool_init 2) (Append 7 # map (\<lambda>_. Turn 0) [0..<5] @ map (\<lambda>_. Turn 2) [0..<9]) = Some s \<and>
     accepted s = [7] \<and> taken s @ workQueue s = [7] \<and> processed s = [7]"
proof -
  let ?ls = "Append 7 # map (\<lambda>_. Turn 0) [0..<5] @ map (\<lambda>_. Turn 2) [0..<9]"
  obtain s where s: "run (pool_step 1) (pool_init 2) ?ls = Some s" "accepted s = [7]" "processed s = [7]"
    by (simp add: pool_step_def pool_init_def append_step_def run_step_def locker_defs pgo_def upt_rec numeral_eq_Suc)
  from pool_exact [OF run_reachable [OF s(1)], THEN conjunct1] s show ?thesis
    by (intro exI [of _ s]) simp
qed

text \<open>Claim C40.  The queue holds at most one request more than the limit the constructor was given, as the
  test is \<open>size() > m_max_requests\<close>, and it can hold that many; the statements between \<open>lock\<close> and
  \<open>unlock\<close> exclude each other.\<close>

theorem pool_bounded:
  assumes "reachable (pool_step max_Request) (pool_init n) s"
  shows "length (workQueue s) \<le> max_Request + 1 \<and>
    (i < length (pcs s) \<longrightarrow> j < length (pcs s) \<longrightarrow> pcrit (pcs s ! i) \<longrightarrow> pcrit (pcs s ! j) \<longrightarrow> i = j)"
  using tpm.exclusion [OF assms] tp.inv_reachable [OF assms] by (auto simp: pool_inv_def)

lemma pool_bounded_witness:
  "\<exists>s. run (pool_step 1) (pool_init 8) (concat (map (\<lambda>r. Append r # map (\<lambda>_. Turn 0) [0..<5]) [7, 8])) = Some s \<and>
     length (workQueue s) = 2 \<and> length (workQueue s) \<le> 1 + 1"
proof -
  let ?ls = "concat (map (\<lambda>r. Append r # map (\<lambda>_. Turn 0) [0..<5]) [7, 8])"
  obtain s where s: "run (pool_step 1) (pool_init 8) ?ls = Some s" "length (workQueue s) = 2"
    by (simp add: pool_step_def pool_init_def append_step_def locker_defs pgo_def upt_rec numeral_eq_Suc)
  from pool_bounded [OF run_reachable [OF s(1)], THEN conjunct1] s show ?thesis
    by (intro exI [of _ s]) simp
qed

text \<open>The threads stay; one is over only when the pool is deleted.\<close>

definition pool_alive :: "nat \<Rightarrow> pool \<Rightarrow> bool" where
  "pool_alive n s \<longleftrightarrow> length (pcs s) = Suc n \<and> m_stop s = freed s \<and> (freed s \<or> ROver \<notin> set (pcs s) \<and> AGone \<notin> set (pcs s))"

lemma pool_alive_pgo: "pool_alive n s \<Longrightarrow> p \<noteq> ROver \<Longrightarrow> p \<noteq> AGone \<Longrightarrow> pool_alive n (pgo i p s)"
  using set_update_subset_insert [of "pcs s" i p] by (auto simp: pool_alive_def)

lemma pool_alive_cong:
  "pcs t = pcs s \<Longrightarrow> m_stop t = m_stop s \<Longrightarrow> freed t = freed s \<Longrightarrow> pool_alive n t = pool_alive n s"
  by (simp add: pool_alive_def)

lemma append_alive: "pool_alive n s \<Longrightarrow> append_step max_Request s = Some t \<Longrightarrow> pool_alive n t"
  by (auto simp: append_step_def locker_defs intro!: pool_alive_pgo split: ppc.splits if_splits)
     (auto simp: pool_alive_def)

lemma run_frame:
  assumes "run_step i s = Some t"
  shows "m_stop t = m_stop s \<and> freed t = freed s \<and> length (pcs t) = length (pcs s) \<and>
    (pcs t = pcs s \<or> m_stop s \<or> (\<exists>p. p \<noteq> ROver \<and> p \<noteq> AGone \<and> pcs t = (pcs s)[i := p]))"
proof (cases "freed s \<and> pcs s ! i \<noteq> ROver \<and> (\<forall>r. pcs s ! i \<noteq> RNull r \<and> pcs s ! i \<noteq> RProcess r)")
  case True
  with assms show ?thesis by (auto simp: run_step_def)
next
  case False
  note step = assms [unfolded run_step_def if_not_P [OF False]]
  then show ?thesis
    by (cases "pcs s ! i") (force simp: locker_defs split: if_splits list.splits)+
qed

lemma run_alive: "pool_alive n s \<Longrightarrow> run_step i s = Some t \<Longrightarrow> pool_alive n t"
proof -
  assume a: "pool_alive n s" and "run_step i s = Some t"
  note f = run_frame [OF this(2)]
  from f consider "pcs t = pcs s" | "m_stop s" | p where "p \<noteq> ROver" "p \<noteq> AGone" "pcs t = (pcs s)[i := p]" by blast
  then show ?thesis
  proof cases
    case (3 p)
    with a f set_update_subset_insert [of "pcs s" i p] show ?thesis unfolding pool_alive_def by auto
  qed (use a f in \<open>simp_all add: pool_alive_def\<close>)
qed

interpretation tpa: safe_system "pool_step max_Request" "pool_init n" "pool_alive n"
proof unfold_locales
  show "pool_alive n (pool_init n)" by (simp add: pool_alive_def pool_init_def)
next
  fix s l t
  assume a: "pool_alive n s" and step: "pool_step max_Request s l = Some t"
  show "pool_alive n t"
  proof (cases l)
    case Delete
    with a step show ?thesis by (auto simp: pool_step_def pool_alive_def split: if_splits)
  next
    case (Turn i)
    with step have "append_step max_Request s = Some t \<or> run_step i s = Some t"
      by (auto simp: pool_step_def split: if_splits)
    with a show ?thesis using append_alive run_alive by blast
  qed (use a step in \<open>auto simp: pool_step_def split: if_splits intro: pool_alive_pgo\<close>)
qed

text \<open>A worker that has what it waits for can move, and there is always one.\<close>

lemma worker_can:
  assumes "pool_inv max_Request s" "pool_alive n s" "\<not> fault s" "\<not> freed s" "0 < i" "i < length (pcs s)"
    and "pcs s ! i = RWait \<longrightarrow> 0 < queseStat s" "pcs s ! i = RLock \<longrightarrow> queueLocker s = None"
  shows "\<exists>t. pool_step max_Request s (Turn i) = Some t"
proof -
  from assms have "\<not> m_stop s" "ROver \<notin> set (pcs s)" by (auto simp: pool_alive_def)
  with assms(1,5,6) have "\<not> appender (pcs s ! i)" "pcs s ! i \<noteq> ROver"
    using nth_mem by (fastforce simp: pool_inv_def roles_def)+
  with assms show ?thesis
    by (cases "pcs s ! i") (simp_all add: pool_step_def run_step_def locker_defs)
qed

text \<open>
  What the threads still have to do: the statements left to each one, and a whole round of a worker for each
  permit of the semaphore.
\<close>

definition duty :: "ppc \<Rightarrow> nat" where
  "duty p = (case p of ALock _ \<Rightarrow> 16 | ASize _ \<Rightarrow> 15 | APush _ \<Rightarrow> 14 | AUnlock \<Rightarrow> 13 | APost \<Rightarrow> 12 | AFull \<Rightarrow> 1
     | AIdle \<Rightarrow> 0 | AGone \<Rightarrow> 0 | RLock \<Rightarrow> 9 | REmpty \<Rightarrow> 8 | RUnlockEmpty \<Rightarrow> 7 | RFront \<Rightarrow> 7 | RPop _ \<Rightarrow> 6 | RUnlock _ \<Rightarrow> 5
     | RNull _ \<Rightarrow> 4 | RProcess _ \<Rightarrow> 3 | RStop \<Rightarrow> 2 | RWait \<Rightarrow> 0 | ROver \<Rightarrow> 0)"

definition pool_work :: "pool \<Rightarrow> nat" where
  "pool_work s = sum_list (map duty (pcs s)) + 10 * queseStat s"

lemma append_work:
  "append_step max_Request s = Some t \<Longrightarrow>
    freed t = freed s \<and> (\<exists>p. pcs t = (pcs s)[0 := p] \<and> duty p + 10 * queseStat t < duty (pcs s ! 0) + 10 * queseStat s)"
  by (cases "pcs s ! 0")
     (force simp: append_step_def locker_defs duty_def split: if_splits)+

lemma run_work:
  assumes "run_step i s = Some t" "\<not> freed s" "\<not> m_stop s" "\<not> fault s" "\<not> fault t"
  shows "freed t = freed s \<and> (\<exists>p. pcs t = (pcs s)[i := p] \<and> duty p + 10 * queseStat t < duty (pcs s ! i) + 10 * queseStat s)"
proof -
  have "\<exists>p. pcs t = (pcs s)[i := p] \<and> duty p + 10 * queseStat t < duty (pcs s ! i) + 10 * queseStat s"
    using assms by (cases "pcs s ! i")
      (fastforce simp: run_step_def locker_defs duty_def split: if_splits list.splits)+
  with run_frame [OF assms(1)] show ?thesis by blast
qed

lemma pool_work_step:
  assumes "pool_inv max_Request s" "pool_alive n s" "\<not> freed s" "pool_step max_Request s (Turn i) = Some t"
  shows "\<not> freed t \<and> pool_work t < pool_work s"
proof -
  have ft: "fault t \<longrightarrow> freed t" using pool_inv_step [OF assms(1,4)] by (simp add: pool_inv_def)
  have i: "i < length (pcs s)" using assms by (auto simp: pool_step_def pool_alive_def split: if_splits)
  from assms(4) have step: "append_step max_Request s = Some t \<and> i = 0 \<or> run_step i s = Some t" "\<not> fault s"
    by (auto simp: pool_step_def split: if_splits)
  have fr: "\<not> freed t" using step append_work run_frame assms(3) by blast
  with ft have nf: "\<not> fault t" by blast
  have "\<not> m_stop s" using assms(2,3) by (simp add: pool_alive_def)
  then obtain p where p: "pcs t = (pcs s)[i := p]" "duty p + 10 * queseStat t < duty (pcs s ! i) + 10 * queseStat s"
    using step append_work run_work [OF _ assms(3) _ step(2) nf] by blast
  have "sum_list (map duty (pcs t)) + duty (pcs s ! i) = sum_list (map duty (pcs s)) + duty p"
    unfolding p(1) by (rule sum_list_update_comm [OF i])
  with p(2) fr show ?thesis by (simp add: pool_work_def)
qed

lemma pool_work_run:
  "run (pool_step max_Request) s (map Turn is) = Some t \<Longrightarrow> pool_inv max_Request s \<Longrightarrow> pool_alive n s \<Longrightarrow> \<not> freed s \<Longrightarrow>
    pool_inv max_Request t \<and> pool_alive n t \<and> \<not> freed t \<and> length is + pool_work t \<le> pool_work s"
proof (induction "is" arbitrary: s)
  case (Cons i "is")
  then obtain u where u: "pool_step max_Request s (Turn i) = Some u" "run (pool_step max_Request) u (map Turn is) = Some t"
    by (auto split: option.splits)
  note w = pool_work_step [OF Cons.prems(2-4) u(1)]
  have "pool_inv max_Request u" "pool_alive n u"
    using pool_inv_step [OF Cons.prems(2) u(1)] tpa.inv_step [OF Cons.prems(3) u(1)] by auto
  with Cons.IH [OF u(2)] w show ?case by auto
qed simp

text \<open>When no thread can make a step, all workers wait and nothing is left.\<close>

lemma pool_at_rest:
  assumes inv: "pool_inv max_Request s" and al: "pool_alive n s" and fr: "\<not> freed s" and n: "0 < n"
    and rest: "\<And>i. pool_step max_Request s (Turn i) = None"
  shows "pcs s = AIdle # replicate n RWait \<and> workQueue s = [] \<and> queseStat s = 0 \<and> hands s = {#}"
proof -
  have f: "\<not> fault s" using inv fr by (auto simp: pool_inv_def)
  have len: "length (pcs s) = Suc n" and gone: "AGone \<notin> set (pcs s)" using al fr by (auto simp: pool_alive_def)
  have app: "appender (pcs s ! 0)" using inv len by (auto simp: pool_inv_def roles_def)
  have zero: "append_step max_Request s = None" using rest [of 0] f by (simp add: pool_step_def)
  have free: "queueLocker s = None"
  proof (rule ccontr)
    assume "queueLocker s \<noteq> None"
    then obtain j where "queueLocker s = Some j" by blast
    with inv have j: "j < length (pcs s)" "pcrit (pcs s ! j)"
      unfolding pool_inv_def using owned_lt owned_holder by metis+
    show False
    proof (cases j)
      case 0
      with j(2) zero app show False by (cases "pcs s ! 0") (auto simp: append_step_def split: if_splits)
    next
      case (Suc k)
      with j(2) have "pcs s ! j \<noteq> RWait" "pcs s ! j \<noteq> RLock" by auto
      with j(1) Suc worker_can [OF inv al f fr, of j] rest show False by simp
    qed
  qed
  have p0: "pcs s ! 0 = AIdle"
    using zero free app gone len nth_mem [of 0 "pcs s"]
    by (cases "pcs s ! 0") (auto simp: append_step_def locker_defs split: if_splits)
  have pw: "pcs s ! i = RWait \<and> queseStat s = 0" if "0 < i" "i < Suc n" for i
    using worker_can [OF inv al f fr that(1)] that len free rest [of i] by force
  have "pcs s = AIdle # replicate n RWait"
  proof (rule nth_equalityI)
    fix i assume "i < length (pcs s)"
    with p0 pw [of i] len show "pcs s ! i = (AIdle # replicate n RWait) ! i" by (cases i) simp_all
  qed (simp add: len)
  moreover from this have "stakes s = 0" "hands s = {#}" by (simp_all add: stakes_def hands_def)
  ultimately show ?thesis using pw [of 1] n inv by (simp add: pool_inv_def)
qed

text \<open>A worker of a deleted pool finishes the request in its hand and then touches freed memory.\<close>

lemma freed_worker:
  assumes "freed s" "\<not> fault s" "0 < i" "i < length (pcs s)" "\<not> appender (pcs s ! i)" "pcs s ! i \<noteq> ROver"
  obtains k t where "k \<le> 3" "run (pool_step max_Request) s (replicate k (Turn i)) = Some t" "fault t"
proof -
  have one: "\<exists>t. run (pool_step max_Request) s (replicate 1 (Turn i)) = Some t \<and> fault t"
    if "\<forall>r. pcs s ! i \<noteq> RNull r \<and> pcs s ! i \<noteq> RProcess r"
    using assms that by (simp add: pool_step_def run_step_def)
  have two: "\<exists>t. run (pool_step max_Request) u (replicate 2 (Turn i)) = Some t \<and> fault t"
    if "freed u" "\<not> fault u" "i < length (pcs u)" "pcs u ! i = RProcess r" for u r
    using assms(3) that by (simp add: pool_step_def run_step_def numeral_2_eq_2)
  show thesis
  proof (cases "pcs s ! i")
    case (RProcess r)
    with two [of s r] assms that [of 2] show ?thesis by auto
  next
    case (RNull r)
    show ?thesis
    proof (cases "r = 0")
      case True
      with RNull assms have "\<exists>t. run (pool_step max_Request) s (replicate 2 (Turn i)) = Some t \<and> fault t"
        by (simp add: pool_step_def run_step_def numeral_2_eq_2)
      with that [of 2] show ?thesis by auto
    next
      case False
      let ?u = "pgo i (RProcess r) s"
      have "pool_step max_Request s (Turn i) = Some ?u" using RNull False assms by (simp add: pool_step_def run_step_def)
      moreover have "\<exists>t. run (pool_step max_Request) ?u (replicate 2 (Turn i)) = Some t \<and> fault t"
        using two [of ?u r] assms by simp
      ultimately have "\<exists>t. run (pool_step max_Request) s (replicate 3 (Turn i)) = Some t \<and> fault t"
        by (simp add: numeral_3_eq_3 numeral_2_eq_2)
      with that [of 3] show ?thesis by auto
    qed
  qed (use one that [of 1] assms in auto)
qed

text \<open>Claim C30.  The pool finishes its work and cannot be deleted.  In every reachable state of a pool with workers
  that has not been deleted: when the server appends nothing more, the threads make at most \<open>pool_work\<close> steps, whatever
  the schedule, and when none can make another one, all workers wait, the queue is empty, and every accepted request has
  been processed, or skipped as null.  And once the server deletes the pool, each worker is at most three steps of
  its own from touching the freed memory.\<close>

theorem pool_progress:
  assumes "reachable (pool_step max_Request) (pool_init n) s" "0 < n" "\<not> freed s"
  shows "(\<forall>is t. run (pool_step max_Request) s (map Turn is) = Some t \<longrightarrow>
      length is \<le> pool_work s \<and>
      ((\<forall>i. pool_step max_Request t (Turn i) = None) \<longrightarrow>
         pcs t = AIdle # replicate n RWait \<and> workQueue t = [] \<and>
         mset (accepted t) = mset (processed t) + replicate_mset (skipped t) 0)) \<and>
    (\<forall>d i. pool_step max_Request s Delete = Some d \<and> 0 < i \<and> i \<le> n \<longrightarrow>
      (\<exists>k \<le> 3. \<exists>t. run (pool_step max_Request) d (replicate k (Turn i)) = Some t \<and> fault t))"
proof (intro conjI allI impI)
  have inv: "pool_inv max_Request s" and al: "pool_alive n s"
    using assms(1) by (rule tp.inv_reachable, rule tpa.inv_reachable)
  {
    fix "is" t
    assume "run (pool_step max_Request) s (map Turn is) = Some t"
    note pool_work_run [OF this inv al assms(3)]
  }
  note w = this
  show "length is \<le> pool_work s" if "run (pool_step max_Request) s (map Turn is) = Some t" for "is" t
    using w [OF that] by simp
  fix "is" t
  assume r: "run (pool_step max_Request) s (map Turn is) = Some t" "\<forall>i. pool_step max_Request t (Turn i) = None"
  note e = pool_at_rest [of max_Request t n] w [OF r(1)] r(2) assms(2)
  then show "pcs t = AIdle # replicate n RWait" "workQueue t = []" by blast+
  from e have "pool_inv max_Request t" "workQueue t = []" "hands t = {#}" by blast+
  then show "mset (accepted t) = mset (processed t) + replicate_mset (skipped t) 0" by (simp add: pool_inv_def)
next
  fix d i
  assume d: "pool_step max_Request s Delete = Some d \<and> 0 < i \<and> i \<le> n"
  have "pool_inv max_Request s" and al: "pool_alive n s"
    using assms(1) by (rule tp.inv_reachable, rule tpa.inv_reachable)
  moreover from d have e: "d = pgo 0 AGone (s\<lparr>m_stop := True, freed := True\<rparr>)" "\<not> fault s"
    by (auto simp: pool_step_def split: if_splits)
  moreover have "pcs s ! i \<noteq> ROver" using al assms(3) d nth_mem [of i "pcs s"] unfolding pool_alive_def by (metis less_Suc_eq_le)
  ultimately have "i < length (pcs d)" "\<not> appender (pcs d ! i)" "pcs d ! i \<noteq> ROver"
    using d assms(3) by (auto simp: pool_alive_def pool_inv_def roles_def)
  moreover have "freed d" "\<not> fault d" using e by simp_all
  ultimately show "\<exists>k \<le> 3. \<exists>t. run (pool_step max_Request) d (replicate k (Turn i)) = Some t \<and> fault t"
    using d by (blast elim: freed_worker)
qed

lemma pool_progress_witness:
  "\<exists>s t. run (pool_step 1) (pool_init 1) [Append 7, Turn 0, Turn 0, Turn 1] = Some s \<and>
     run (pool_step 1) s (map Turn [0, 0, 0, 1, 1, 1, 1, 1, 1, 1, 1, 1]) = Some t \<and>
     mset (accepted t) = {#7#} \<and> mset (processed t) + replicate_mset (skipped t) 0 = {#7#}"
proof -
  obtain s t where s: "run (pool_step 1) (pool_init 1) [Append 7, Turn 0, Turn 0, Turn 1] = Some s" "\<not> freed s"
    and t: "run (pool_step 1) s (map Turn [0, 0, 0, 1, 1, 1, 1, 1, 1, 1, 1, 1]) = Some t" "accepted t = [7]"
      "pcs t = [AIdle, RWait]" "queseStat t = 0" "\<not> fault t" "\<not> freed t"
    by (simp add: pool_step_def pool_init_def append_step_def run_step_def locker_defs pgo_def numeral_eq_Suc)
  have "\<forall>i. pool_step 1 t (Turn i) = None"
    using t by (auto simp: pool_step_def append_step_def run_step_def locker_defs less_Suc_eq)
  with pool_progress [OF run_reachable [OF s(1)] _ s(2), THEN conjunct1, rule_format, OF _ t(1)]
  have "mset (accepted t) = mset (processed t) + replicate_mset (skipped t) 0" by simp
  with t(2) s(1) t(1) show ?thesis by auto
qed

end
