(* ===== verification/Locker.thy ===== *)
theory Locker
  imports ThreadPool
begin

text \<open>
  The rest of \<^verbatim>\<open>locker.h\<close>: the class \<open>Condition\<close> together with a \<open>Locker\<close>, as the monitor that POSIX makes of a condition
  variable and its mutex, an interpretation of \<open>mutex_system\<close>; and the destructors.  A thread is outside, inside
  (it owns the mutex), asleep in \<open>wait\<close> or in \<open>timedait\<close> (\<open>True\<close>), or awake and about to take the mutex again; it then
  carries what the call will return.
\<close>

section \<open>The monitor\<close>

datatype mpc = MOut | MIn | MAsleep bool | MAwake bool bool

record monitor =
  m_mutex :: "nat option"
  m_pcs :: "mpc list"
  m_returns :: "(nat \<times> bool \<times> bool) list"

definition monitor_init :: "nat \<Rightarrow> monitor" where
  "monitor_init n = \<lparr>m_mutex = None, m_pcs = replicate n MOut, m_returns = []\<rparr>"

definition mgo :: "nat \<Rightarrow> mpc \<Rightarrow> monitor \<Rightarrow> monitor" where
  "mgo i p s = s\<lparr>m_pcs := (m_pcs s)[i := p]\<rparr>"

text \<open>\<open>wait\<close> and \<open>timedait\<close> up to the sleep: the mutex is released in the same step.\<close>

definition Condition_wait :: "nat \<Rightarrow> monitor \<Rightarrow> monitor" where
  "Condition_wait i s = mgo i (MAsleep False) (s\<lparr>m_mutex := Locker_unlock (m_mutex s)\<rparr>)"

definition Condition_timedait :: "nat \<Rightarrow> monitor \<Rightarrow> monitor" where
  "Condition_timedait i s = mgo i (MAsleep True) (s\<lparr>m_mutex := Locker_unlock (m_mutex s)\<rparr>)"

definition wake :: "mpc \<Rightarrow> mpc" where
  "wake p = (case p of MAsleep timed \<Rightarrow> MAwake timed True | _ \<Rightarrow> p)"

definition asleep :: "mpc \<Rightarrow> bool" where
  "asleep p = (case p of MAsleep _ \<Rightarrow> True | _ \<Rightarrow> False)"

text \<open>\<open>signal\<close> wakes one of the threads that sleep, if there is any: the one the kernel chooses.\<close>

definition Condition_signal :: "nat \<Rightarrow> monitor \<Rightarrow> monitor option" where
  "Condition_signal w s =
     (if \<not> list_ex asleep (m_pcs s) then Some s
      else if w < length (m_pcs s) \<and> asleep (m_pcs s ! w) then Some (mgo w (wake (m_pcs s ! w)) s)
      else None)"

definition Condition_brocast :: "monitor \<Rightarrow> monitor" where
  "Condition_brocast s = s\<lparr>m_pcs := map wake (m_pcs s)\<rparr>"

text \<open>Destroying an object that is in use is undefined.\<close>

definition Condition_dtor :: "monitor \<Rightarrow> unit comp" where
  "Condition_dtor s = (if list_ex asleep (m_pcs s) then undef else ret ())"

definition Locker_dtor :: "nat option \<Rightarrow> unit comp" where
  "Locker_dtor m = (if m = None then ret () else undef)"

definition Locker_get :: "monitor \<Rightarrow> nat option" where
  "Locker_get s = m_mutex s"

definition Semaphore_dtor :: "nat \<Rightarrow> unit comp" where
  "Semaphore_dtor waiting = (if waiting = 0 then ret () else undef)"

text \<open>
  The steps.  \<open>Spurious\<close>: a wake-up without a signal, which POSIX allows; \<open>TimeOut\<close>: the time of \<open>timedait\<close> is over;
  \<open>Retake\<close>: the call takes the mutex again and returns.  A call by a thread that does not own the mutex is undefined and
  left out, as is a second \<open>lock\<close>.
\<close>

datatype mon_label = Lock nat | Unlock nat | Wait nat | TimedWait nat | Signal nat nat | Brocast nat
  | Spurious nat | TimeOut nat | Retake nat

definition monitor_step :: "monitor \<Rightarrow> mon_label \<Rightarrow> monitor option" where
  "monitor_step s l =
     (let at = (\<lambda>i p. i < length (m_pcs s) \<and> m_pcs s ! i = p) in
      case l of
        Lock i \<Rightarrow> (if at i MOut then map_option (\<lambda>m. mgo i MIn (s\<lparr>m_mutex := m\<rparr>)) (Locker_lock i (Locker_get s)) else None)
      | Unlock i \<Rightarrow> (if at i MIn then Some (mgo i MOut (s\<lparr>m_mutex := Locker_unlock (Locker_get s)\<rparr>)) else None)
      | Wait i \<Rightarrow> (if at i MIn then Some (Condition_wait i s) else None)
      | TimedWait i \<Rightarrow> (if at i MIn then Some (Condition_timedait i s) else None)
      | Signal i w \<Rightarrow> (if at i MIn then Condition_signal w s else None)
      | Brocast i \<Rightarrow> (if at i MIn then Some (Condition_brocast s) else None)
      | Spurious i \<Rightarrow> (if i < length (m_pcs s) \<and> asleep (m_pcs s ! i) then Some (mgo i (wake (m_pcs s ! i)) s) else None)
      | TimeOut i \<Rightarrow> (if at i (MAsleep True) then Some (mgo i (MAwake True False) s) else None)
      | Retake i \<Rightarrow>
          (if i < length (m_pcs s) then
             (case m_pcs s ! i of
                MAwake timed r \<Rightarrow>
                  map_option (\<lambda>m. mgo i MIn (s\<lparr>m_mutex := m, m_returns := m_returns s @ [(i, timed, r)]\<rparr>))
                    (Locker_lock i (Locker_get s))
              | _ \<Rightarrow> None)
           else None))"

definition inside :: "mpc \<Rightarrow> bool" where
  "inside p \<longleftrightarrow> p = MIn"

text \<open>A wait without a time never fails.\<close>

definition sound_pc :: "mpc \<Rightarrow> bool" where
  "sound_pc p = (case p of MAwake timed r \<Rightarrow> timed \<or> r | _ \<Rightarrow> True)"

definition monitor_inv :: "monitor \<Rightarrow> bool" where
  "monitor_inv s \<longleftrightarrow> owned inside (m_mutex s) (m_pcs s) \<and> (\<forall>p\<in>set (m_pcs s). sound_pc p) \<and>
     (\<forall>(i, timed, r)\<in>set (m_returns s). timed \<or> r)"

lemma inside_simps [simp]: "inside MIn" "\<not> inside MOut" "\<not> inside (MAsleep b)" "\<not> inside (MAwake b r)"
  "inside (wake p) = inside p"
  by (auto simp: inside_def wake_def split: mpc.split)

lemma sound_simps [simp]: "sound_pc MIn" "sound_pc MOut" "sound_pc (MAsleep b)" "sound_pc (MAwake b r) \<longleftrightarrow> b \<or> r"
  "sound_pc p \<Longrightarrow> sound_pc (wake p)"
  by (auto simp: sound_pc_def wake_def split: mpc.splits)

lemma owned_map: "(\<And>p. crit (f p) = crit p) \<Longrightarrow> owned crit m (map f ps) = owned crit m ps"
  by (simp add: owned_def)

lemma mgo_sel [simp]:
  "m_mutex (mgo i p s) = m_mutex s" "m_pcs (mgo i p s) = (m_pcs s)[i := p]" "m_returns (mgo i p s) = m_returns s"
  by (simp_all add: mgo_def)

lemma Locker_lock_Some: "Locker_lock i m = Some n \<longleftrightarrow> m = None \<and> n = Some i"
  by (auto simp: Locker_lock_def)

lemma inv_mgo:
  assumes "monitor_inv s" "sound_pc p" "owned inside m ((m_pcs s)[i := p])"
  shows "monitor_inv (mgo i p (s\<lparr>m_mutex := m\<rparr>))"
proof -
  have "\<forall>q\<in>set ((m_pcs s)[i := p]). sound_pc q"
    by (rule ball_update) (use assms(1,2) in \<open>simp_all add: monitor_inv_def\<close>)
  with assms(1,3) show ?thesis unfolding monitor_inv_def mgo_sel by simp
qed

lemma inv_out: "monitor_inv s \<Longrightarrow> i < length (m_pcs s) \<Longrightarrow> m_pcs s ! i = MIn \<Longrightarrow> \<not> inside p \<Longrightarrow> sound_pc p \<Longrightarrow>
    monitor_inv (mgo i p (s\<lparr>m_mutex := None\<rparr>))"
proof -
  assume a: "monitor_inv s" "i < length (m_pcs s)" "m_pcs s ! i = MIn" "\<not> inside p" "sound_pc p"
  have "owned inside None ((m_pcs s)[i := p])"
    by (rule owned_leave [of inside "m_mutex s"]) (use a in \<open>simp_all add: monitor_inv_def\<close>)
  with a show ?thesis by (intro inv_mgo)
qed

lemma inv_same: "monitor_inv s \<Longrightarrow> i < length (m_pcs s) \<Longrightarrow> \<not> inside (m_pcs s ! i) \<Longrightarrow> \<not> inside p \<Longrightarrow> sound_pc p \<Longrightarrow>
    monitor_inv (mgo i p s)"
  using inv_mgo [of s p "m_mutex s" i] by (simp add: monitor_inv_def owned_stay)

lemma asleep_wake: "asleep p \<Longrightarrow> \<not> inside p" "asleep p \<Longrightarrow> sound_pc (wake p)"
  by (auto simp: asleep_def wake_def split: mpc.splits)

lemma inv_wake: "monitor_inv s \<Longrightarrow> i < length (m_pcs s) \<Longrightarrow> asleep (m_pcs s ! i) \<Longrightarrow> monitor_inv (mgo i (wake (m_pcs s ! i)) s)"
  by (rule inv_same) (simp_all add: asleep_wake)

lemma monitor_inv_step:
  assumes inv: "monitor_inv s" and st: "monitor_step s l = Some t"
  shows "monitor_inv t"
proof (cases l)
  case (Lock i)
  with st have "i < length (m_pcs s)" "m_mutex s = None" "t = mgo i MIn (s\<lparr>m_mutex := Some i\<rparr>)"
    by (auto simp: monitor_step_def Locker_lock_Some Locker_get_def split: if_splits)
  moreover from this inv have "owned inside (Some i) ((m_pcs s)[i := MIn])"
    by (intro owned_enter) (simp_all add: monitor_inv_def)
  ultimately show ?thesis using inv by (simp add: inv_mgo)
next
  case (Unlock i)
  with st have "i < length (m_pcs s)" "m_pcs s ! i = MIn" "t = mgo i MOut (s\<lparr>m_mutex := None\<rparr>)"
    by (auto simp: monitor_step_def Locker_unlock_def split: if_splits)
  with inv show ?thesis by (simp add: inv_out)
next
  case (Wait i)
  with st have "i < length (m_pcs s)" "m_pcs s ! i = MIn" "t = mgo i (MAsleep False) (s\<lparr>m_mutex := None\<rparr>)"
    by (auto simp: monitor_step_def Condition_wait_def Locker_unlock_def split: if_splits)
  with inv show ?thesis by (simp add: inv_out)
next
  case (TimedWait i)
  with st have "i < length (m_pcs s)" "m_pcs s ! i = MIn" "t = mgo i (MAsleep True) (s\<lparr>m_mutex := None\<rparr>)"
    by (auto simp: monitor_step_def Condition_timedait_def Locker_unlock_def split: if_splits)
  with inv show ?thesis by (simp add: inv_out)
next
  case (Signal i w)
  with st have "t = s \<or> w < length (m_pcs s) \<and> asleep (m_pcs s ! w) \<and> t = mgo w (wake (m_pcs s ! w)) s"
    by (auto simp: monitor_step_def Condition_signal_def split: if_splits)
  with inv show ?thesis by (auto simp: inv_wake)
next
  case (Brocast i)
  with st have "t = s\<lparr>m_pcs := map wake (m_pcs s)\<rparr>"
    by (auto simp: monitor_step_def Condition_brocast_def split: if_splits)
  with inv show ?thesis by (simp add: monitor_inv_def owned_map)
next
  case (Spurious i)
  with st have "i < length (m_pcs s)" "asleep (m_pcs s ! i)" "t = mgo i (wake (m_pcs s ! i)) s"
    by (auto simp: monitor_step_def split: if_splits)
  with inv show ?thesis by (simp add: inv_wake)
next
  case (TimeOut i)
  with st have "i < length (m_pcs s)" "m_pcs s ! i = MAsleep True" "t = mgo i (MAwake True False) s"
    by (auto simp: monitor_step_def split: if_splits)
  with inv show ?thesis by (simp add: inv_same)
next
  case (Retake i)
  with st obtain timed r where r: "i < length (m_pcs s)" "m_pcs s ! i = MAwake timed r" "m_mutex s = None"
    "t = mgo i MIn (s\<lparr>m_mutex := Some i, m_returns := m_returns s @ [(i, timed, r)]\<rparr>)"
    by (auto simp: monitor_step_def Locker_lock_Some Locker_get_def split: if_splits mpc.splits)
  from inv r have "sound_pc (MAwake timed r)" unfolding monitor_inv_def by (metis nth_mem)
  moreover have "owned inside (Some i) ((m_pcs s)[i := MIn])"
    by (rule owned_enter) (use inv r in \<open>simp_all add: monitor_inv_def\<close>)
  then have "monitor_inv (mgo i MIn (s\<lparr>m_mutex := Some i\<rparr>))" using inv by (simp add: inv_mgo)
  ultimately show ?thesis unfolding r(4) by (simp add: monitor_inv_def mgo_def)
qed

interpretation mon: mutex_system monitor_step "monitor_init n" monitor_inv inside m_mutex m_pcs
proof
  show "monitor_inv (monitor_init n)"
    by (auto simp: monitor_inv_def monitor_init_def owned_def)
qed (rule monitor_inv_step, simp_all add: monitor_inv_def)

section \<open>Properties\<close>

text \<open>In every reachable state of the monitor at most one thread is inside; every \<open>wait\<close> that has returned has returned
  true, and false can only come from \<open>timedait\<close>; after \<open>brocast\<close> nobody is asleep, and a thread that \<open>signal\<close> or
  \<open>brocast\<close> has woken stays outside until the mutex is free.\<close>

theorem monitor_sound:
  assumes "reachable monitor_step (monitor_init n) s"
  shows "(\<forall>i j. i < length (m_pcs s) \<and> j < length (m_pcs s) \<and> m_pcs s ! i = MIn \<and> m_pcs s ! j = MIn \<longrightarrow> i = j) \<and>
    ((i, False, r) \<in> set (m_returns s) \<longrightarrow> r) \<and>
    (monitor_step s (Brocast i) = Some t \<longrightarrow> \<not> list_ex asleep (m_pcs t) \<and> (\<forall>j. monitor_step t (Retake j) = None))"
proof (intro conjI impI)
  have inv: "monitor_inv s" by (rule mon.inv_reachable [OF assms])
  show "\<forall>i j. i < length (m_pcs s) \<and> j < length (m_pcs s) \<and> m_pcs s ! i = MIn \<and> m_pcs s ! j = MIn \<longrightarrow> i = j"
    using mon.exclusion [OF assms] by simp
  show r if "(i, False, r) \<in> set (m_returns s)" using inv that by (auto simp: monitor_inv_def)
  assume "monitor_step s (Brocast i) = Some t"
  then have t: "t = s\<lparr>m_pcs := map wake (m_pcs s)\<rparr>" "i < length (m_pcs s)" "m_pcs s ! i = MIn"
    by (auto simp: monitor_step_def Condition_brocast_def split: if_splits)
  then show "\<not> list_ex asleep (m_pcs t)" by (auto simp: list_ex_iff asleep_def wake_def split: mpc.splits)
  have "m_mutex s = Some i" using mon.held [OF assms t(2)] t(3) by simp
  with t(1) show "\<forall>j. monitor_step t (Retake j) = None"
    by (auto simp: monitor_step_def Locker_get_def Locker_lock_def split: mpc.splits)
qed

lemma monitor_sound_witness:
  "\<exists>s. run monitor_step (monitor_init 3)
      [Lock 0, Wait 0, Lock 1, TimedWait 1, TimeOut 1, Lock 2, Brocast 2, Unlock 2, Retake 0, Unlock 0, Retake 1] = Some s \<and>
    m_returns s = [(0, False, True), (1, True, False)] \<and> \<not> m_pcs s ! 2 = MIn"
proof -
  let ?ls = "[Lock 0, Wait 0, Lock 1, TimedWait 1, TimeOut 1, Lock 2, Brocast 2, Unlock 2, Retake 0, Unlock 0, Retake 1]"
  obtain s where s: "run monitor_step (monitor_init 3) ?ls = Some s" "m_returns s = [(0, False, True), (1, True, False)]"
    "length (m_pcs s) = 3" "m_pcs s ! 1 = MIn"
    by (simp add: monitor_step_def monitor_init_def Condition_wait_def Condition_timedait_def Condition_brocast_def
      Locker_get_def Locker_lock_def Locker_unlock_def mgo_def wake_def numeral_3_eq_3)
  with monitor_sound [OF run_reachable [OF s(1)], THEN conjunct1, rule_format, of 1 2] show ?thesis by auto
qed

text \<open>No object of the class exists, though: its constructor throws even when the initialisation succeeds.\<close>

lemma Condition_never: "Condition_ctor r = Throw"
  by (simp add: Condition_ctor_def)

end
