(* ===== verification/Pipes.thy ===== *)
theory Pipes
  imports Echo Fcntl
begin

unbundle bit_operations_syntax

text \<open>
  Pipes and named pipes: \<^verbatim>\<open>pipe.c\<close>, \<^verbatim>\<open>noblock.c\<close>, \<^verbatim>\<open>ps_aux_grep_xx.c\<close>, and the writer and the reader
  of \<^verbatim>\<open>_fifo\<close>.  The kernel's pipe is the queue of the bytes in it, of at most 65536; writes
  of at most 4096 bytes are atomic.  The locale \<open>channel\<close> is what the programs rely on: bytes come out
  in the order in which they went in.
\<close>

section \<open>Byte channels\<close>

datatype chan_op = Put string | Take nat

fun traffic ::
  "(string \<Rightarrow> 'c \<Rightarrow> 'c option) \<Rightarrow> (nat \<Rightarrow> 'c \<Rightarrow> (string \<times> 'c) option) \<Rightarrow> chan_op list \<Rightarrow> 'c \<Rightarrow> (string \<times> string \<times> 'c) option"
where
  "traffic send recv [] c = Some ([], [], c)"
| "traffic send recv (Put d # xs) c =
     Option.bind (send d c) (\<lambda>c. map_option (\<lambda>(i, u, c). (d @ i, u, c)) (traffic send recv xs c))"
| "traffic send recv (Take n # xs) c =
     Option.bind (recv n c) (\<lambda>(d, c). map_option (\<lambda>(i, u, c). (i, d @ u, c)) (traffic send recv xs c))"

locale channel =
  fixes content :: "'c \<Rightarrow> string"
    and send :: "string \<Rightarrow> 'c \<Rightarrow> 'c option"
    and recv :: "nat \<Rightarrow> 'c \<Rightarrow> (string \<times> 'c) option"
  assumes send_content: "send d c = Some e \<Longrightarrow> content e = content c @ d"
    and recv_content: "recv n c = Some (d, e) \<Longrightarrow> content c = d @ content e \<and> length d \<le> n"
begin

lemma stream: "traffic send recv xs c = Some (i, u, e) \<Longrightarrow> content c @ i = u @ content e"
proof (induction xs arbitrary: c i u)
  case (Cons x xs)
  show ?case
  proof (cases x)
    case (Put d)
    with Cons.prems obtain c1 i1 where
      "send d c = Some c1" "traffic send recv xs c1 = Some (i1, u, e)" "i = d @ i1"
      by (auto simp: bind_eq_Some_conv)
    with Cons.IH [of c1 i1 u] send_content show ?thesis by simp
  next
    case (Take n)
    with Cons.prems obtain d c1 u1 where
      "recv n c = Some (d, c1)" "traffic send recv xs c1 = Some (i, u1, e)" "u = d @ u1"
      by (auto simp: bind_eq_Some_conv)
    with Cons.IH [of c1 i u1] recv_content [of n c d c1] show ?thesis by simp
  qed
qed simp

end

definition PIPE_SIZE :: nat where
  "PIPE_SIZE = 65536"

text \<open>A write waits for room, a read for data; a read takes what there is.\<close>

definition pipe_write :: "string \<Rightarrow> string \<Rightarrow> string option" where
  "pipe_write d p = (if length p + length d \<le> PIPE_SIZE then Some (p @ d) else None)"

definition pipe_read :: "nat \<Rightarrow> string \<Rightarrow> (string \<times> string) option" where
  "pipe_read n p = (if p = [] then None else Some (take n p, drop n p))"

interpretation pipe: channel "\<lambda>p. p" pipe_write pipe_read
  by unfold_locales (auto simp: pipe_write_def pipe_read_def split: if_splits)

section \<open>pipe.c and noblock.c\<close>

definition child_msg :: string where
  "child_msg = ''Hello,i am child''"

text \<open>\<open>% d\<close> puts a blank before a number that is not negative, as process numbers are.\<close>

definition receive_line :: "int \<Rightarrow> string \<Rightarrow> event" where
  "receive_line me t = Out (''Father receive: '' @ t @ '' , pid :  '' @ show_int me @ '' '' @ NL)"

record ppipe =
  queue :: string
  pbuf :: string
  sent :: nat
  got :: "string list"
  pout :: "event list"
  broken :: bool

text \<open>The first buffer holds whatever was on the stack.\<close>

definition pipe_init :: "string \<Rightarrow> ppipe" where
  "pipe_init g = \<lparr>queue = [], pbuf = g, sent = 0, got = [], pout = [], broken = False\<rparr>"

definition child_turn :: "ppipe \<Rightarrow> ppipe option" where
  "child_turn s = map_option (\<lambda>q. s\<lparr>queue := q, sent := Suc (sent s)\<rparr>) (pipe_write child_msg (queue s))"

text \<open>Printing the buffer, after \<open>d\<close> has been read into it; \<open>es\<close> is printed before, \<open>buf'\<close> is the buffer after the turn.\<close>

definition print_buf :: "int \<Rightarrow> event list \<Rightarrow> string \<Rightarrow> (string \<Rightarrow> string) \<Rightarrow> ppipe \<Rightarrow> ppipe" where
  "print_buf me es d clear s =
     (let buf = fill (pbuf s) d in
      case cstr buf of
        (_, Done t) \<Rightarrow> s\<lparr>pbuf := clear buf, got := got s @ [d],
                          pout := pout s @ es @ [receive_line me t]\<rparr>
      | _ \<Rightarrow> s\<lparr>got := got s @ [d], broken := True\<rparr>)"

definition pipe_parent :: "int \<Rightarrow> ppipe \<Rightarrow> ppipe option" where
  "pipe_parent me s =
     map_option (\<lambda>(d, q). print_buf me [] d (\<lambda>b. b) (s\<lparr>queue := q\<rparr>)) (pipe_read BUFSIZ (queue s))"

text \<open>\<^verbatim>\<open>noblock.c\<close>: an empty pipe gives -1 at once, the buffer is cleared after every turn.\<close>

definition noblock_parent :: "int \<Rightarrow> ppipe \<Rightarrow> ppipe option" where
  "noblock_parent me s =
     (case pipe_read BUFSIZ (queue s) of
        None \<Rightarrow> Some (print_buf me [Out (''len: '' @ show_int (-1) @ '' '' @ NL)] [] (\<lambda>b. zeros BUFSIZ) s)
      | Some (d, q) \<Rightarrow>
          Some (print_buf me [Out (''len: '' @ show_int (int (length d)) @ '' '' @ NL)] d (\<lambda>b. zeros BUFSIZ) (s\<lparr>queue := q\<rparr>)))"

datatype pipe_label = Child | Parent

definition pipe_step :: "(ppipe \<Rightarrow> ppipe option) \<Rightarrow> ppipe \<Rightarrow> pipe_label \<Rightarrow> ppipe option" where
  "pipe_step parent s l = (if broken s then None else case l of Child \<Rightarrow> child_turn s | Parent \<Rightarrow> parent s)"

text \<open>\<open>main\<close>: the pipe, the fork, and the side of the process it is.\<close>

datatype side = ParentSide | ChildSide | NoSide

definition pipe_main :: "int \<Rightarrow> int \<Rightarrow> int \<Rightarrow> int \<Rightarrow> int \<Rightarrow> side comp" where
  "pipe_main made rd wr pid me =
     (if made = -1 then thenc (emit (Perror ''pipe'')) (exit_with 0)
      else if 0 < pid then
        thenc (emit (Out ('' I am father process, pid : '' @ show_int me @ NL)))
       (thenc (emit (Cl wr)) (ret ParentSide))
      else if pid = 0 then
        thenc (emit (Out (''I am child process, pid : '' @ show_int me @ '' '' @ NL)))
       (thenc (emit (Cl rd)) (ret ChildSide))
      else ret NoSide)"

text \<open>In \<^verbatim>\<open>noblock.c\<close> the parent makes its end of the pipe non-blocking; \<open>fl\<close> are the flags it finds.\<close>

definition noblock_main :: "32 word \<Rightarrow> int \<Rightarrow> int \<Rightarrow> int \<Rightarrow> int \<Rightarrow> int \<Rightarrow> side comp" where
  "noblock_main fl made rd wr pid me =
     (if made = -1 then thenc (emit (Perror ''pipe'')) (exit_with 0)
      else if 0 < pid then
        thenc (emit (Out (''I am father process, pid : '' @ show_int me @ NL)))
       (thenc (emit (Call ''fcntl F_SETFL'' [rd, uint (fl OR O_NONBLOCK)]))
       (thenc (emit (Cl wr)) (ret ParentSide)))
      else if pid = 0 then
        thenc (emit (Out (''I am child process, pid : '' @ show_int me @ '' '' @ NL)))
       (thenc (emit (Cl rd)) (ret ChildSide))
      else ret NoSide)"

text \<open>What both parents do with the pipe: the bytes they take are the next ones.\<close>

locale pipe_reader =
  fixes parent :: "ppipe \<Rightarrow> ppipe option"
  assumes parent_stream: "parent s = Some t \<Longrightarrow> concat (got t) @ queue t = concat (got s) @ queue s"
    and parent_frame: "parent s = Some t \<Longrightarrow> sent t = sent s \<and> length (queue t) \<le> length (queue s)"
begin

sublocale stream: safe_system "pipe_step parent" "pipe_init g"
  "\<lambda>s. concat (replicate (sent s) child_msg) = concat (got s) @ queue s \<and> length (queue s) \<le> PIPE_SIZE"
proof unfold_locales
  fix s l t
  assume inv: "concat (replicate (sent s) child_msg) = concat (got s) @ queue s \<and> length (queue s) \<le> PIPE_SIZE"
    and step: "pipe_step parent s l = Some t"
  show "concat (replicate (sent t) child_msg) = concat (got t) @ queue t \<and> length (queue t) \<le> PIPE_SIZE"
  proof (cases l)
    case Child
    with step have "child_turn s = Some t" by (simp add: pipe_step_def split: if_splits)
    then have t: "t = s\<lparr>queue := queue s @ child_msg, sent := Suc (sent s)\<rparr>"
      "length (queue s) + length child_msg \<le> PIPE_SIZE"
      by (auto simp: child_turn_def pipe_write_def split: if_splits)
    have "concat (replicate (Suc (sent s)) child_msg) = concat (replicate (sent s) child_msg) @ child_msg"
      by (simp flip: replicate_append_same)
    with t inv show ?thesis by simp
  next
    case Parent
    with step have "parent s = Some t" by (simp add: pipe_step_def split: if_splits)
    with inv parent_stream [OF this] parent_frame [OF this] show ?thesis by simp
  qed
qed (simp add: pipe_init_def)

lemma stream_exact:
  "reachable (pipe_step parent) (pipe_init g) s \<Longrightarrow>
     concat (replicate (sent s) child_msg) = concat (got s) @ queue s \<and> length (queue s) \<le> PIPE_SIZE"
  by (rule stream.inv_reachable)

end

lemma print_buf_frame:
  "got (print_buf me es d f s) = got s @ [d]" "queue (print_buf me es d f s) = queue s"
  "sent (print_buf me es d f s) = sent s"
  by (auto simp: print_buf_def Let_def split: prod.split outcome.split)

interpretation pp: pipe_reader "pipe_parent me"
  by unfold_locales (auto simp: pipe_parent_def print_buf_frame pipe_read_def split: if_splits)

interpretation nb: pipe_reader "noblock_parent me"
  by unfold_locales (auto simp: noblock_parent_def print_buf_frame pipe_read_def split: if_splits)

text \<open>What a turn prints.\<close>

lemma print_buf_text:
  assumes "NUL \<in> set (fill (pbuf s) d)"
  shows "print_buf me es d f s = s\<lparr>pbuf := f (fill (pbuf s) d), got := got s @ [d],
    pout := pout s @ es @ [receive_line me (text_of (fill (pbuf s) d))]\<rparr>"
proof -
  have "cstr (fill (pbuf s) d) = ([], Done (text_of (fill (pbuf s) d)))" using assms by (simp add: cstr_eq_Done)
  then show ?thesis by (simp add: print_buf_def Let_def)
qed

lemma print_buf_broken:
  assumes "NUL \<notin> set (fill (pbuf s) d)"
  shows "print_buf me es d f s = s\<lparr>got := got s @ [d], broken := True\<rparr>"
proof -
  have "cstr (fill (pbuf s) d) = ([], Undef)" using assms by (simp add: cstr_def strlen_def effect_simps)
  then show ?thesis by (simp add: print_buf_def)
qed

lemma NUL_notin_child_msg [simp]: "NUL \<notin> set child_msg"
  by (simp add: child_msg_def NUL_def)

text \<open>
  What the screens are to show for the pieces \<open>ds\<close> read.  In \<^verbatim>\<open>pipe.c\<close> each piece is put over what the earlier ones, and at first the
  stack, have left in the buffer \<open>g\<close>.  In \<^verbatim>\<open>noblock.c\<close> only the first one is; an empty piece is a read that failed.
\<close>

fun pipe_lines :: "int \<Rightarrow> string \<Rightarrow> string list \<Rightarrow> event list" where
  "pipe_lines me g [] = []"
| "pipe_lines me g (d # ds) = receive_line me (d @ text_of (drop (length d) g)) # pipe_lines me (fill g d) ds"

definition noblock_lines :: "int \<Rightarrow> string \<Rightarrow> string \<Rightarrow> event list" where
  "noblock_lines me d t =
     [Out (''len: '' @ show_int (if d = [] then -1 else int (length d)) @ '' '' @ NL), receive_line me t]"

definition noblock_screen :: "int \<Rightarrow> string \<Rightarrow> string list \<Rightarrow> event list" where
  "noblock_screen me g ds =
     (case ds of
        [] \<Rightarrow> []
      | d # ds \<Rightarrow> noblock_lines me d (d @ text_of (drop (length d) g)) @ concat (map (\<lambda>d. noblock_lines me d d) ds))"

lemma pipe_lines_snoc:
  "pipe_lines me g (ds @ [d]) = pipe_lines me g ds @ [receive_line me (d @ text_of (drop (length d) (foldl fill g ds)))]"
  by (induction ds arbitrary: g) simp_all

lemma text_of_fill: "NUL \<notin> set d \<Longrightarrow> text_of (fill g d) = d @ text_of (drop (length d) g)"
  by (simp add: fill_def text_of_no_NUL_append)

definition pp_inv :: "int \<Rightarrow> string \<Rightarrow> ppipe \<Rightarrow> bool" where
  "pp_inv me g s \<longleftrightarrow> NUL \<notin> set (queue s) \<and>
     (if broken s then NUL \<notin> set (foldl fill g (got s)) \<and> pout s = pipe_lines me g (butlast (got s))
      else pbuf s = foldl fill g (got s) \<and> pout s = pipe_lines me g (got s))"

lemma pp_inv_step:
  assumes "pp_inv me g s" "pipe_step (pipe_parent me) s l = Some t"
  shows "pp_inv me g t"
proof (cases l)
  case Child
  with assms show ?thesis
    by (auto simp: pipe_step_def child_turn_def pipe_write_def pp_inv_def split: if_splits)
next
  case Parent
  let ?d = "take BUFSIZ (queue s)" and ?q = "drop BUFSIZ (queue s)"
  from assms(2) Parent have ok: "\<not> broken s" and t: "t = print_buf me [] ?d (\<lambda>b. b) (s\<lparr>queue := ?q\<rparr>)"
    by (auto simp: pipe_step_def pipe_parent_def pipe_read_def split: if_splits)
  have nul: "NUL \<notin> set ?d" "NUL \<notin> set ?q"
    using assms(1) by (auto simp: pp_inv_def dest: in_set_takeD in_set_dropD)
  show ?thesis
  proof (cases "NUL \<in> set (fill (pbuf s) ?d)")
    case True
    with t nul ok assms(1) show ?thesis by (simp add: print_buf_text pp_inv_def pipe_lines_snoc text_of_fill)
  next
    case False
    with t nul ok assms(1) show ?thesis by (simp add: print_buf_broken pp_inv_def)
  qed
qed

interpretation pps: safe_system "pipe_step (pipe_parent me)" "pipe_init g" "pp_inv me g" for me g
  by unfold_locales (simp add: pipe_init_def pp_inv_def, rule pp_inv_step)

text \<open>In \<^verbatim>\<open>noblock.c\<close> the buffer is clean from the second turn on.\<close>

definition nb_inv :: "int \<Rightarrow> string \<Rightarrow> ppipe \<Rightarrow> bool" where
  "nb_inv me g s \<longleftrightarrow> NUL \<notin> set (queue s) \<and> (broken s \<or>
     pbuf s = (if got s = [] then g else zeros BUFSIZ) \<and> pout s = noblock_screen me g (got s))"

lemma noblock_screen_snoc:
  "noblock_screen me g (ds @ [d]) = noblock_screen me g ds @
     noblock_lines me d (if ds = [] then d @ text_of (drop (length d) g) else d)"
  by (cases ds) (simp_all add: noblock_screen_def)

lemma noblock_parent_eq:
  "noblock_parent me s =
     Some (print_buf me [Out (''len: '' @ show_int (if take BUFSIZ (queue s) = [] then -1 else int (length (take BUFSIZ (queue s)))) @ '' '' @ NL)]
       (take BUFSIZ (queue s)) (\<lambda>b. zeros BUFSIZ) (s\<lparr>queue := drop BUFSIZ (queue s)\<rparr>))"
proof (cases "queue s = []")
  case True
  then have same: "s\<lparr>queue := drop BUFSIZ (queue s)\<rparr> = s" by (cases s) simp
  show ?thesis unfolding same by (simp add: True noblock_parent_def pipe_read_def)
qed (simp add: noblock_parent_def pipe_read_def)

lemma nb_inv_step:
  assumes "nb_inv me g s" "pipe_step (noblock_parent me) s l = Some t"
  shows "nb_inv me g t"
proof (cases l)
  case Child
  with assms show ?thesis
    by (auto simp: pipe_step_def child_turn_def pipe_write_def nb_inv_def split: if_splits)
next
  case Parent
  let ?d = "take BUFSIZ (queue s)" and ?q = "drop BUFSIZ (queue s)"
  from assms(2) Parent have ok: "\<not> broken s"
    and t: "t = print_buf me [hd (noblock_lines me ?d ?d)] ?d (\<lambda>b. zeros BUFSIZ) (s\<lparr>queue := ?q\<rparr>)"
    by (auto simp: pipe_step_def noblock_parent_eq noblock_lines_def split: if_splits)
  have nul: "NUL \<notin> set ?d" "NUL \<notin> set ?q"
    using assms(1) by (auto simp: nb_inv_def dest: in_set_takeD in_set_dropD)
  have b: "pbuf s = (if got s = [] then g else zeros BUFSIZ)" "pout s = noblock_screen me g (got s)"
    using assms(1) ok by (simp_all add: nb_inv_def)
  show ?thesis
  proof (cases "NUL \<in> set (fill (pbuf s) ?d)")
    case False
    with t nul show ?thesis by (simp add: print_buf_broken nb_inv_def)
  next
    case True
    have "text_of (fill (pbuf s) ?d) = (if got s = [] then ?d @ text_of (drop (length ?d) g) else ?d)"
      using b(1) nul(1) by (simp add: text_of_fill del: length_take)
    with True t nul b(2) show ?thesis
      by (simp add: print_buf_text nb_inv_def noblock_screen_snoc noblock_lines_def)
  qed
qed

interpretation nbs: safe_system "pipe_step (noblock_parent me)" "pipe_init g" "nb_inv me g" for me g
  by unfold_locales (simp add: pipe_init_def nb_inv_def noblock_screen_def, rule nb_inv_step)

section \<open>ps aux | grep\<close>

text \<open>
  The parent of \<^verbatim>\<open>ps_aux_grep_xx.c\<close>: \<open>rs\<close> are the results of \<open>read\<close>, and the loop ends with the empty one;
  the child puts its output in the place of the pipe's writing end and becomes \<open>ps\<close>.
\<close>

fun ps_loop :: "string \<Rightarrow> rdres list \<Rightarrow> unit comp" where
  "ps_loop buf [] = block"
| "ps_loop buf (RdErr # rs) =
     thenc (emit (Perror ''read''))
    (bindc (cstr buf) (\<lambda>t. thenc (emit (Out t)) (ps_loop (zeros BUFSIZ) rs)))"
| "ps_loop buf (RdData d # rs) =
     (if d = [] then ret ()
      else bindc (cstr (fill buf d)) (\<lambda>t. thenc (emit (Out t)) (ps_loop (zeros BUFSIZ) rs)))"

definition ps_child :: "int \<Rightarrow> int \<Rightarrow> unit comp" where
  "ps_child rd wr =
     thenc (emit (Cl rd))
    (thenc (emit (Call ''dup2'' [wr, 1]))
    (thenc (emit (Call ''execlp ps aux'' []))
    (thenc (emit (Perror ''execlp''))
    (exit_with 0))))"

definition ps_aux_main :: "int \<Rightarrow> int \<Rightarrow> int \<Rightarrow> int \<Rightarrow> string \<Rightarrow> rdres list \<Rightarrow> unit comp" where
  "ps_aux_main made rd wr pid g rs =
     (if made = -1 then thenc (emit (Perror ''pipe'')) (exit_with 0)
      else if 0 < pid then
        thenc (emit (Cl wr)) (thenc (ps_loop g rs) (emit (Call ''wait'' [])))
      else if pid = 0 then ps_child rd wr
      else thenc (emit (Perror ''fork'')) (exit_with 0))"

definition printed_text :: "event list \<Rightarrow> string" where
  "printed_text es = concat (map (\<lambda>e. case e of Out t \<Rightarrow> t | _ \<Rightarrow> []) es)"

lemma printed_text_simps [simp]:
  "printed_text [] = []" "printed_text (Out t # es) = t @ printed_text es" "printed_text (Perror t # es) = printed_text es"
  "printed_text (Call c as # es) = printed_text es" "printed_text (Cl fd # es) = printed_text es"
  "printed_text (es @ fs) = printed_text es @ printed_text fs"
  by (simp_all add: printed_text_def)

lemma ps_loop_clean:
  assumes "\<forall>d\<in>set ds. d \<noteq> [] \<and> length d < BUFSIZ \<and> NUL \<notin> set d"
  shows "\<exists>es. ps_loop (zeros BUFSIZ) (map RdData ds @ RdData [] # rs) = (es, Done ()) \<and> printed_text es = concat ds"
  using assms
proof (induction ds)
  case Nil
  then show ?case by (simp add: effect_simps)
next
  case (Cons d ds)
  then obtain es where es: "ps_loop (zeros BUFSIZ) (map RdData ds @ RdData [] # rs) = (es, Done ())"
    "printed_text es = concat ds" by auto
  have "cstr (fill (zeros BUFSIZ) d) = ret (text_of d)" using Cons.prems by (intro cstr_fits) (simp add: fits_def)
  with es Cons.prems show ?case by (simp add: text_of_no_NUL effect_simps)
qed

section \<open>Properties\<close>



text \<open>The filter's parent prints the output of the child byte for byte and ends with it, provided the
  uninitialised memory behind the first piece happens to be a NUL; what is printed in its place
  otherwise is the first piece followed by that memory.\<close>

theorem ps_aux_exact:
  assumes "list_all (\<lambda>d. d \<noteq> [] \<and> length d < BUFSIZ \<and> NUL \<notin> set d) (d # ds)" "length g = BUFSIZ"
    and "made \<noteq> -1" "0 < pid"
  shows "(g ! length d = NUL \<longrightarrow>
      (\<exists>es. ps_aux_main made rd wr pid g (map RdData (d # ds) @ [RdData []]) = (es, Done ()) \<and>
         printed_text es = concat (d # ds))) \<and>
    (NUL \<in> set (drop (length d) g) \<longrightarrow>
      (\<exists>es. ps_aux_main made rd wr pid g (map RdData (d # ds) @ [RdData []]) = (es, Done ()) \<and>
         printed_text es = d @ text_of (drop (length d) g) @ concat ds)) \<and>
    (NUL \<notin> set (drop (length d) g) \<longrightarrow>
      outcome (ps_aux_main made rd wr pid g (map RdData (d # ds) @ [RdData []])) = Undef)"
proof -
  have d: "d \<noteq> []" "length d < BUFSIZ" "NUL \<notin> set d" using assms(1) by simp_all
  from ps_loop_clean [of ds "[]"] assms(1) obtain es where
    es: "ps_loop (zeros BUFSIZ) (map RdData ds @ [RdData []]) = (es, Done ())" "printed_text es = concat ds"
    by (auto simp: list_all_iff)
  have ok: "\<exists>es. ps_aux_main made rd wr pid g (map RdData (d # ds) @ [RdData []]) = (es, Done ()) \<and>
         printed_text es = d @ text_of (drop (length d) g) @ concat ds" if "NUL \<in> set (drop (length d) g)"
  proof -
    have "cstr (fill g d) = ([], Done (d @ text_of (drop (length d) g)))"
      using that d by (simp add: cstr_eq_Done fill_def text_of_no_NUL_append)
    with es d assms(3,4) show ?thesis by (simp add: ps_aux_main_def effect_simps)
  qed
  have clean: "NUL \<in> set (drop (length d) g) \<and> text_of (drop (length d) g) = []" if "g ! length d = NUL"
  proof -
    have "drop (length d) g = NUL # drop (Suc (length d)) g"
      using d(2) assms(2) that by (metis Cons_nth_drop_Suc)
    then show ?thesis by (simp add: text_of_def)
  qed
  show ?thesis
  proof (intro conjI impI)
    assume "g ! length d = NUL"
    note c = clean [OF this]
    from ok [OF conjunct1 [OF c]] show "\<exists>es. ps_aux_main made rd wr pid g (map RdData (d # ds) @ [RdData []]) = (es, Done ()) \<and>
         printed_text es = concat (d # ds)" unfolding conjunct2 [OF c] by simp
  next
    assume "NUL \<notin> set (drop (length d) g)"
    then have "cstr (fill g d) = ([], Undef)" using d by (simp add: cstr_def strlen_def fill_def effect_simps)
    with d assms(3,4) show "outcome (ps_aux_main made rd wr pid g (map RdData (d # ds) @ [RdData []])) = Undef"
      by (simp add: ps_aux_main_def effect_simps)
  qed (rule ok)
qed

lemma ps_aux_exact_witness:
  "\<exists>es. ps_aux_main 0 3 4 9 (zeros BUFSIZ) (map RdData [''USER '', ''PID''] @ [RdData []]) = (es, Done ()) \<and>
     printed_text es = ''USER PID''"
  using ps_aux_exact [of "''USER ''" "[''PID'']" "zeros BUFSIZ" 0 9 3 4]
  by (simp add: BUFSIZ_def NUL_def zeros_def)

end
