(* ===== verification/Chat.thy ===== *)
theory Chat
  imports Pipes
begin

text \<open>
  The programs on named pipes (\<^verbatim>\<open>_fifo\<close>): the chat of \<^verbatim>\<open>aChat.c\<close> and \<^verbatim>\<open>bChat.c\<close>, of which each has a process
  that writes lines and one that reads, over two fifos, and the writer and reader of \<^verbatim>\<open>write.c\<close>,
  \<^verbatim>\<open>read.c\<close> and \<^verbatim>\<open>mkfifo.c\<close>.
\<close>

section \<open>Making and opening the fifos\<close>

definition make_fifo :: "int \<Rightarrow> int \<Rightarrow> unit comp" where
  "make_fifo acc mk =
     (if -1 = acc then
        thenc (emit (Out (''no pipe, creating it'' @ NL)))
       (if -1 = mk then thenc (emit (Perror ''mkfifo'')) (exit_with (-1)) else ret ())
      else ret ())"

text \<open>What each program opens in turn: the fifo, and whether it is for writing.\<close>

datatype fifo_name = AFifo | BFifo

definition a_opens :: "(fifo_name \<times> bool) list" where
  "a_opens = [(AFifo, True), (BFifo, False)]"

definition b_opens :: "(fifo_name \<times> bool) list" where
  "b_opens = [(AFifo, False), (BFifo, True)]"

text \<open>\<open>open\<close> of a fifo waits for its other end, so both programs get on only together.\<close>

fun both_open :: "(fifo_name \<times> bool) list \<Rightarrow> (fifo_name \<times> bool) list \<Rightarrow> bool" where
  "both_open [] [] = True"
| "both_open ((f, w) # xs) ((g, v) # ys) = (f = g \<and> w \<noteq> v \<and> both_open xs ys)"
| "both_open xs ys = False"

text \<open>The messages of the two opens, of a failure and of a success.\<close>

definition a_messages :: "(string \<times> string) list" where
  "a_messages = [(''opena'', ''opened aFifo, waiting to write...''), (''openb'', ''opened bFifo, waiting to read...'')]"

definition b_messages :: "(string \<times> string) list" where
  "b_messages = [(''opena'', ''opened aFifo, waiting to read...''), (''openb'', ''opened bFifo, waiting to write...'')]"

fun open_fifos :: "(string \<times> string) list \<Rightarrow> int list \<Rightarrow> unit comp" where
  "open_fifos ((err, msg) # ms) (fd # fds) =
     (if -1 = fd then thenc (emit (Perror err)) (exit_with (-1))
      else thenc (emit (Out (msg @ NL))) (open_fifos ms fds))"
| "open_fifos ms [] = (if ms = [] then ret () else block)"
| "open_fifos [] fds = ret ()"

definition chat_setup :: "(string \<times> string) list \<Rightarrow> int \<Rightarrow> int \<Rightarrow> int \<Rightarrow> int \<Rightarrow> int list \<Rightarrow> unit comp" where
  "chat_setup messages acc1 mk1 acc2 mk2 fds =
     thenc (make_fifo acc1 mk1) (thenc (make_fifo acc2 mk2) (open_fifos messages fds))"

text \<open>Each program gets to its loop exactly when its fifos are there or can be made and both opens return, and succeed.\<close>

lemma make_fifo_outcome: "outcome (make_fifo acc mk) = (if acc = -1 \<and> mk = -1 then Exit (-1) else Done ())"
  by (simp add: make_fifo_def effect_simps)

lemma bindc_outcome: "outcome (bindc m f) = (case outcome m of Done a \<Rightarrow> outcome (f a) | Exit n \<Rightarrow> Exit n | Undef \<Rightarrow> Undef | Block \<Rightarrow> Block)"
  by (cases m; cases "snd m") (simp_all add: effect_simps)

lemma chat_setup_Done:
  assumes "length messages = 2"
  shows "outcome (chat_setup messages acc1 mk1 acc2 mk2 [f, g]) = Done () \<longleftrightarrow>
    \<not> (acc1 = -1 \<and> mk1 = -1) \<and> \<not> (acc2 = -1 \<and> mk2 = -1) \<and> f \<noteq> -1 \<and> g \<noteq> -1"
proof -
  obtain e1 m1 e2 m2 where m: "messages = [(e1, m1), (e2, m2)]"
    using assms by (auto simp: length_Suc_conv numeral_2_eq_2)
  have "outcome (open_fifos messages [f, g]) = (if f = -1 \<or> g = -1 then Exit (-1) else Done ())"
    unfolding m by (simp add: effect_simps)
  then show ?thesis unfolding chat_setup_def bindc_outcome make_fifo_outcome by simp
qed

section \<open>Writing and reading lines\<close>

text \<open>One turn of the writer: \<open>line\<close> is what \<open>fgets\<close> stores, at most 127 bytes, \<open>r\<close> the result of \<open>write\<close>.  The
  value tells whether the loop goes on.\<close>

definition chat_writer :: "int \<Rightarrow> string \<Rightarrow> int \<Rightarrow> bool comp" where
  "chat_writer wfd line r =
     bindc (cstr (fill (zeros 128) line)) (\<lambda>t.
     thenc (emit (Wr wfd t))
     (if -1 = r then thenc (emit (Perror ''write'')) (ret False) else ret True))"

definition chat_reader :: "rdres \<Rightarrow> bool comp" where
  "chat_reader r =
     (case r of
        RdErr \<Rightarrow> thenc (emit (Perror ''read'')) (exit_with (-1))
      | RdData d \<Rightarrow>
          if d = [] then thenc (emit (Out (''the other side has left'' @ NL))) (ret False)
          else bindc (cstr (fill (zeros 128) d)) (\<lambda>t. thenc (emit (Out (''buf : '' @ t @ '' '' @ NL))) (ret True)))"

definition chat_close :: "int \<Rightarrow> int \<Rightarrow> unit comp" where
  "chat_close rfd wfd = thenc (emit (Cl rfd)) (emit (Cl wfd))"

text \<open>One direction of the chat.  \<open>typed\<close> are the lines as \<open>fgets\<close> has stored them, before the writer does anything with them.\<close>

record link =
  fifo :: string
  typed :: "string list"
  heard :: "string list"
  screen :: "event list"
  overrun :: bool

definition link_init :: link where
  "link_init = \<lparr>fifo = [], typed = [], heard = [], screen = [], overrun = False\<rparr>"

definition say :: "string \<Rightarrow> link \<Rightarrow> link option" where
  "say line k =
     (if length line \<le> 127
      then map_option (\<lambda>f. k\<lparr>fifo := f, typed := typed k @ [line]\<rparr>)
             (pipe_write (sent_to 1 (events (chat_writer 1 line 0))) (fifo k))
      else None)"

definition hear :: "link \<Rightarrow> link option" where
  "hear k =
     (if overrun k then None
      else map_option (\<lambda>(d, f).
        (case chat_reader (RdData d) of
           (es, Done _) \<Rightarrow> k\<lparr>fifo := f, heard := heard k @ [d], screen := screen k @ es\<rparr>
         | _ \<Rightarrow> k\<lparr>fifo := f, heard := heard k @ [d], overrun := True\<rparr>)) (pipe_read 128 (fifo k)))"

text \<open>The parent of a writes to the parent of b, and the child of b to the child of a.\<close>

record chat =
  a_to_b :: link
  b_to_a :: link

datatype chat_label = ASays string | BHears | BSays string | AHears

definition chat_step :: "chat \<Rightarrow> chat_label \<Rightarrow> chat option" where
  "chat_step s l =
     (case l of
        ASays line \<Rightarrow> map_option (\<lambda>k. s\<lparr>a_to_b := k\<rparr>) (say line (a_to_b s))
      | BHears \<Rightarrow> map_option (\<lambda>k. s\<lparr>a_to_b := k\<rparr>) (hear (a_to_b s))
      | BSays line \<Rightarrow> map_option (\<lambda>k. s\<lparr>b_to_a := k\<rparr>) (say line (b_to_a s))
      | AHears \<Rightarrow> map_option (\<lambda>k. s\<lparr>b_to_a := k\<rparr>) (hear (b_to_a s)))"

definition chat_init :: chat where
  "chat_init = \<lparr>a_to_b = link_init, b_to_a = link_init\<rparr>"

section \<open>write.c and read.c\<close>

definition fifo_text :: "nat \<Rightarrow> string" where
  "fifo_text i = ''hello , '' @ show_int (int i) @ '' '' @ NL"

fun fifo_write_loop :: "int \<Rightarrow> string \<Rightarrow> nat list \<Rightarrow> unit comp" where
  "fifo_write_loop fd g [] = emit (Cl fd)"
| "fifo_write_loop fd g (i # is) =
     bindc (cstr (fill g (fifo_text i @ [NUL]))) (\<lambda>t.
     thenc (emit (Out (''write data: '' @ t @ '' '' @ NL)))
    (thenc (emit (Wr fd t))
    (thenc (emit (Call ''sleep'' [1]))
    (fifo_write_loop fd g is))))"

definition fifo_write_main :: "int \<Rightarrow> int \<Rightarrow> int \<Rightarrow> string \<Rightarrow> unit comp" where
  "fifo_write_main acc mk fd g =
     thenc (if -1 = acc then emit (Out (''no pipe, creating it'' @ NL)) else ret ())
    (thenc (if -1 = mk then emit (Perror ''mkfifo'') else ret ())
    (fifo_write_loop fd g [0..<100]))"

text \<open>The reader does not look at errors and prints the buffer, of which \<open>read\<close> has set the beginning.\<close>

fun fifo_read_loop :: "int \<Rightarrow> string \<Rightarrow> rdres list \<Rightarrow> unit comp" where
  "fifo_read_loop fd buf [] = block"
| "fifo_read_loop fd buf (RdErr # rs) =
     bindc (cstr buf) (\<lambda>t. thenc (emit (Out (''receive buf: '' @ t @ '' '' @ NL))) (fifo_read_loop fd buf rs))"
| "fifo_read_loop fd buf (RdData d # rs) =
     (if d = [] then thenc (emit (Out (''the writing end is closed'' @ NL))) (emit (Cl fd))
      else bindc (cstr (fill buf d)) (\<lambda>t.
           thenc (emit (Out (''receive buf: '' @ t @ '' '' @ NL))) (fifo_read_loop fd (fill buf d) rs)))"

definition fifo_read_main :: "int \<Rightarrow> string \<Rightarrow> rdres list \<Rightarrow> unit comp" where
  "fifo_read_main fd g rs =
     (if fd = -1 then thenc (emit (Perror ''open'')) (exit_with (-1)) else fifo_read_loop fd g rs)"

definition mkfifo_main :: "int \<Rightarrow> int \<Rightarrow> unit comp" where
  "mkfifo_main acc mk =
     thenc (if -1 = acc then emit (Out (''no pipe, creating it'' @ NL)) else ret ())
    (if -1 = mk then thenc (emit (Perror ''mkfifo'')) (exit_with 0) else ret ())"

section \<open>The chat is exact\<close>

lemma writer_sends:
  assumes "length line \<le> 127"
  shows "sent_to fd (events (chat_writer fd line 0)) = text_of line"
proof -
  have "cstr (fill (zeros 128) line) = ret (text_of line)"
    using assms by (intro cstr_fits) (simp add: fits_def)
  then show ?thesis by (simp add: chat_writer_def effect_simps)
qed

definition shown_line :: "string \<Rightarrow> event" where
  "shown_line d = Out (''buf : '' @ d @ '' '' @ NL)"

lemma reader_shows:
  assumes "d \<noteq> []" "NUL \<notin> set d" "length d \<le> 128"
  shows "chat_reader (RdData d) = (if length d = 128 then ([], Undef) else ([shown_line d], Done True))"
proof (cases "length d = 128")
  case True
  with assms(2) have "cstr (fill (zeros 128) d) = undef" by (intro cstr_overrun) (simp_all add: fits_def)
  with True assms(1) show ?thesis by (simp add: chat_reader_def effect_simps)
next
  case False
  with assms have "cstr (fill (zeros 128) d) = ret (text_of d)" by (intro cstr_fits) (simp add: fits_def)
  with False assms show ?thesis by (simp add: chat_reader_def shown_line_def text_of_no_NUL effect_simps)
qed

definition link_inv :: "link \<Rightarrow> bool" where
  "link_inv k \<longleftrightarrow> concat (map text_of (typed k)) = concat (heard k) @ fifo k \<and> NUL \<notin> set (fifo k) \<and> length (fifo k) \<le> PIPE_SIZE \<and>
     (if overrun k then heard k \<noteq> [] \<and> length (last (heard k)) = 128 \<and> screen k = map shown_line (butlast (heard k))
      else screen k = map shown_line (heard k) \<and> (\<forall>d\<in>set (heard k). length d < 128))"

lemma say_inv: "link_inv k \<Longrightarrow> say line k = Some m \<Longrightarrow> link_inv m"
  by (auto simp: say_def writer_sends pipe_write_def link_inv_def split: if_splits)

lemma hear_inv:
  assumes "link_inv k" "hear k = Some m"
  shows "link_inv m"
proof -
  let ?d = "take 128 (fifo k)"
  have k: "\<not> overrun k" "fifo k \<noteq> []" using assms(2) by (auto simp: hear_def pipe_read_def split: if_splits)
  have "NUL \<notin> set ?d" using assms(1) by (auto simp: link_inv_def dest: in_set_takeD)
  then have r: "chat_reader (RdData ?d) = (if length ?d = 128 then ([], Undef) else ([shown_line ?d], Done True))"
    using k(2) by (intro reader_shows) auto
  have nul: "NUL \<notin> set (drop 128 (fifo k))" using assms(1) by (auto simp: link_inv_def dest: in_set_dropD)
  have "length (fifo k) \<le> PIPE_SIZE" using assms(1) by (simp add: link_inv_def)
  then have size: "length (fifo k) - 128 \<le> PIPE_SIZE" by linarith
  show ?thesis
  proof (cases "length ?d = 128")
    case True
    then have "m = k\<lparr>fifo := drop 128 (fifo k), heard := heard k @ [?d], overrun := True\<rparr>"
      using assms(2) k r by (auto simp: hear_def pipe_read_def split: if_splits)
    with True assms(1) k nul size show ?thesis by (simp add: link_inv_def)
  next
    case False
    then have "m = k\<lparr>fifo := drop 128 (fifo k), heard := heard k @ [?d], screen := screen k @ [shown_line ?d]\<rparr>"
      using assms(2) k r by (auto simp: hear_def pipe_read_def split: if_splits)
    with False assms(1) k nul size show ?thesis by (auto simp: link_inv_def)
  qed
qed

interpretation ch: safe_system chat_step chat_init "\<lambda>s. link_inv (a_to_b s) \<and> link_inv (b_to_a s)"
proof unfold_locales
  show "link_inv (a_to_b chat_init) \<and> link_inv (b_to_a chat_init)"
    by (simp add: chat_init_def link_init_def link_inv_def)
next
  fix s l t
  assume "link_inv (a_to_b s) \<and> link_inv (b_to_a s)" "chat_step s l = Some t"
  then show "link_inv (a_to_b t) \<and> link_inv (b_to_a t)"
    by (cases l) (auto simp: chat_step_def dest: say_inv hear_inv)
qed

text \<open>Claim C33.  The chat opens on both sides, and in each direction the lines that \<open>fgets\<close> has stored, of at most 127 bytes, arrive in
  order, each up to its first NUL, and so completely if nobody types a NUL; what has been heard, with what is still in the
  fifo, is all that was typed; the reader shows it piece by piece, until a piece fills its buffer of 128 bytes, which several
  lines read at once can do although no line is that long: then it reads past the buffer.\<close>

theorem chat_exact:
  assumes "reachable chat_step chat_init s" "k = a_to_b s \<or> k = b_to_a s"
  shows "both_open a_opens b_opens \<and> concat (map text_of (typed k)) = concat (heard k) @ fifo k \<and>
    ((\<forall>line\<in>set (typed k). NUL \<notin> set line) \<longrightarrow> concat (typed k) = concat (heard k) @ fifo k) \<and>
    (\<not> overrun k \<longrightarrow> screen k = map shown_line (heard k)) \<and>
    (overrun k \<longrightarrow> length (last (heard k)) = 128)"
proof -
  have "map text_of (typed k) = typed k" if "\<forall>line\<in>set (typed k). NUL \<notin> set line"
    using that by (intro map_idI) (simp add: text_of_no_NUL)
  moreover have "link_inv k" using ch.inv_reachable [OF assms(1)] assms(2) by auto
  ultimately show ?thesis by (auto simp: link_inv_def a_opens_def b_opens_def)
qed

text \<open>Two lines of 64 characters, heard at once.\<close>

lemma chat_exact_witness:
  "\<exists>s. run chat_step chat_init [ASays (replicate 64 (CHR ''x'')), ASays (replicate 64 (CHR ''y'')), BHears] = Some s \<and>
     overrun (a_to_b s) \<and> length (last (heard (a_to_b s))) = 128"
proof -
  let ?x = "replicate 64 (CHR ''x'')" and ?y = "replicate 64 (CHR ''y'')"
  have n: "NUL \<notin> set ?x" "NUL \<notin> set ?y" by (simp_all add: NUL_def)
  have w: "say ?x link_init = Some (link_init\<lparr>fifo := ?x, typed := [?x]\<rparr>)"
    "say ?y (link_init\<lparr>fifo := ?x, typed := [?x]\<rparr>) = Some (link_init\<lparr>fifo := ?x @ ?y, typed := [?x, ?y]\<rparr>)"
    using n by (simp_all add: say_def writer_sends text_of_no_NUL pipe_write_def link_init_def PIPE_SIZE_def)
  have "chat_reader (RdData (?x @ ?y)) = ([], Undef)"
    using reader_shows [of "?x @ ?y"] n by simp
  then have h: "hear (link_init\<lparr>fifo := ?x @ ?y, typed := [?x, ?y]\<rparr>) =
      Some (link_init\<lparr>fifo := [], typed := [?x, ?y], heard := [?x @ ?y], overrun := True\<rparr>)"
    by (simp add: hear_def pipe_read_def link_init_def)
  obtain s where s: "run chat_step chat_init [ASays ?x, ASays ?y, BHears] = Some s" "overrun (a_to_b s)"
    using w h by (simp add: chat_step_def chat_init_def)
  from chat_exact [OF run_reachable [OF s(1)], of "a_to_b s"] s show ?thesis by (intro exI [of _ s]) simp
qed

section \<open>One hundred messages\<close>

lemma fifo_text_len:
  assumes "i < 100"
  shows "length (fifo_text i) = (if i < 10 then 11 else 12)"
proof -
  have "length (show_nat i) = (if i < 10 then 1 else 2)"
  proof (cases "i < 10")
    case False
    with assms have "i div 10 < 10" by simp
    then have "show_nat (i div 10) = [digit (i div 10)]" by (subst show_nat.simps) simp
    with False show ?thesis by (subst show_nat.simps) simp
  qed (subst show_nat.simps, simp)
  then show ?thesis by (simp add: fifo_text_def show_int_def NL_def)
qed

lemma NUL_notin_fifo_text: "NUL \<notin> set (fifo_text i)"
  by (simp add: fifo_text_def NL_def NUL_def [symmetric]) (simp add: NUL_def)

definition told :: "nat \<Rightarrow> event" where
  "told i = Out (''receive buf: '' @ fifo_text i @ '' '' @ NL)"

lemma fifo_write_loop_sends:
  assumes "length g = BUFSIZ" "\<forall>i\<in>set is. i < 100"
  shows "\<exists>es. fifo_write_loop fd g is = (es, Done ()) \<and> sent_to fd es = concat (map fifo_text is)"
  using assms(2)
proof (induction "is")
  case Nil
  then show ?case by (simp add: effect_simps)
next
  case (Cons i "is")
  then obtain es where "fifo_write_loop fd g is = (es, Done ())" "sent_to fd es = concat (map fifo_text is)" by auto
  moreover have "cstr (fill g (fifo_text i @ [NUL])) = ([], Done (fifo_text i))"
    using NUL_notin_fifo_text by (simp add: cstr_eq_Done fill_def text_of_no_NUL)
  ultimately show ?case by (simp add: effect_simps)
qed

text \<open>The reader's buffer is clean behind the messages, which never get shorter.\<close>

lemma fifo_read_loop_tells:
  assumes "sorted is" "\<forall>i\<in>set is. i < 100" "length buf = BUFSIZ"
    and "\<forall>i\<in>set is. drop (length (fifo_text i)) buf = zeros (BUFSIZ - length (fifo_text i))"
  shows "fifo_read_loop fd buf (map (\<lambda>i. RdData (fifo_text i)) is @ [RdData []]) =
    (map told is @ [Out (''the writing end is closed'' @ NL), Cl fd], Done ())"
  using assms
proof (induction "is" arbitrary: buf)
  case Nil
  then show ?case by (simp add: effect_simps)
next
  case (Cons i "is")
  let ?t = "fifo_text i" and ?buf = "fill buf (fifo_text i)"
  have len: "length ?t \<le> 12" using Cons.prems(2) fifo_text_len [of i] by simp
  have b: "?buf = ?t @ zeros (BUFSIZ - length ?t)" using Cons.prems(4) by (simp add: fill_def)
  have "NUL \<in> set ?buf" unfolding b using len by (simp add: BUFSIZ_def)
  moreover have "text_of ?buf = ?t" unfolding b using NUL_notin_fifo_text by (simp add: text_of_no_NUL_append)
  ultimately have c: "cstr ?buf = ([], Done ?t)" by (simp add: cstr_eq_Done)
  have "fifo_read_loop fd ?buf (map (\<lambda>i. RdData (fifo_text i)) is @ [RdData []]) =
      (map told is @ [Out (''the writing end is closed'' @ NL), Cl fd], Done ())"
  proof (rule Cons.IH)
    show "length ?buf = BUFSIZ" using Cons.prems(3) len by (simp add: BUFSIZ_def)
    show "\<forall>j\<in>set is. drop (length (fifo_text j)) ?buf = zeros (BUFSIZ - length (fifo_text j))"
    proof
      fix j assume j: "j \<in> set is"
      with Cons.prems(1,2) have "length ?t \<le> length (fifo_text j)"
        using fifo_text_len [of i] fifo_text_len [of j] by (auto split: if_splits)
      then show "drop (length (fifo_text j)) ?buf = zeros (BUFSIZ - length (fifo_text j))"
        unfolding b by (simp add: zeros_def)
    qed
  qed (use Cons.prems in simp_all)
  moreover have "?t \<noteq> []" by (simp add: fifo_text_def)
  ultimately show ?case using c by (simp add: told_def effect_simps)
qed

text \<open>\<^verbatim>\<open>write.c\<close> sends its hundred messages, and \<^verbatim>\<open>read.c\<close>, when it gets them one by one and its
  buffer happens to be zero, shows each as it was sent: the buffer is never cleared, but no message
  is shorter than the one before.\<close>

theorem fifo_messages:
  assumes "length g = BUFSIZ" "fd \<noteq> -1"
  shows "\<exists>es. fifo_write_main 0 mk wfd g = (es, Done ()) \<and>
    sent_to wfd es = concat (map fifo_text [0..<100]) \<and>
    fifo_read_main fd (zeros BUFSIZ) (map (\<lambda>i. RdData (fifo_text i)) [0..<100] @ [RdData []]) =
      (map told [0..<100] @ [Out (''the writing end is closed'' @ NL), Cl fd], Done ())"
proof -
  from fifo_write_loop_sends [OF assms(1), of "[0..<100]" wfd] obtain es where
    "fifo_write_loop wfd g [0..<100] = (es, Done ())" "sent_to wfd es = concat (map fifo_text [0..<100])" by auto
  then have "\<exists>es. fifo_write_main 0 mk wfd g = (es, Done ()) \<and> sent_to wfd es = concat (map fifo_text [0..<100])"
    by (simp add: fifo_write_main_def effect_simps del: upt_rec_numeral)
  moreover have "fifo_read_loop fd (zeros BUFSIZ) (map (\<lambda>i. RdData (fifo_text i)) [0..<100] @ [RdData []]) =
      (map told [0..<100] @ [Out (''the writing end is closed'' @ NL), Cl fd], Done ())"
    by (rule fifo_read_loop_tells) (simp_all del: upt_rec_numeral)
  ultimately show ?thesis using assms(2) by (simp add: fifo_read_main_def del: upt_rec_numeral)
qed

lemma fifo_messages_witness:
  "events (fifo_read_main 3 (zeros BUFSIZ) (map (\<lambda>i. RdData (fifo_text i)) [0..<100] @ [RdData []])) =
     map told [0..<100] @ [Out (''the writing end is closed'' @ NL), Cl 3]"
  using fifo_messages [of "zeros BUFSIZ" 3 0 4] by (simp del: upt_rec_numeral) fastforce

end
