(* ===== verification/SharedMap.thy ===== *)
theory SharedMap
  imports Echo
begin

text \<open>
  Shared memory: \<^verbatim>\<open>mmap-p2c-ipc.c\<close> (a child writes to a mapped file, its parent reads), \<^verbatim>\<open>mmap-anonymous.c\<close>
  (the same without a file, and without waiting), \<^verbatim>\<open>a.c\<close> and \<^verbatim>\<open>b.c\<close> of \<^verbatim>\<open>Dif_Process_Mmap\<close> (two programs, each
  with a writer and a reader, over two mapped files) and the System V segment of \<^verbatim>\<open>write_shm.c\<close> and
  \<^verbatim>\<open>read_shm.c\<close>.  A mapping is backed by whole pages of 4096 bytes; touching a page the file does not
  have kills the process, which counts as undefined here.
\<close>

section \<open>Mapped files\<close>

definition pages :: "nat \<Rightarrow> nat" where
  "pages n = (n + 4095) div 4096 * 4096"

text \<open>The bytes of a mapping of a file, those behind its end in the last page included.\<close>

definition mapped :: "string \<Rightarrow> string" where
  "mapped f = f @ zeros (pages (length f) - length f)"

text \<open>\<open>strcpy\<close> of a string into an area.\<close>

definition strcpy :: "string \<Rightarrow> string \<Rightarrow> string comp" where
  "strcpy dst s = (if length s < length dst then ret (fill dst (s @ [NUL])) else undef)"

lemma pages_ge: "n \<le> pages n"
  using div_mult_mod_eq [of "n + 4095" 4096] mod_less_divisor [of 4096 "n + 4095"]
  unfolding pages_def by linarith

lemma length_mapped:
  assumes "f \<noteq> []"
  shows "4096 \<le> length (mapped f)"
proof -
  have "4096 \<le> length f + 4095" using assms by (cases f) simp_all
  then have "0 < (length f + 4095) div 4096" by (simp add: div_greater_zero_iff)
  then have "4096 \<le> pages (length f)" unfolding pages_def by linarith
  then show ?thesis by (simp add: mapped_def)
qed

lemma strcpy_fits: "length s < length dst \<Longrightarrow> strcpy dst s = ret (fill dst (s @ [NUL]))"
  by (simp add: strcpy_def)

lemma cstr_fill_NUL: "NUL \<notin> set s \<Longrightarrow> cstr (fill dst (s @ [NUL])) = ret s"
proof -
  assume "NUL \<notin> set s"
  then have "cstr (fill dst (s @ [NUL])) = ([], Done s)" by (simp add: cstr_eq_Done fill_def text_of_no_NUL)
  then show ?thesis by (simp add: effect_simps)
qed

section \<open>Father and son over a file\<close>

definition p2c_msg :: string where
  "p2c_msg = ''Hello, father!!!''"

definition p2c_child :: "string \<Rightarrow> string comp" where
  "p2c_child mem = strcpy mem p2c_msg"

definition p2c_parent :: "string \<Rightarrow> unit comp" where
  "p2c_parent mem =
     bindc (cstr mem) (\<lambda>s.
     bindc (strcpy (zeros 64) s) (\<lambda>buf.
     bindc (cstr buf) (\<lambda>t. emit (Out (''read data : '' @ t @ NL)))))"

text \<open>
  \<open>main\<close>, with the file (\<open>None\<close>: \<open>open\<close> has failed, so that \<open>size\<close> is -1 and the mapping fails too) and the
  result of \<open>fork\<close>.  The parent waits for the child, which has done its part by then.  The value is the file at
  the end.
\<close>

definition p2c_main :: "string option \<Rightarrow> int \<Rightarrow> string comp" where
  "p2c_main file pid =
     (case file of
        None \<Rightarrow> thenc (emit (Perror ''mmap'')) (exit_with 0)
      | Some f \<Rightarrow>
          if f = [] then thenc (emit (Perror ''mmap'')) (exit_with 0)
          else if pid = 0 then bindc (p2c_child (mapped f)) (\<lambda>mem. ret (take (length f) mem))
          else if 0 < pid then
            bindc (p2c_child (mapped f)) (\<lambda>mem.
            thenc (p2c_parent mem) (ret (take (length f) mem)))
          else ret f)"

text \<open>However short the file, as long as it is not empty, the parent reads the whole message of its
  child; the file takes as much of it as it has room for and keeps its length.  Without a file, or
  with an empty one, the program ends at the mapping.\<close>

theorem p2c_delivers:
  assumes "0 < pid"
  shows "(f \<noteq> [] \<longrightarrow> p2c_main (Some f) pid =
      ([Out (''read data : Hello, father!!!'' @ NL)], Done (take (length f) (p2c_msg @ NUL # drop 17 f)))) \<and>
    p2c_main None pid = ([Perror ''mmap''], Exit 0) \<and> p2c_main (Some []) pid = ([Perror ''mmap''], Exit 0)"
proof (intro conjI impI)
  assume f: "f \<noteq> []"
  have msg: "length p2c_msg = 16" "NUL \<notin> set p2c_msg" by (simp_all add: p2c_msg_def NUL_def)
  have child: "p2c_child (mapped f) = ret (fill (mapped f) (p2c_msg @ [NUL]))"
    unfolding p2c_child_def using length_mapped [OF f] msg(1) by (intro strcpy_fits) simp
  have parent: "p2c_parent (fill (mapped f) (p2c_msg @ [NUL])) = emit (Out (''read data : '' @ p2c_msg @ NL))"
    using msg by (simp add: p2c_parent_def cstr_fill_NUL strcpy_fits)
  have "take (length f) (fill (mapped f) (p2c_msg @ [NUL])) = take (length f) (p2c_msg @ NUL # drop 17 f)"
    using msg(1) by (simp add: fill_def mapped_def take_Cons' min_def)
  with f assms show "p2c_main (Some f) pid =
      ([Out (''read data : Hello, father!!!'' @ NL)], Done (take (length f) (p2c_msg @ NUL # drop 17 f)))"
    by (simp add: p2c_main_def child parent effect_simps) (simp add: p2c_msg_def)
qed (simp_all add: p2c_main_def effect_simps)

lemma p2c_delivers_witness:
  "p2c_main (Some ''abc'') 5 = ([Out (''read data : Hello, father!!!'' @ NL)], Done ''Hel'')"
  using p2c_delivers [of 5 "''abc''"] by (simp add: p2c_msg_def)

section \<open>An anonymous mapping\<close>

text \<open>The parent copies its text byte by byte while the child, after a second, prints what is there.\<close>

definition anon_msg :: string where
  "anon_msg = ''Hello World!''"

record anon =
  area :: string
  copied :: nat
  child_says :: "string option"
  unmapped :: bool

datatype anon_label = CopyByte | ChildPrint | ParentWaited

definition anon_init :: anon where
  "anon_init = \<lparr>area = zeros BUFSIZ, copied = 0, child_says = None, unmapped = False\<rparr>"

definition anon_step :: "anon \<Rightarrow> anon_label \<Rightarrow> anon option" where
  "anon_step s l =
     (case l of
        CopyByte \<Rightarrow>
          (if copied s \<le> length anon_msg
           then Some (s\<lparr>area := (area s)[copied s := (anon_msg @ [NUL]) ! copied s], copied := Suc (copied s)\<rparr>)
           else None)
      | ChildPrint \<Rightarrow>
          (if child_says s = None
           then (case cstr (area s) of (_, Done t) \<Rightarrow> Some (s\<lparr>child_says := Some t\<rparr>) | _ \<Rightarrow> None)
           else None)
      | ParentWaited \<Rightarrow>
          (if length anon_msg < copied s \<and> child_says s \<noteq> None \<and> \<not> unmapped s
           then Some (s\<lparr>unmapped := True\<rparr>) else None))"

definition anon_main :: "bool \<Rightarrow> anon comp" where
  "anon_main ok = (if \<not> ok then thenc (emit (Perror ''mmap'')) (exit_with 0) else ret anon_init)"

definition anon_inv :: "anon \<Rightarrow> bool" where
  "anon_inv s \<longleftrightarrow> copied s \<le> 13 \<and> area s = take (copied s) anon_msg @ zeros (BUFSIZ - min (copied s) 12) \<and>
     (\<forall>t. child_says s = Some t \<longrightarrow> (\<exists>n \<le> copied s. t = take n anon_msg))"

lemma anon_msg_facts: "length anon_msg = 12" "NUL \<notin> set anon_msg"
  by (simp_all add: anon_msg_def NUL_def)

lemma zeros_split: "0 < n \<Longrightarrow> zeros n = NUL # zeros (n - 1)"
  by (cases n) (simp_all add: zeros_def)

lemma anon_inv_step:
  assumes "anon_inv s" "anon_step s l = Some t"
  shows "anon_inv t"
proof (cases l)
  case CopyByte
  then have k: "copied s \<le> 12" and t: "t = s\<lparr>area := (area s)[copied s := (anon_msg @ [NUL]) ! copied s], copied := Suc (copied s)\<rparr>"
    using assms(2) anon_msg_facts by (auto simp: anon_step_def split: if_splits)
  have a: "area s = take (copied s) anon_msg @ zeros (BUFSIZ - copied s)" using assms(1) k by (simp add: anon_inv_def)
  have z: "zeros (BUFSIZ - copied s) = NUL # zeros (BUFSIZ - Suc (copied s))"
    using k zeros_split [of "BUFSIZ - copied s"] by (simp add: BUFSIZ_def)
  have "area t = take (Suc (copied s)) anon_msg @ zeros (BUFSIZ - min (Suc (copied s)) 12)"
  proof (cases "copied s = 12")
    case True
    with t a z show ?thesis using anon_msg_facts(1) by (simp add: list_update_append nth_append)
  next
    case False
    with k have lt: "copied s < length anon_msg" using anon_msg_facts(1) by simp
    have "area t = take (copied s) anon_msg @ (anon_msg ! copied s) # zeros (BUFSIZ - Suc (copied s))"
      using t a z lt by (simp add: list_update_append nth_append)
    with lt False k show ?thesis using anon_msg_facts(1) by (simp add: take_Suc_conv_app_nth)
  qed
  with assms(1) t k show ?thesis by (auto simp: anon_inv_def intro: le_SucI)
next
  case ChildPrint
  then obtain x where x: "cstr (area s) = ([], Done x)" and t: "t = s\<lparr>child_says := Some x\<rparr>"
    using assms(2) by (auto simp: anon_step_def cstr_def effect_simps split: if_splits option.splits)
  have "NUL \<notin> set (take (copied s) anon_msg)" using anon_msg_facts(2) by (auto dest: in_set_takeD)
  then have "x = take (copied s) anon_msg"
    using x assms(1) by (simp add: cstr_eq_Done anon_inv_def text_of_no_NUL_append)
  with assms(1) t show ?thesis by (auto simp: anon_inv_def)
next
  case ParentWaited
  with assms show ?thesis by (auto simp: anon_step_def anon_inv_def split: if_splits)
qed

interpretation an: safe_system anon_step anon_init anon_inv
  by unfold_locales (simp add: anon_inv_def anon_init_def, rule anon_inv_step)

text \<open>\<open>sleep(1)\<close> in the child does not synchronise it with its parent: the child prints some beginning
  of the text, and every beginning, the empty one included, can be what it prints.\<close>

theorem anon_prefix:
  assumes "reachable anon_step anon_init s" "n \<le> 12"
  shows "(\<forall>t. child_says s = Some t \<longrightarrow> (\<exists>m. t = take m anon_msg)) \<and>
    (\<exists>u. reachable anon_step anon_init u \<and> child_says u = Some (take n anon_msg))"
proof
  show "\<forall>t. child_says s = Some t \<longrightarrow> (\<exists>m. t = take m anon_msg)"
    using an.inv_reachable [OF assms(1)] by (auto simp: anon_inv_def)
  have "\<exists>u. reachable anon_step anon_init u \<and> copied u = k \<and> child_says u = None" if "k \<le> 12" for k
    using that
  proof (induction k)
    case 0
    show ?case by (intro exI [of _ anon_init] conjI reach_start) (simp_all add: anon_init_def)
  next
    case (Suc k)
    then obtain u where u: "reachable anon_step anon_init u" "copied u = k" "child_says u = None" by auto
    let ?v = "u\<lparr>area := (area u)[k := (anon_msg @ [NUL]) ! k], copied := Suc k\<rparr>"
    have "anon_step u CopyByte = Some ?v" using u Suc.prems anon_msg_facts by (simp add: anon_step_def)
    with u show ?case by (intro exI [of _ ?v]) (auto intro: reach_step)
  qed
  from this [OF assms(2)] obtain u where u: "reachable anon_step anon_init u" "copied u = n" "child_says u = None" by blast
  have inv: "anon_inv u" using u(1) by (rule an.inv_reachable)
  have "NUL \<notin> set (take n anon_msg)" using anon_msg_facts(2) by (auto dest: in_set_takeD)
  then have "cstr (area u) = ([], Done (take n anon_msg))"
    using inv u(2) assms(2) by (simp add: cstr_eq_Done anon_inv_def text_of_no_NUL_append BUFSIZ_def)
  then have "anon_step u ChildPrint = Some (u\<lparr>child_says := Some (take n anon_msg)\<rparr>)"
    using u(3) by (simp add: anon_step_def)
  with u(1) show "\<exists>u. reachable anon_step anon_init u \<and> child_says u = Some (take n anon_msg)"
    by (intro exI [of _ "u\<lparr>child_says := Some (take n anon_msg)\<rparr>"]) (auto intro: reach_step)
qed

lemma anon_prefix_witness: "\<exists>u. reachable anon_step anon_init u \<and> child_says u = Some ''Hello''"
  using anon_prefix [OF reach_start, of 5] by (simp add: anon_msg_def)

section \<open>Two programs over two files\<close>

text \<open>
  One of the programs \<^verbatim>\<open>a.c\<close> and \<^verbatim>\<open>b.c\<close>: \<open>wmem\<close> is the mapping it writes to, \<open>wrote\<close> what its parent has
  written, \<open>waiting\<close> whether the parent is in \<open>wait\<close>, and \<open>pshown\<close> what its child has shown of the
  other program's mapping.  Each of the two processes is taken to die of its own memory errors, a copy past its buffer or a read past its
  mapping; the child has no other end.
\<close>

record half =
  wmem :: string
  wrote :: "string list"
  waiting :: bool
  pshown :: "string list"
  parent_dead :: bool
  child_dead :: bool

text \<open>The start of one program, with the contents of its two files (\<open>None\<close>: \<open>open\<close> fails).\<close>

definition dif_start :: "string option \<Rightarrow> string option \<Rightarrow> int \<Rightarrow> half comp" where
  "dif_start w r pid =
     (case w of
        None \<Rightarrow> thenc (emit (Perror ''open'')) (exit_with 0)
      | Some fw \<Rightarrow>
         (case r of
            None \<Rightarrow> thenc (emit (Perror ''open'')) (exit_with 0)
          | Some fr \<Rightarrow>
              if fw = [] then thenc (emit (Perror ''mmapW'')) (exit_with (-1))
              else if pid = -1 then thenc (emit (Perror ''fork'')) (exit_with (-1))
              else ret \<lparr>wmem = mapped fw, wrote = [], waiting = False, pshown = [], parent_dead = False, child_dead = False\<rparr>))"

text \<open>The parent: \<open>scanf\<close> into 128 bytes without a bound, a copy into the mapping, and \<open>wait\<close>.\<close>

definition half_write :: "string \<Rightarrow> half \<Rightarrow> half option" where
  "half_write word h =
     (if waiting h \<or> parent_dead h then None
      else case bindc (strcpy (zeros 128) word) (\<lambda>buf. bindc (cstr buf) (strcpy (wmem h))) of
             (_, Done m) \<Rightarrow> Some (h\<lparr>wmem := m, wrote := wrote h @ [word], waiting := True\<rparr>)
           | _ \<Rightarrow> Some (h\<lparr>parent_dead := True\<rparr>))"

text \<open>\<open>wait\<close> returns when the child is dead: with its number the first time, with an error from then on.\<close>

definition half_waited :: "half \<Rightarrow> half option" where
  "half_waited h =
     (if waiting h \<and> \<not> parent_dead h \<and> child_dead h then Some (h\<lparr>waiting := False\<rparr>) else None)"

text \<open>The child: the other mapping is mapped with the size of the program's own file.\<close>

definition half_read :: "string \<Rightarrow> half \<Rightarrow> half option" where
  "half_read other h =
     (if child_dead h then None
      else case bindc (cstr (take (length (wmem h)) other)) (\<lambda>t. bindc (strcpy (zeros 128) t) cstr) of
             (_, Done t) \<Rightarrow> Some (h\<lparr>pshown := pshown h @ [t]\<rparr>)
           | _ \<Rightarrow> Some (h\<lparr>child_dead := True\<rparr>))"

record dif =
  prog_a :: half
  prog_b :: half

datatype dif_label = AWrite string | AWaited | ARead | BWrite string | BWaited | BRead

definition dif_step :: "dif \<Rightarrow> dif_label \<Rightarrow> dif option" where
  "dif_step s l =
     (case l of
        AWrite w \<Rightarrow> (if NUL \<in> set w then None else map_option (\<lambda>h. s\<lparr>prog_a := h\<rparr>) (half_write w (prog_a s)))
      | AWaited \<Rightarrow> map_option (\<lambda>h. s\<lparr>prog_a := h\<rparr>) (half_waited (prog_a s))
      | ARead \<Rightarrow> map_option (\<lambda>h. s\<lparr>prog_a := h\<rparr>) (half_read (wmem (prog_b s)) (prog_a s))
      | BWrite w \<Rightarrow> (if NUL \<in> set w then None else map_option (\<lambda>h. s\<lparr>prog_b := h\<rparr>) (half_write w (prog_b s)))
      | BWaited \<Rightarrow> map_option (\<lambda>h. s\<lparr>prog_b := h\<rparr>) (half_waited (prog_b s))
      | BRead \<Rightarrow> map_option (\<lambda>h. s\<lparr>prog_b := h\<rparr>) (half_read (wmem (prog_a s)) (prog_b s)))"

definition dif_init :: "string \<Rightarrow> string \<Rightarrow> dif" where
  "dif_init fa fb =
     \<lparr>prog_a = \<lparr>wmem = mapped fa, wrote = [], waiting = False, pshown = [], parent_dead = False, child_dead = False\<rparr>,
      prog_b = \<lparr>wmem = mapped fb, wrote = [], waiting = False, pshown = [], parent_dead = False, child_dead = False\<rparr>\<rparr>"

text \<open>What can be seen of a program's file: what was in it, or a word written.\<close>

definition seen :: "string \<Rightarrow> half \<Rightarrow> string set" where
  "seen f h = insert (text_of (mapped f)) (set (wrote h))"

text \<open>Every word written fits both buffers; and as long as the child lives, the parent does not get past its first \<open>wait\<close>.\<close>

definition half_ok :: "string \<Rightarrow> half \<Rightarrow> bool" where
  "half_ok f h \<longleftrightarrow> text_of (wmem h) \<in> seen f h \<and> length (wmem h) = length (mapped f) \<and>
     (NUL \<in> set (wmem h) \<or> wmem h = mapped f) \<and> (\<forall>w\<in>set (wrote h). length w < 128) \<and>
     (\<not> child_dead h \<longrightarrow> length (wrote h) = (if waiting h then 1 else 0))"

lemma text_of_take: "NUL \<in> set (take n m) \<Longrightarrow> text_of (take n m) = text_of m"
proof -
  assume n: "NUL \<in> set (take n m)"
  have "text_of (take n m @ drop n m) = text_of (take n m)"
    using n unfolding text_of_def by (rule takeWhile_append_stop) simp
  then show ?thesis by simp
qed

lemma half_write_ok:
  assumes "half_ok f h" "half_write w h = Some k" "NUL \<notin> set w"
  shows "half_ok f k \<and> set (wrote h) \<subseteq> set (wrote k) \<and> pshown k = pshown h \<and> child_dead k = child_dead h"
proof (cases "length w < 128 \<and> length w < length (wmem h)")
  case True
  have w: "\<not> waiting h" "\<not> parent_dead h" using assms(2) by (auto simp: half_write_def split: if_splits)
  have "bindc (strcpy (zeros 128) w) (\<lambda>buf. bindc (cstr buf) (strcpy (wmem h))) = ret (fill (wmem h) (w @ [NUL]))"
    using True assms(3) by (simp add: strcpy_def cstr_fill_NUL effect_simps)
  with assms(2) w have "k = h\<lparr>wmem := fill (wmem h) (w @ [NUL]), wrote := wrote h @ [w], waiting := True\<rparr>"
    by (simp add: half_write_def effect_simps)
  moreover have "text_of (fill (wmem h) (w @ [NUL])) = w" "NUL \<in> set (fill (wmem h) (w @ [NUL]))"
    using assms(3) by (simp_all add: fill_def text_of_no_NUL_append text_of_no_NUL)
  moreover have "length (fill (wmem h) (w @ [NUL])) = length (wmem h)" using True by (auto simp: fill_def)
  ultimately show ?thesis using assms(1) True w by (auto simp: half_ok_def seen_def)
next
  case False
  then have "outcome (bindc (strcpy (zeros 128) w) (\<lambda>buf. bindc (cstr buf) (strcpy (wmem h)))) = Undef"
    using assms(3) by (cases "length w < 128") (simp_all add: strcpy_def cstr_fill_NUL effect_simps)
  then have "k = h\<lparr>parent_dead := True\<rparr>" using assms(2)
    by (auto simp: half_write_def split: if_splits prod.splits outcome.splits)
  with assms(1) show ?thesis by (simp add: half_ok_def seen_def)
qed

lemma half_waited_ok:
  "half_ok f h \<Longrightarrow> half_waited h = Some k \<Longrightarrow>
     half_ok f k \<and> wrote k = wrote h \<and> pshown k = pshown h \<and> child_dead k = child_dead h"
  by (auto simp: half_waited_def half_ok_def seen_def split: if_splits)

text \<open>The child shows something that could be seen of the other file, and dies of a text too long for it, or without an end.\<close>

definition readable :: "nat \<Rightarrow> half \<Rightarrow> bool" where
  "readable n o' \<longleftrightarrow> NUL \<in> set (take n (wmem o')) \<and> length (text_of (wmem o')) < 128"

lemma half_read_ok:
  assumes "half_ok f h" "half_ok g o'" "half_read (wmem o') h = Some k"
  shows "half_ok f k \<and> wrote k = wrote h \<and> (\<forall>t \<in> set (pshown k). t \<in> set (pshown h) \<or> t \<in> seen g o') \<and>
    (child_dead k \<longrightarrow> \<not> readable (length (wmem h)) o')"
proof -
  let ?v = "take (length (wmem h)) (wmem o')"
  have c: "\<not> child_dead h" using assms(3) by (auto simp: half_read_def split: if_splits)
  show ?thesis
  proof (cases "readable (length (wmem h)) o'")
    case True
    then have v: "text_of ?v = text_of (wmem o')" "NUL \<in> set ?v" "length (text_of (wmem o')) < 128"
      by (simp_all add: text_of_take readable_def)
    from v(2) have "cstr ?v = ret (text_of ?v)" by (intro cstr_NUL)
    moreover have "bindc (strcpy (zeros 128) (text_of ?v)) cstr = ret (text_of ?v)"
      using v(1,3) by (simp add: strcpy_def cstr_fill_NUL effect_simps)
    ultimately have k: "k = h\<lparr>pshown := pshown h @ [text_of (wmem o')]\<rparr>"
      using c assms(3) v(1) by (simp add: half_read_def effect_simps)
    moreover have "text_of (wmem o') \<in> seen g o'" using assms(2) by (simp add: half_ok_def)
    ultimately show ?thesis using c assms(1) by (auto simp: half_ok_def seen_def)
  next
    case False
    have "outcome (bindc (cstr ?v) (\<lambda>t. bindc (strcpy (zeros 128) t) cstr)) = Undef"
    proof (cases "NUL \<in> set ?v")
      case True
      with False text_of_take [OF True] show ?thesis
        by (simp add: readable_def cstr_NUL strcpy_def effect_simps)
    qed (simp add: cstr_no_NUL effect_simps)
    then have "k = h\<lparr>child_dead := True\<rparr>" using c assms(3)
      by (auto simp: half_read_def split: prod.splits outcome.splits)
    with False assms(1) show ?thesis by (simp add: half_ok_def seen_def)
  qed
qed

text \<open>Files are mapped in pages, so a text of fewer than 128 bytes has its NUL in view.\<close>

lemma short_readable:
  assumes "half_ok g o'" "length (text_of (mapped g)) < 128" "128 \<le> n" "g \<noteq> []"
  shows "readable n o'"
proof -
  have t: "length (text_of (wmem o')) < 128" using assms(1,2) by (auto simp: half_ok_def seen_def)
  have "128 \<le> length (wmem o')" using assms(1) length_mapped [OF assms(4)] by (simp add: half_ok_def)
  moreover have "takeWhile (\<lambda>c. c \<noteq> NUL) (wmem o') = take (length (text_of (wmem o'))) (wmem o')"
    by (simp add: text_of_def take_length_takeWhile)
  ultimately have "wmem o' ! length (text_of (wmem o')) = NUL"
    using t nth_length_takeWhile [of "\<lambda>c. c \<noteq> NUL" "wmem o'"] by (simp add: text_of_def)
  with t assms(3) \<open>128 \<le> length (wmem o')\<close> have "NUL \<in> set (take n (wmem o'))"
    by (auto simp: in_set_conv_nth intro!: exI [of _ "length (text_of (wmem o'))"])
  with t show ?thesis by (simp add: readable_def)
qed

definition lives :: "string \<Rightarrow> string \<Rightarrow> half \<Rightarrow> bool" where
  "lives f g h \<longleftrightarrow> (f \<noteq> [] \<longrightarrow> g \<noteq> [] \<longrightarrow> length (text_of (mapped g)) < 128 \<longrightarrow> \<not> child_dead h)"

lemma half_read_lives:
  assumes "half_ok f h" "half_ok g o'" "half_read (wmem o') h = Some k" "lives f g h"
  shows "lives f g k"
proof -
  have "readable (length (wmem h)) o'" if "f \<noteq> []" "g \<noteq> []" "length (text_of (mapped g)) < 128"
    using short_readable [OF assms(2) that(3) _ that(2)] assms(1) length_mapped [OF that(1)] by (simp add: half_ok_def)
  with half_read_ok [OF assms(1-3)] show ?thesis by (auto simp: lives_def)
qed

definition dif_inv :: "string \<Rightarrow> string \<Rightarrow> dif \<Rightarrow> bool" where
  "dif_inv fa fb s \<longleftrightarrow> half_ok fa (prog_a s) \<and> half_ok fb (prog_b s) \<and> lives fa fb (prog_a s) \<and> lives fb fa (prog_b s) \<and>
     set (pshown (prog_a s)) \<subseteq> seen fb (prog_b s) \<and> set (pshown (prog_b s)) \<subseteq> seen fa (prog_a s)"

lemma lives_cong: "child_dead k = child_dead h \<Longrightarrow> lives f g k = lives f g h"
  by (simp add: lives_def)

lemma dif_inv_step:
  assumes "dif_inv fa fb s" "dif_step s l = Some t"
  shows "dif_inv fa fb t"
proof (cases l)
  case (AWrite w)
  with assms(2) obtain h where "half_write w (prog_a s) = Some h" "t = s\<lparr>prog_a := h\<rparr>" "NUL \<notin> set w"
    by (auto simp: dif_step_def split: if_splits)
  with half_write_ok [of fa "prog_a s" w h] lives_cong [of h "prog_a s"] assms(1) show ?thesis
    by (auto simp: dif_inv_def seen_def)
next
  case AWaited
  with assms(2) obtain h where "half_waited (prog_a s) = Some h" "t = s\<lparr>prog_a := h\<rparr>" by (auto simp: dif_step_def)
  with half_waited_ok [of fa "prog_a s" h] lives_cong [of h "prog_a s"] assms(1) show ?thesis
    by (auto simp: dif_inv_def seen_def)
next
  case ARead
  with assms(2) obtain h where "half_read (wmem (prog_b s)) (prog_a s) = Some h" "t = s\<lparr>prog_a := h\<rparr>"
    by (auto simp: dif_step_def)
  with half_read_ok [of fa "prog_a s" fb "prog_b s" h] half_read_lives [of fa "prog_a s" fb "prog_b s" h] assms(1)
  show ?thesis by (auto simp: dif_inv_def seen_def)
next
  case (BWrite w)
  with assms(2) obtain h where "half_write w (prog_b s) = Some h" "t = s\<lparr>prog_b := h\<rparr>" "NUL \<notin> set w"
    by (auto simp: dif_step_def split: if_splits)
  with half_write_ok [of fb "prog_b s" w h] lives_cong [of h "prog_b s"] assms(1) show ?thesis
    by (auto simp: dif_inv_def seen_def)
next
  case BWaited
  with assms(2) obtain h where "half_waited (prog_b s) = Some h" "t = s\<lparr>prog_b := h\<rparr>" by (auto simp: dif_step_def)
  with half_waited_ok [of fb "prog_b s" h] lives_cong [of h "prog_b s"] assms(1) show ?thesis
    by (auto simp: dif_inv_def seen_def)
next
  case BRead
  with assms(2) obtain h where "half_read (wmem (prog_a s)) (prog_b s) = Some h" "t = s\<lparr>prog_b := h\<rparr>"
    by (auto simp: dif_step_def)
  with half_read_ok [of fb "prog_b s" fa "prog_a s" h] half_read_lives [of fb "prog_b s" fa "prog_a s" h] assms(1)
  show ?thesis by (auto simp: dif_inv_def seen_def)
qed

interpretation df: safe_system dif_step "dif_init fa fb" "dif_inv fa fb"
  by unfold_locales (simp add: dif_inv_def dif_init_def half_ok_def seen_def lives_def, rule dif_inv_step)

text \<open>What keeps a parent from going on, and what lets it.\<close>

lemma half_stops:
  assumes "half_ok f h" "\<not> child_dead h"
  shows "length (wrote h) \<le> 1" "wrote h \<noteq> [] \<Longrightarrow> half_write w h = None \<and> half_waited h = None"
  using assms by (auto simp: half_ok_def half_write_def half_waited_def split: if_splits)



section \<open>A System V segment\<close>

text \<open>
  The segments, by identifier, and the one with key 100.  Attached segments stay after \<open>IPC_RMID\<close>, which
  only takes the key away.  \<open>shmget\<close> with size 0 finds a segment but makes none.
\<close>

datatype shm_pc = Get | Use nat | Key nat | Gone | ShmCrash

record shm =
  segs :: "string list"
  key100 :: "nat option"
  writer_at :: shm_pc
  reader_at :: shm_pc
  rshown :: "string option"

definition shm_init :: shm where
  "shm_init = \<lparr>segs = [], key100 = None, writer_at = Get, reader_at = Get, rshown = None\<rparr>"

definition shm_text :: string where
  "shm_text = ''helloworld''"

definition rmid :: "nat \<Rightarrow> shm \<Rightarrow> shm" where
  "rmid i s = (if key100 s = Some i then s\<lparr>key100 := None\<rparr> else s)"

definition shm_write :: "shm \<Rightarrow> shm option" where
  "shm_write s =
     (case writer_at s of
        Get \<Rightarrow> Some (case key100 s of
                 Some i \<Rightarrow> s\<lparr>writer_at := Use i\<rparr>
               | None \<Rightarrow> s\<lparr>segs := segs s @ [zeros 4096], key100 := Some (length (segs s)), writer_at := Use (length (segs s))\<rparr>)
      | Use i \<Rightarrow> Some (s\<lparr>segs := (segs s)[i := fill (segs s ! i) (shm_text @ [NUL])], writer_at := Key i\<rparr>)
      | Key i \<Rightarrow> Some (rmid i (s\<lparr>writer_at := Gone\<rparr>))
      | _ \<Rightarrow> None)"

definition shm_read :: "shm \<Rightarrow> shm option" where
  "shm_read s =
     (case reader_at s of
        Get \<Rightarrow> Some (case key100 s of Some i \<Rightarrow> s\<lparr>reader_at := Use i\<rparr> | None \<Rightarrow> s\<lparr>reader_at := ShmCrash\<rparr>)
      | Use i \<Rightarrow>
          (case cstr (segs s ! i) of
             (_, Done t) \<Rightarrow> Some (s\<lparr>rshown := Some t, reader_at := Key i\<rparr>)
           | _ \<Rightarrow> Some (s\<lparr>reader_at := ShmCrash\<rparr>))
      | Key i \<Rightarrow> Some (rmid i (s\<lparr>reader_at := Gone\<rparr>))
      | _ \<Rightarrow> None)"

definition shm_step :: "shm \<Rightarrow> bool \<Rightarrow> shm option" where
  "shm_step s writer = (if writer then shm_write s else shm_read s)"

definition shm_inv :: "shm \<Rightarrow> bool" where
  "shm_inv s \<longleftrightarrow> (\<forall>m \<in> set (segs s). m = zeros 4096 \<or> m = fill (zeros 4096) (shm_text @ [NUL])) \<and>
     (\<forall>i. key100 s = Some i \<or> writer_at s = Use i \<or> reader_at s = Use i \<longrightarrow> i < length (segs s)) \<and>
     (\<forall>i. writer_at s = Key i \<longrightarrow> i < length (segs s) \<and> segs s ! i = fill (zeros 4096) (shm_text @ [NUL])) \<and>
     (\<forall>t. rshown s = Some t \<longrightarrow> t = [] \<or> t = shm_text)"

lemma fill_again: "length d \<le> length b \<Longrightarrow> fill (fill b d) d = fill b d"
  by (simp add: fill_def)

lemma shm_text_facts: "length shm_text = 10" "NUL \<notin> set shm_text"
  by (simp_all add: shm_text_def NUL_def)

lemma shm_write_inv: "shm_inv s \<Longrightarrow> shm_write s = Some t \<Longrightarrow> shm_inv t"
proof (cases "writer_at s")
  case (Use i)
  assume inv: "shm_inv s" and "shm_write s = Some t"
  then have i: "i < length (segs s)" and t: "t = s\<lparr>segs := (segs s)[i := fill (segs s ! i) (shm_text @ [NUL])], writer_at := Key i\<rparr>"
    using Use by (auto simp: shm_write_def shm_inv_def)
  have "segs s ! i = zeros 4096 \<or> segs s ! i = fill (zeros 4096) (shm_text @ [NUL])"
    using inv i by (simp add: shm_inv_def)
  then have new: "fill (segs s ! i) (shm_text @ [NUL]) = fill (zeros 4096) (shm_text @ [NUL])"
    using fill_again [of "shm_text @ [NUL]" "zeros 4096"] shm_text_facts(1) by auto
  have "\<forall>m \<in> set ((segs s)[i := fill (zeros 4096) (shm_text @ [NUL])]).
      m = zeros 4096 \<or> m = fill (zeros 4096) (shm_text @ [NUL])"
    using inv set_update_subset_insert [of "segs s" i] by (auto simp: shm_inv_def)
  with inv i t new show ?thesis by (auto simp: shm_inv_def)
next
  case Get
  assume "shm_inv s" "shm_write s = Some t"
  with Get show ?thesis
    by (cases "key100 s") (auto simp: shm_write_def shm_inv_def less_Suc_eq nth_append)
next
  case (Key i)
  assume "shm_inv s" "shm_write s = Some t"
  with Key show ?thesis by (cases "key100 s = Some i") (auto simp: shm_write_def shm_inv_def rmid_def)
qed (simp_all add: shm_write_def)

lemma shm_read_inv: "shm_inv s \<Longrightarrow> shm_read s = Some t \<Longrightarrow> shm_inv t"
proof (cases "reader_at s")
  case (Use i)
  assume inv: "shm_inv s" and r: "shm_read s = Some t"
  then have "i < length (segs s)" using Use by (simp add: shm_inv_def)
  then have m: "segs s ! i = zeros 4096 \<or> segs s ! i = fill (zeros 4096) (shm_text @ [NUL])"
    using inv by (simp add: shm_inv_def)
  then obtain x where "cstr (segs s ! i) = ret x" "x = [] \<or> x = shm_text"
  proof
    assume "segs s ! i = zeros 4096"
    then have "cstr (segs s ! i) = ret []" by (simp add: cstr_NUL)
    then show ?thesis using that by blast
  next
    assume "segs s ! i = fill (zeros 4096) (shm_text @ [NUL])"
    moreover have "cstr (fill (zeros 4096) (shm_text @ [NUL])) = ret shm_text"
      by (rule cstr_fill_NUL) (rule shm_text_facts)
    ultimately show ?thesis using that by simp
  qed
  with r Use inv show ?thesis by (auto simp: shm_read_def shm_inv_def effect_simps)
next
  case Get
  assume "shm_inv s" "shm_read s = Some t"
  with Get show ?thesis by (cases "key100 s") (auto simp: shm_read_def shm_inv_def)
next
  case (Key i)
  assume "shm_inv s" "shm_read s = Some t"
  with Key show ?thesis by (cases "key100 s = Some i") (auto simp: shm_read_def shm_inv_def rmid_def)
qed (simp_all add: shm_read_def)

interpretation sh: safe_system shm_step shm_init shm_inv
  by unfold_locales
     (simp add: shm_inv_def shm_init_def, auto simp: shm_step_def split: if_splits intro: shm_write_inv shm_read_inv)

text \<open>The reader shows nothing or the whole text; when it comes before the writer, it uses a segment that does not exist.\<close>

lemma shm_reads:
  assumes "reachable shm_step shm_init s"
  shows "rshown s = Some t \<Longrightarrow> t = [] \<or> t = ''helloworld''"
    and "reader_at s = Get \<Longrightarrow> key100 s = None \<Longrightarrow> \<exists>u. shm_step s False = Some u \<and> reader_at u = ShmCrash"
  using sh.inv_reachable [OF assms] by (auto simp: shm_inv_def shm_text_def shm_step_def shm_read_def)

end
