(* ===== verification/Slots.thy ===== *)
theory Slots
  imports Prelude
begin

text \<open>
  Interface of the fixed connection tables: \<open>poll.c\<close> keeps a table of \<open>pollfd\<close>, \<open>server_thread.c\<close>
  one of \<open>sockInfo\<close>; in both the entry -1 marks a free slot, and a new connection takes the
  first free one.  \<open>owner t\<close> is the abstract table, from slots to the descriptors in them.
\<close>

definition inj_owner :: "(nat \<Rightarrow> int option) \<Rightarrow> bool" where
  "inj_owner f \<longleftrightarrow> (\<forall>i j c. f i = Some c \<and> f j = Some c \<longrightarrow> i = j)"

lemma inj_ownerD: "inj_owner f \<Longrightarrow> f i = Some c \<Longrightarrow> f j = Some c \<Longrightarrow> i = j"
  by (auto simp: inj_owner_def)

lemma inj_owner_update: "inj_owner f \<Longrightarrow> c \<notin> ran f \<Longrightarrow> inj_owner (f(j \<mapsto> c))"
  by (auto simp: inj_owner_def ran_def)

lemma inj_owner_remove: "inj_owner f \<Longrightarrow> inj_owner (f(j := None))"
  by (auto simp: inj_owner_def)

locale slot_alloc =
  fixes owner :: "'t \<Rightarrow> nat \<Rightarrow> int option"
    and find_slot :: "'t \<Rightarrow> nat option"
    and alloc :: "int \<Rightarrow> 't \<Rightarrow> 't"
  assumes find_free: "find_slot t = Some j \<Longrightarrow> owner t j = None"
    and alloc_owner: "0 \<le> c \<Longrightarrow> find_slot t = Some j \<Longrightarrow> owner (alloc c t) = (owner t)(j \<mapsto> c)"
    and alloc_full: "find_slot t = None \<Longrightarrow> owner (alloc c t) = owner t"
begin

lemma alloc_inj: "0 \<le> c \<Longrightarrow> inj_owner (owner t) \<Longrightarrow> c \<notin> ran (owner t) \<Longrightarrow> inj_owner (owner (alloc c t))"
  by (cases "find_slot t") (auto simp: alloc_full alloc_owner inj_owner_update)

lemma alloc_keeps: "0 \<le> c \<Longrightarrow> owner t j = Some d \<Longrightarrow> owner (alloc c t) j = Some d"
  by (cases "find_slot t") (auto simp: alloc_full alloc_owner dest: find_free)

lemma alloc_ran: "0 \<le> c \<Longrightarrow> ran (owner (alloc c t)) \<subseteq> insert c (ran (owner t))"
  by (cases "find_slot t") (auto simp: alloc_full alloc_owner ran_def split: if_splits)

end

locale slot_table = slot_alloc owner find_slot alloc
  for owner :: "'t \<Rightarrow> nat \<Rightarrow> int option" and find_slot alloc +
  fixes release :: "nat \<Rightarrow> 't \<Rightarrow> 't"
  assumes release_owner: "owner (release j t) = (owner t)(j := None)"
begin

lemma release_inj: "inj_owner (owner t) \<Longrightarrow> inj_owner (owner (release j t))"
  by (simp add: release_owner inj_owner_remove)

lemma release_ran: "ran (owner (release j t)) \<subseteq> ran (owner t)"
  by (auto simp: release_owner ran_def)

lemma release_other: "i \<noteq> j \<Longrightarrow> owner (release j t) i = owner t i"
  by (simp add: release_owner)

end

end
