(* ===== verification/ThreadServer.thy ===== *)
theory ThreadServer
  imports Echo Slots
begin

text \<open>
  The echo server with one thread per connection, \<^verbatim>\<open>server_thread.c\<close>.  The main thread accepts,
  looks for a free element of \<open>sockInfos\<close> and starts a thread on it; the threads read and reply.
  One step is one iteration of a loop: a call of \<open>accept\<close>, one look at one element of the table
  (with the creation of the thread when it is free), or one \<open>read\<close> of one thread with the handling of
  what it returned.  \<open>stop\<close> is \<open>Done ()\<close> while the process runs.
\<close>

definition MAX_CONN :: nat where
  "MAX_CONN = 128"

datatype main_pc = Accepting | Searching int nat

text \<open>\<open>w_peer\<close> is a history: whom the thread was started for.\<close>

record worker =
  w_slot :: nat
  w_peer :: address
  w_said :: bool
  w_buf :: string
  w_over :: bool

record ts_state =
  infos :: "nat \<Rightarrow> int"
  addrs :: "nat \<Rightarrow> address"
  client_addr :: address
  main_at :: main_pc
  workers :: "worker list"
  trace :: "event list"
  stop :: "unit outcome"

text \<open>\<open>serr\<close> prints the literal text "str", not its argument.\<close>

definition serr :: "string \<Rightarrow> 'a comp" where
  "serr str = thenc (emit (Perror ''str'')) (exit_with (-1))"

text \<open>The line with the peer's address, which a thread prints first.\<close>

definition peer_line :: "address \<Rightarrow> event" where
  "peer_line = (\<lambda>(ip, port). Out (''client IP : '' @ ip @ '' , Port: '' @ show_int port @ NL))"

text \<open>The body of \<open>working\<close>: the new buffer and whether the thread is over.\<close>

definition working :: "rdres \<Rightarrow> fd \<Rightarrow> string \<Rightarrow> (string \<times> bool) comp" where
  "working r fd buf =
     (case r of
        RdErr \<Rightarrow> serr ''read''
      | RdData d \<Rightarrow>
          (let buf' = fill buf d in
           if length d > 0 then
             bindc (cstr buf') (\<lambda>t.
             thenc (emit (Out (''receive client: '' @ t @ NL)))
            (thenc (reply fd buf')
            (ret (buf', False))))
           else
             thenc (emit (Out (''client closed...'' @ NL)))
            (thenc (emit (Cl fd))
            (ret (buf', True)))))"

text \<open>The scheduler's choices: \<open>Look g\<close> carries the content \<open>g\<close> of a new thread's stack buffer.\<close>

datatype ts_label = Accept int address | Look string | Greet nat | Work nat rdres

definition open_fds :: "ts_state \<Rightarrow> fd set" where
  "open_fds s = set (map (\<lambda>w. infos s (w_slot w)) (filter (\<lambda>w. \<not> w_over w) (workers s)))"

definition ts_accept :: "int \<Rightarrow> address \<Rightarrow> ts_state \<Rightarrow> ts_state" where
  "ts_accept c peer s =
     (if c = -1 then s\<lparr>trace := trace s @ events (serr ''accept'' :: unit comp), stop := outcome (serr ''accept'')\<rparr>
      else s\<lparr>main_at := Searching c 0, client_addr := peer\<rparr>)"

definition ts_look :: "string \<Rightarrow> int \<Rightarrow> nat \<Rightarrow> ts_state \<Rightarrow> ts_state" where
  "ts_look g c i s =
     (if infos s i = -1 then
        s\<lparr>infos := (infos s)(i := c),
          addrs := (addrs s)(i := client_addr s),
          trace := trace s @ [Call ''pthread_create'' [int i], Call ''pthread_detach'' [int i]],
          workers := workers s @ [\<lparr>w_slot = i, w_peer = client_addr s, w_said = False, w_buf = g, w_over = False\<rparr>],
          main_at := Accepting\<rparr>
      else if i = MAX_CONN - 1 then s
      else s\<lparr>main_at := Searching c (Suc i)\<rparr>)"

definition ts_greet :: "nat \<Rightarrow> ts_state \<Rightarrow> ts_state" where
  "ts_greet n s =
     (let w = workers s ! n in
      s\<lparr>trace := trace s @ [peer_line (addrs s (w_slot w))], workers := (workers s)[n := w\<lparr>w_said := True\<rparr>]\<rparr>)"

definition ts_work :: "nat \<Rightarrow> rdres \<Rightarrow> ts_state \<Rightarrow> ts_state" where
  "ts_work n r s =
     (let w = workers s ! n in
      case working r (infos s (w_slot w)) (w_buf w) of
        (es, Done (buf, over)) \<Rightarrow>
          s\<lparr>trace := trace s @ es, workers := (workers s)[n := w\<lparr>w_buf := buf, w_over := over\<rparr>]\<rparr>
      | (es, Exit c) \<Rightarrow> s\<lparr>trace := trace s @ es, stop := Exit c\<rparr>
      | (es, Undef) \<Rightarrow> s\<lparr>trace := trace s @ es, stop := Undef\<rparr>
      | (es, Block) \<Rightarrow> s\<lparr>trace := trace s @ es, stop := Block\<rparr>)"

text \<open>
  A step is enabled when the process runs and the thread it is of can make it.  The kernel never
  hands out a descriptor that is open in the process.
\<close>

definition ts_step :: "ts_state \<Rightarrow> ts_label \<Rightarrow> ts_state option" where
  "ts_step s l =
     (if stop s \<noteq> Done () then None
      else case l of
        Accept c peer \<Rightarrow>
          (case main_at s of
             Accepting \<Rightarrow> (if c = -1 \<or> 0 \<le> c \<and> c \<notin> open_fds s then Some (ts_accept c peer s) else None)
           | Searching _ _ \<Rightarrow> None)
      | Look g \<Rightarrow>
          (case main_at s of
             Accepting \<Rightarrow> None
           | Searching c i \<Rightarrow> (if length g = BUFSIZ then Some (ts_look g c i s) else None))
      | Greet n \<Rightarrow>
          (if n < length (workers s) \<and> \<not> w_said (workers s ! n) then Some (ts_greet n s) else None)
      | Work n r \<Rightarrow>
          (if n < length (workers s) \<and> w_said (workers s ! n) \<and> \<not> w_over (workers s ! n) \<and>
              (\<forall>d. r = RdData d \<longrightarrow> length d \<le> BUFSIZ)
           then Some (ts_work n r s) else None))"

text \<open>\<open>main\<close> up to its loop.\<close>

definition ts_init :: ts_state where
  "ts_init = \<lparr>infos = (\<lambda>_. -1), addrs = (\<lambda>_. ([], 0)), client_addr = ([], 0), main_at = Accepting, workers = [], trace = [], stop = Done ()\<rparr>"

definition ts_main :: "int \<Rightarrow> int \<Rightarrow> int \<Rightarrow> ts_state comp" where
  "ts_main sock bnd lst =
     thenc (if -1 = sock then serr ''socket'' else ret ())
    (thenc (emit (Call ''bind'' [sock, 9527]))
    (thenc (if -1 = bnd then serr ''bind'' else ret ())
    (thenc (emit (Call ''listen'' [sock, 128]))
    (thenc (if -1 = lst then serr ''listen'' else ret ())
    (ret ts_init)))))"

section \<open>The table as an interface\<close>

definition sowner :: "(nat \<Rightarrow> int) \<Rightarrow> nat \<Rightarrow> int option" where
  "sowner t j = (if j < MAX_CONN \<and> t j \<noteq> -1 then Some (t j) else None)"

definition first_free :: "(nat \<Rightarrow> int) \<Rightarrow> nat option" where
  "first_free t = find (\<lambda>j. t j = -1) [0..<MAX_CONN]"

definition take_slot :: "int \<Rightarrow> (nat \<Rightarrow> int) \<Rightarrow> (nat \<Rightarrow> int)" where
  "take_slot c t = (case first_free t of None \<Rightarrow> t | Some j \<Rightarrow> t(j := c))"

lemma first_free_Some: "first_free t = Some j \<Longrightarrow> j < MAX_CONN \<and> t j = -1 \<and> (\<forall>k < j. t k \<noteq> -1)"
  by (auto simp: first_free_def find_Some_iff)

lemma first_free_None: "first_free t = None \<longleftrightarrow> (\<forall>j < MAX_CONN. t j \<noteq> -1)"
  by (auto simp: first_free_def find_None_iff)

interpretation stab: slot_alloc sowner first_free take_slot
proof unfold_locales
  fix t :: "nat \<Rightarrow> int" and j c
  show "first_free t = Some j \<Longrightarrow> sowner t j = None"
    by (auto simp: sowner_def dest: first_free_Some)
  show "0 \<le> c \<Longrightarrow> first_free t = Some j \<Longrightarrow> sowner (take_slot c t) = (sowner t)(j \<mapsto> c)"
    by (auto simp: sowner_def take_slot_def fun_eq_iff dest: first_free_Some)
  show "first_free t = None \<Longrightarrow> sowner (take_slot c t) = sowner t"
    by (simp add: take_slot_def)
qed

section \<open>Invariant\<close>

text \<open>
  Every thread has a slot of its own, every used slot has a thread, and while the main thread
  searches, the slots it has passed are used.
\<close>

definition ts_inv :: "ts_state \<Rightarrow> bool" where
  "ts_inv s \<longleftrightarrow>
     distinct (map w_slot (workers s)) \<and>
     (\<forall>w\<in>set (workers s). w_slot w < MAX_CONN \<and> 0 \<le> infos s (w_slot w)) \<and>
     (\<forall>j < MAX_CONN. infos s j \<noteq> -1 \<longrightarrow> j \<in> w_slot ` set (workers s)) \<and>
     (\<forall>w\<in>set (workers s). length (w_buf w) = BUFSIZ \<and> addrs s (w_slot w) = w_peer w) \<and>
     (\<forall>c i. main_at s = Searching c i \<longrightarrow> 0 \<le> c \<and> i < MAX_CONN \<and> (\<forall>j < i. infos s j \<noteq> -1))"

lemma ts_inv_init: "ts_inv ts_init"
  by (simp add: ts_inv_def ts_init_def)

lemma ts_inv_accept: "ts_inv s \<Longrightarrow> c = -1 \<or> 0 \<le> c \<Longrightarrow> main_at s = Accepting \<Longrightarrow> ts_inv (ts_accept c peer s)"
  by (auto simp: ts_inv_def ts_accept_def MAX_CONN_def)

lemma ts_inv_look:
  assumes "ts_inv s" "main_at s = Searching c i" "length g = BUFSIZ"
  shows "ts_inv (ts_look g c i s)"
proof -
  from assms have c: "0 \<le> c" "i < MAX_CONN" "\<forall>j < i. infos s j \<noteq> -1"
    by (auto simp: ts_inv_def)
  show ?thesis
  proof (cases "infos s i = -1")
    case True
    with assms(1) have "i \<notin> w_slot ` set (workers s)" by (force simp: ts_inv_def)
    then have "w_slot w \<noteq> i" if "w \<in> set (workers s)" for w using that by blast
    with assms True c show ?thesis by (auto simp: ts_inv_def ts_look_def)
  next
    case False
    with assms c show ?thesis by (auto simp: ts_inv_def ts_look_def less_Suc_eq)
  qed
qed

lemma working_Done:
  "working r fd buf = (es, Done (buf', over)) \<Longrightarrow>
     \<exists>d. r = RdData d \<and> buf' = fill buf d \<and> over = (d = [])"
  by (auto simp: working_def serr_def Let_def effect_simps reply_def cstr_def
      split: rdres.splits if_splits option.splits)

lemma ts_inv_work:
  assumes "ts_inv s" "n < length (workers s)" "\<forall>d. r = RdData d \<longrightarrow> length d \<le> BUFSIZ"
  shows "ts_inv (ts_work n r s)"
proof -
  let ?w = "workers s ! n"
  obtain es oc where w: "working r (infos s (w_slot ?w)) (w_buf ?w) = (es, oc)" by fastforce
  show ?thesis
  proof (cases oc)
    case (Done x)
    obtain buf over where x: "x = (buf, over)" by (cases x)
    let ?ws = "(workers s)[n := ?w\<lparr>w_buf := buf, w_over := over\<rparr>]"
    have slots: "map w_slot ?ws = map w_slot (workers s)"
      by (simp add: map_update) (metis assms(2) list_update_id nth_map)
    have slot_set: "w_slot ` set ?ws = w_slot ` set (workers s)"
      using arg_cong [OF slots, of set] by simp
    have len: "length buf = BUFSIZ"
      using working_Done [OF w [unfolded Done x]] assms unfolding ts_inv_def by auto
    have members: "v = ?w\<lparr>w_buf := buf, w_over := over\<rparr> \<or> v \<in> set (workers s)" if "v \<in> set ?ws" for v
      using that set_update_subset_insert [of "workers s" n "?w\<lparr>w_buf := buf, w_over := over\<rparr>"] by blast
    have old: "\<forall>v\<in>set (workers s). w_slot v < MAX_CONN \<and> 0 \<le> infos s (w_slot v) \<and> length (w_buf v) = BUFSIZ \<and>
        addrs s (w_slot v) = w_peer v"
      using assms(1) unfolding ts_inv_def by blast
    then have here: "w_slot ?w < MAX_CONN" "0 \<le> infos s (w_slot ?w)" "addrs s (w_slot ?w) = w_peer ?w"
      using assms(2) by simp_all
    have bufs: "length (w_buf v) = BUFSIZ \<and> addrs s (w_slot v) = w_peer v" if "v \<in> set ?ws" for v
      using members [OF that] len old here by auto
    have "w_slot v < MAX_CONN \<and> 0 \<le> infos s (w_slot v)" if "v \<in> set ?ws" for v
      using members [OF that] here old by auto
    with assms w Done x slots slot_set bufs show ?thesis
      by (simp add: ts_inv_def ts_work_def Let_def)
  qed (use assms w in \<open>simp_all add: ts_inv_def ts_work_def Let_def\<close>)
qed

text \<open>A change of one thread that leaves its place, its client and its state alone.\<close>

lemma ts_inv_greet:
  assumes "ts_inv s" "n < length (workers s)"
  shows "ts_inv (ts_greet n s)"
proof -
  let ?w = "workers s ! n"
  let ?ws = "(workers s)[n := ?w\<lparr>w_said := True\<rparr>]"
  have slots: "map w_slot ?ws = map w_slot (workers s)"
    by (simp add: map_update) (metis assms(2) list_update_id nth_map)
  have slot_set: "w_slot ` set ?ws = w_slot ` set (workers s)"
    using arg_cong [OF slots, of set] by simp
  have old: "\<forall>v\<in>set (workers s). w_slot v < MAX_CONN \<and> 0 \<le> infos s (w_slot v) \<and> length (w_buf v) = BUFSIZ \<and>
      addrs s (w_slot v) = w_peer v"
    using assms(1) unfolding ts_inv_def by blast
  then have "w_slot ?w < MAX_CONN \<and> 0 \<le> infos s (w_slot ?w) \<and> length (w_buf ?w) = BUFSIZ \<and> addrs s (w_slot ?w) = w_peer ?w"
    using nth_mem [OF assms(2)] by blast
  then have "w_slot v < MAX_CONN \<and> 0 \<le> infos s (w_slot v) \<and> length (w_buf v) = BUFSIZ \<and> addrs s (w_slot v) = w_peer v"
    if "v \<in> set ?ws" for v
    using that old set_update_subset_insert [of "workers s" n "?w\<lparr>w_said := True\<rparr>"] by auto
  with assms slots slot_set show ?thesis by (simp add: ts_inv_def ts_greet_def Let_def)
qed

lemma ts_inv_step: "ts_inv s \<Longrightarrow> ts_step s l = Some t \<Longrightarrow> ts_inv t"
  by (auto simp: ts_step_def ts_inv_accept ts_inv_look ts_inv_work ts_inv_greet
      split: if_splits ts_label.splits main_pc.splits)

interpretation ts: safe_system ts_step ts_init ts_inv
  by unfold_locales (auto intro: ts_inv_init ts_inv_step)

text \<open>Moreover, the descriptors of running threads differ, and the one being placed is new.\<close>

definition ts_fresh :: "ts_state \<Rightarrow> bool" where
  "ts_fresh s \<longleftrightarrow> ts_inv s \<and>
     (\<forall>c i. main_at s = Searching c i \<longrightarrow> c \<notin> open_fds s) \<and>
     (\<forall>m n. m < length (workers s) \<and> n < length (workers s) \<and>
        \<not> w_over (workers s ! m) \<and> \<not> w_over (workers s ! n) \<and>
        infos s (w_slot (workers s ! m)) = infos s (w_slot (workers s ! n)) \<longrightarrow> m = n)"

lemma in_open_fds:
  "n < length (workers s) \<Longrightarrow> \<not> w_over (workers s ! n) \<Longrightarrow> infos s (w_slot (workers s ! n)) \<in> open_fds s"
  by (auto simp: open_fds_def intro!: image_eqI)

lemma ts_fresh_look:
  assumes "ts_fresh s" "main_at s = Searching c i" "length g = BUFSIZ"
  shows "ts_fresh (ts_look g c i s)"
proof -
  have inv: "ts_inv s" and c: "c \<notin> open_fds s" using assms by (auto simp: ts_fresh_def)
  note inv' = ts_inv_look [OF inv assms(2,3)]
  show ?thesis
  proof (cases "infos s i = -1")
    case True
    let ?t = "ts_look g c i s"
    have "\<forall>w\<in>set (workers s). 0 \<le> infos s (w_slot w)"
      using inv unfolding ts_inv_def by blast
    then have other: "w_slot (workers s ! n) \<noteq> i" if "n < length (workers s)" for n
      using True nth_mem [OF that] by fastforce
    have t: "workers ?t = workers s @ [\<lparr>w_slot = i, w_peer = client_addr s, w_said = False, w_buf = g, w_over = False\<rparr>]"
      "infos ?t = (infos s)(i := c)" "main_at ?t = Accepting"
      using True by (simp_all add: ts_look_def)
    have new: False if "k < length (workers s)" "\<not> w_over (workers s ! k)"
      "infos s (w_slot (workers s ! k)) = c" for k
      using in_open_fds [of k s] that c by simp
    have old: "m = n" if "m < length (workers s)" "n < length (workers s)"
      "\<not> w_over (workers s ! m)" "\<not> w_over (workers s ! n)"
      "infos s (w_slot (workers s ! m)) = infos s (w_slot (workers s ! n))" for m n
      using that assms(1) unfolding ts_fresh_def by blast
    have "m = n" if mn: "m < length (workers ?t)" "n < length (workers ?t)"
      "\<not> w_over (workers ?t ! m)" "\<not> w_over (workers ?t ! n)"
      "infos ?t (w_slot (workers ?t ! m)) = infos ?t (w_slot (workers ?t ! n))" for m n
    proof (cases "m < length (workers s)"; cases "n < length (workers s)")
      assume "m < length (workers s)" "n < length (workers s)"
      with mn other [of m] other [of n] show ?thesis by (intro old) (simp_all add: t nth_append)
    next
      assume "m < length (workers s)" "\<not> n < length (workers s)"
      with mn other [of m] new [of m] show ?thesis by (simp add: t nth_append)
    next
      assume "\<not> m < length (workers s)" "n < length (workers s)"
      with mn other [of n] new [of n] show ?thesis by (simp add: t nth_append)
    qed (use mn in \<open>simp add: t\<close>)
    moreover have "\<forall>c' j. main_at ?t = Searching c' j \<longrightarrow> c' \<notin> open_fds ?t" by (simp add: t)
    ultimately show ?thesis using inv' unfolding ts_fresh_def by blast
  next
    case False
    then have "workers (ts_look g c i s) = workers s" "infos (ts_look g c i s) = infos s"
      "main_at (ts_look g c i s) = Searching c (if i = MAX_CONN - 1 then i else Suc i)"
      using assms(2) by (simp_all add: ts_look_def)
    with assms(1,2) inv' show ?thesis by (simp add: ts_fresh_def open_fds_def)
  qed
qed

lemma ts_work_shape:
  obtains buf ov where
    "workers (ts_work n r s) = (workers s)[n := (workers s ! n)\<lparr>w_buf := buf, w_over := ov\<rparr>]"
    "infos (ts_work n r s) = infos s" "main_at (ts_work n r s) = main_at s"
proof -
  let ?w = "workers s ! n"
  obtain es oc where w: "working r (infos s (w_slot ?w)) (w_buf ?w) = (es, oc)" by fastforce
  show thesis
  proof (cases oc)
    case (Done x)
    with w show thesis
      by (intro that [where buf = "fst x" and ov = "snd x"]) (simp_all add: ts_work_def Let_def split: prod.split)
  qed (use w in \<open>auto intro!: that [where buf = "w_buf ?w" and ov = "w_over ?w"] simp: ts_work_def Let_def\<close>)
qed

lemma ts_fresh_same:
  fixes t s :: ts_state
  assumes s: "ts_fresh s" and inv: "ts_inv t" and t: "infos t = infos s" "main_at t = main_at s"
    and len: "length (workers t) = length (workers s)"
    and slot: "\<And>m. w_slot (workers t ! m) = w_slot (workers s ! m)"
    and run: "\<And>m. \<not> w_over (workers t ! m) \<Longrightarrow> \<not> w_over (workers s ! m)"
  shows "ts_fresh t"
proof -
  let ?t = t
  have "open_fds ?t \<subseteq> open_fds s"
  proof
    fix c assume "c \<in> open_fds ?t"
    then obtain m where "m < length (workers ?t)" "\<not> w_over (workers ?t ! m)"
      "c = infos ?t (w_slot (workers ?t ! m))"
      by (auto simp: open_fds_def in_set_conv_nth)
    with len slot run in_open_fds [of m s] t(1) show "c \<in> open_fds s" by simp
  qed
  then have "\<forall>c i. main_at ?t = Searching c i \<longrightarrow> c \<notin> open_fds ?t"
    using s unfolding ts_fresh_def t(2) by blast
  moreover have "i = j" if "i < length (workers ?t)" "j < length (workers ?t)"
    "\<not> w_over (workers ?t ! i)" "\<not> w_over (workers ?t ! j)"
    "infos ?t (w_slot (workers ?t ! i)) = infos ?t (w_slot (workers ?t ! j))" for i j
    using that s len slot run t(1) unfolding ts_fresh_def by metis
  ultimately show ?thesis using inv unfolding ts_fresh_def by blast
qed

lemma ts_fresh_work:
  assumes s: "ts_fresh s" and n: "n < length (workers s)" "\<not> w_over (workers s ! n)"
    and d: "\<forall>d. r = RdData d \<longrightarrow> length d \<le> BUFSIZ"
  shows "ts_fresh (ts_work n r s)"
proof -
  let ?t = "ts_work n r s"
  obtain buf ov where t:
    "workers ?t = (workers s)[n := (workers s ! n)\<lparr>w_buf := buf, w_over := ov\<rparr>]"
    "infos ?t = infos s" "main_at ?t = main_at s"
    by (rule ts_work_shape)
  have slot: "w_slot (workers ?t ! m) = w_slot (workers s ! m)" for m
    using n(1) by (cases "m = n") (simp_all add: t)
  have run: "\<not> w_over (workers ?t ! m) \<Longrightarrow> \<not> w_over (workers s ! m)" for m
    using n by (cases "m = n") (simp_all add: t)
  have "ts_inv ?t" using s ts_inv_work [OF _ n(1) d] unfolding ts_fresh_def by blast
  then show ?thesis by (rule ts_fresh_same [OF s]) (use slot run in \<open>simp_all add: t\<close>)
qed

lemma ts_fresh_greet:
  assumes s: "ts_fresh s" and n: "n < length (workers s)"
  shows "ts_fresh (ts_greet n s)"
proof -
  let ?t = "ts_greet n s"
  have t: "workers ?t = (workers s)[n := (workers s ! n)\<lparr>w_said := True\<rparr>]" "infos ?t = infos s" "main_at ?t = main_at s"
    by (simp_all add: ts_greet_def Let_def)
  have slot: "w_slot (workers ?t ! m) = w_slot (workers s ! m)" for m
    using n by (cases "m = n") (simp_all add: t)
  have run: "\<not> w_over (workers ?t ! m) \<Longrightarrow> \<not> w_over (workers s ! m)" for m
    using n by (cases "m = n") (simp_all add: t)
  have "ts_inv ?t" using s ts_inv_greet [OF _ n] unfolding ts_fresh_def by blast
  then show ?thesis by (rule ts_fresh_same [OF s]) (use slot run in \<open>simp_all add: t\<close>)
qed

lemma ts_fresh_step: "ts_fresh s \<Longrightarrow> ts_step s l = Some t \<Longrightarrow> ts_fresh t"
proof -
  assume s: "ts_fresh s" and l: "ts_step s l = Some t"
  show ?thesis
  proof (cases l)
    case (Accept c peer)
    then have "main_at s = Accepting" "t = ts_accept c peer s" "c = -1 \<or> 0 \<le> c \<and> c \<notin> open_fds s"
      using l by (auto simp: ts_step_def split: if_splits main_pc.splits)
    with s ts_inv_accept [of s c peer] show ?thesis
      by (auto simp: ts_fresh_def ts_accept_def open_fds_def)
  next
    case (Look g)
    then obtain c i where "main_at s = Searching c i" "t = ts_look g c i s" "length g = BUFSIZ"
      using l by (auto simp: ts_step_def split: if_splits main_pc.splits)
    with s ts_fresh_look show ?thesis by simp
  next
    case (Greet n)
    then have "n < length (workers s)" "t = ts_greet n s" using l by (auto simp: ts_step_def split: if_splits)
    with s ts_fresh_greet show ?thesis by simp
  next
    case (Work n r)
    then have "n < length (workers s)" "\<not> w_over (workers s ! n)" "t = ts_work n r s"
      "\<forall>d. r = RdData d \<longrightarrow> length d \<le> BUFSIZ"
      using l by (auto simp: ts_step_def split: if_splits)
    with s ts_fresh_work show ?thesis by simp
  qed
qed

interpretation tsf: safe_system ts_step ts_init ts_fresh
proof unfold_locales
  show "ts_fresh ts_init"
    using ts_inv_init by (simp add: ts_fresh_def) (simp add: ts_init_def)
qed (rule ts_fresh_step)

section \<open>The full table\<close>

lemma ts_workers_le:
  assumes "ts_inv s"
  shows "length (workers s) \<le> MAX_CONN"
proof -
  have "w_slot ` set (workers s) \<subseteq> {..<MAX_CONN}"
    using assms unfolding ts_inv_def by blast
  then have "card (w_slot ` set (workers s)) \<le> MAX_CONN"
    using card_mono [of "{..<MAX_CONN}"] by fastforce
  moreover have "card (w_slot ` set (workers s)) = length (workers s)"
    using assms distinct_card [of "map w_slot (workers s)"] unfolding ts_inv_def by simp
  ultimately show ?thesis by simp
qed

definition ts_wedge :: "ts_state \<Rightarrow> bool" where
  "ts_wedge s \<longleftrightarrow> (\<forall>j < MAX_CONN. infos s j \<noteq> -1) \<and> (\<exists>c i. main_at s = Searching c i \<and> i < MAX_CONN)"

lemma ts_full_used:
  assumes "ts_inv s" "length (workers s) = MAX_CONN" "j < MAX_CONN"
  shows "infos s j \<noteq> -1"
proof -
  have sub: "w_slot ` set (workers s) \<subseteq> {..<MAX_CONN}"
    using assms unfolding ts_inv_def by blast
  moreover have "card (w_slot ` set (workers s)) = MAX_CONN"
    using assms distinct_card [of "map w_slot (workers s)"] unfolding ts_inv_def by simp
  ultimately have "w_slot ` set (workers s) = {..<MAX_CONN}"
    by (intro card_subset_eq) simp_all
  with assms(3) obtain w where "w \<in> set (workers s)" "w_slot w = j" by (metis imageE lessThan_iff)
  then show ?thesis using assms(1) unfolding ts_inv_def by fastforce
qed

lemma ts_full_wedge:
  assumes "ts_inv s" "length (workers s) = MAX_CONN" "main_at s = Searching c i"
  shows "ts_wedge s"
proof -
  have "i < MAX_CONN" using assms unfolding ts_inv_def by blast
  with assms ts_full_used show ?thesis by (auto simp: ts_wedge_def)
qed

lemma ts_wedge_step:
  assumes "ts_wedge s" "ts_step s l = Some t"
  shows "ts_wedge t \<and> length (workers t) = length (workers s)"
proof (cases l)
  case (Accept c peer)
  with assms show ?thesis by (auto simp: ts_step_def ts_wedge_def split: if_splits)
next
  case (Look g)
  with assms show ?thesis
    by (auto simp: ts_step_def ts_wedge_def ts_look_def split: if_splits)
next
  case (Greet n)
  with assms show ?thesis by (auto simp: ts_step_def ts_wedge_def ts_greet_def Let_def split: if_splits)
next
  case (Work n r)
  then have t: "t = ts_work n r s" using assms by (auto simp: ts_step_def split: if_splits)
  obtain buf ov where
    "workers t = (workers s)[n := (workers s ! n)\<lparr>w_buf := buf, w_over := ov\<rparr>]"
    "infos t = infos s" "main_at t = main_at s"
    unfolding t by (rule ts_work_shape)
  with assms(1) show ?thesis by (simp add: ts_wedge_def)
qed

lemma ts_wedge_run:
  "ts_wedge s \<Longrightarrow> run ts_step s ls = Some t \<Longrightarrow> ts_wedge t \<and> length (workers t) = length (workers s)"
  by (induction ls arbitrary: s) (auto split: option.splits dest: ts_wedge_step)

text \<open>Clients that come and go one after the other use the table up.\<close>

definition ts_used :: "nat \<Rightarrow> ts_state \<Rightarrow> bool" where
  "ts_used k s \<longleftrightarrow> stop s = Done () \<and> main_at s = Accepting \<and>
     (\<forall>j. infos s j = (if j < k then 4 else -1)) \<and> length (workers s) = k \<and> (\<forall>w\<in>set (workers s). w_over w)"

lemma ts_looks:
  assumes "stop s = Done ()" "main_at s = Searching c i" "n \<le> k" "k < MAX_CONN" "i = k - n"
    and "\<forall>j < k. infos s j \<noteq> -1"
  shows "run ts_step s (replicate n (Look (zeros BUFSIZ))) = Some (s\<lparr>main_at := Searching c k\<rparr>)"
  using assms
proof (induction n arbitrary: s i)
  case 0
  then show ?case by simp
next
  case (Suc n)
  then have "ts_step s (Look (zeros BUFSIZ)) = Some (s\<lparr>main_at := Searching c (k - n)\<rparr>)"
    by (simp add: ts_step_def ts_look_def Suc_diff_le [symmetric])
  with Suc.IH [of "s\<lparr>main_at := Searching c (k - n)\<rparr>" "k - n"] Suc.prems show ?case by simp
qed

lemma open_fds_over: "\<forall>w\<in>set (workers s). w_over w \<Longrightarrow> open_fds s = {}"
  by (simp add: open_fds_def)

lemma ts_use_one:
  assumes "ts_used k s" "k < MAX_CONN"
  shows "\<exists>t. run ts_step s (Accept 4 a # replicate k (Look (zeros BUFSIZ)) @
              [Look (zeros BUFSIZ), Greet k, Work k (RdData [])]) = Some t \<and> ts_used (Suc k) t"
proof -
  let ?g = "zeros BUFSIZ"
  let ?a = "s\<lparr>main_at := Searching 4 0, client_addr := a\<rparr>"
  let ?w = "\<lparr>w_slot = k, w_peer = a, w_said = False, w_buf = ?g, w_over = False\<rparr>"
  let ?b = "ts_look ?g 4 k (?a\<lparr>main_at := Searching 4 k\<rparr>)"
  let ?c = "ts_greet k ?b"
  note s = assms(1) [unfolded ts_used_def]
  have a: "ts_step s (Accept 4 a) = Some ?a"
    using s by (simp add: ts_step_def ts_accept_def open_fds_over)
  have looks: "run ts_step ?a (replicate k (Look ?g)) = Some (?a\<lparr>main_at := Searching 4 k\<rparr>)"
    by (rule ts_looks [where i = 0]) (use s assms(2) in simp_all)
  have b: "ts_step (?a\<lparr>main_at := Searching 4 k\<rparr>) (Look ?g) = Some ?b"
    using s by (simp add: ts_step_def)
  have b_is: "workers ?b = workers s @ [?w]" "infos ?b = (infos s)(k := 4)" "main_at ?b = Accepting"
    "stop ?b = Done ()"
    using s by (simp_all add: ts_look_def)
  have nth: "(workers s @ [v]) ! k = v" for v using s by (simp add: nth_append)
  have upd: "(workers s @ [v])[k := u] = workers s @ [u]" for u v
    using s by (simp add: list_update_append)
  have c: "ts_step ?b (Greet k) = Some ?c"
    using s b_is nth by (simp add: ts_step_def)
  have c_is: "workers ?c = workers s @ [?w\<lparr>w_said := True\<rparr>]" "infos ?c = (infos s)(k := 4)" "main_at ?c = Accepting"
    "stop ?c = Done ()"
    using b_is nth upd by (simp_all add: ts_greet_def Let_def)
  have "ts_step ?c (Work k (RdData [])) = Some (ts_work k (RdData []) ?c)"
    using s c_is nth by (simp add: ts_step_def)
  moreover have "ts_used (Suc k) (ts_work k (RdData []) ?c)"
    using s c_is nth upd
    by (auto simp: ts_used_def ts_work_def working_def fill_def effect_simps less_Suc_eq)
  ultimately show ?thesis
    using a looks b c by (simp add: run_append)
qed

lemma ts_use_all: "k \<le> MAX_CONN \<Longrightarrow> \<exists>s. reachable ts_step ts_init s \<and> ts_used k s"
proof (induction k)
  case 0
  have "ts_used 0 ts_init" by (simp add: ts_used_def ts_init_def)
  with reach_start show ?case by (intro exI [of _ ts_init] conjI)
next
  case (Suc k)
  then obtain s where "reachable ts_step ts_init s" "ts_used k s" by auto
  with ts_use_one [of k s "([], 0)"] Suc.prems show ?case
    by (meson Suc_le_lessD reachable_run)
qed

lemma working_served:
  assumes "d \<noteq> []" "NUL \<in> set (fill buf d)"
  shows "working (RdData d) fd buf =
    ([Out (''receive client: '' @ text_of (fill buf d) @ NL), Wr fd (text_of (fill buf d) @ [NUL])],
     Done (fill buf d, False))"
proof -
  from assms(2) have len: "strlen (fill buf d) = Some (length (text_of (fill buf d)))"
    by (simp add: strlen_eq_Some)
  from take_strlen [OF this] take_Suc_strlen [OF this] len assms(1) show ?thesis
    by (simp add: working_def Let_def cstr_def reply_def effect_simps)
qed

section \<open>Properties\<close>

text \<open>Claim C8.  Isolation: in every reachable state two threads that still run have different
  elements of \<open>sockInfos\<close>, all within the table, and different descriptors; so no client's
  bytes are read or answered by another client's thread.\<close>

theorem ts_isolation:
  assumes "reachable ts_step ts_init s"
    and "m < length (workers s)" "n < length (workers s)" "m \<noteq> n"
    and "\<not> w_over (workers s ! m)" "\<not> w_over (workers s ! n)"
  shows "w_slot (workers s ! m) < MAX_CONN \<and>
    w_slot (workers s ! m) \<noteq> w_slot (workers s ! n) \<and>
    infos s (w_slot (workers s ! m)) \<noteq> infos s (w_slot (workers s ! n))"
proof (intro conjI impI)
  have "ts_fresh s" using assms(1) by (rule tsf.inv_reachable)
  then have inv: "ts_inv s" and neq: "infos s (w_slot (workers s ! m)) \<noteq> infos s (w_slot (workers s ! n))"
    using assms unfolding ts_fresh_def by blast+
  then show "w_slot (workers s ! m) < MAX_CONN" "infos s (w_slot (workers s ! m)) \<noteq> infos s (w_slot (workers s ! n))"
    using assms(2) unfolding ts_inv_def by simp_all
  from neq show "w_slot (workers s ! m) \<noteq> w_slot (workers s ! n)" by auto
qed

lemma ts_isolation_witness:
  "\<exists>s. run ts_step ts_init [Accept 4 (''::1'', 1), Look (zeros BUFSIZ), Accept 5 (''::1'', 2), Look (zeros BUFSIZ), Look (zeros BUFSIZ)] = Some s \<and>
     length (workers s) = 2 \<and> infos s (w_slot (workers s ! 0)) \<noteq> infos s (w_slot (workers s ! 1))"
proof -
  let ?ls = "[Accept 4 (''::1'', 1), Look (zeros BUFSIZ), Accept 5 (''::1'', 2), Look (zeros BUFSIZ), Look (zeros BUFSIZ)]"
  obtain s where s: "run ts_step ts_init ?ls = Some s" "length (workers s) = 2"
    "\<not> w_over (workers s ! 0)" "\<not> w_over (workers s ! 1)"
    by (simp add: ts_step_def ts_init_def ts_accept_def ts_look_def open_fds_def MAX_CONN_def)
  with ts_isolation [OF run_reachable [OF s(1)], of 0 1] show ?thesis by simp
qed

text \<open>Claim C39.  Capacity: no thread ever gives its element of \<open>sockInfos\<close> back, so in every
  reachable state each thread, running or over, still holds its own element, with the address of the
  client it was started for in it (so the address it prints is that of its client), and the server
  starts at most 128 threads in its life.\<close>

theorem ts_capacity:
  assumes "reachable ts_step ts_init s"
  shows "length (workers s) \<le> MAX_CONN \<and>
    distinct (map w_slot (workers s)) \<and>
    (\<forall>w\<in>set (workers s). infos s (w_slot w) \<noteq> -1 \<and> addrs s (w_slot w) = w_peer w)"
proof (intro conjI impI)
  have inv: "ts_inv s" using assms by (rule ts.inv_reachable)
  then show "length (workers s) \<le> MAX_CONN" by (rule ts_workers_le)
  show "distinct (map w_slot (workers s))" using inv unfolding ts_inv_def by blast
  show "\<forall>w\<in>set (workers s). infos s (w_slot w) \<noteq> -1 \<and> addrs s (w_slot w) = w_peer w" using inv unfolding ts_inv_def by force
qed

lemma ts_capacity_witness:
  "\<exists>s. run ts_step ts_init [Accept 4 (''::1'', 1), Look (zeros BUFSIZ), Greet 0, Work 0 (RdData [])] = Some s \<and>
     map w_over (workers s) = [True] \<and> infos s (w_slot (workers s ! 0)) \<noteq> -1 \<and>
     addrs s (w_slot (workers s ! 0)) = w_peer (workers s ! 0)"
proof -
  let ?ls = "[Accept 4 (''::1'', 1), Look (zeros BUFSIZ), Greet 0, Work 0 (RdData [])]"
  obtain s where s: "run ts_step ts_init ?ls = Some s" "map w_over (workers s) = [True]"
    by (simp add: ts_step_def ts_init_def ts_accept_def ts_look_def open_fds_def MAX_CONN_def
        ts_greet_def ts_work_def working_def effect_simps)
  then have "workers s ! 0 \<in> set (workers s)" by (cases "workers s") simp_all
  with ts_capacity [OF run_reachable [OF s(1)], THEN conjunct2, THEN conjunct2] have "infos s (w_slot (workers s ! 0)) \<noteq> -1 \<and> addrs s (w_slot (workers s ! 0)) = w_peer (workers s ! 0)"
    by (rule bspec)
  with s show ?thesis by (intro exI [of _ s]) simp
qed

text \<open>Claim C10.  The server wedges: it can reach a state in which all 128 clients have left and the
  main thread has accepted one more; from there no schedule whatever places that client or accepts
  another, since the search looks at the last element for ever.\<close>

theorem ts_wedged:
  "\<exists>s. reachable ts_step ts_init s \<and> (\<forall>w\<in>set (workers s). w_over w) \<and>
     main_at s = Searching 4 0 \<and> stop s = Done () \<and>
     (\<forall>ls t. run ts_step s ls = Some t \<longrightarrow> length (workers t) = MAX_CONN \<and> main_at t \<noteq> Accepting)"
proof -
  obtain s0 where s0: "reachable ts_step ts_init s0" "ts_used MAX_CONN s0"
    using ts_use_all by blast
  let ?s = "s0\<lparr>main_at := Searching 4 0, client_addr := ([], 0)\<rparr>"
  note u = s0(2) [unfolded ts_used_def]
  have "ts_step s0 (Accept 4 ([], 0)) = Some ?s"
    using u by (simp add: ts_step_def ts_accept_def open_fds_over)
  then have r: "reachable ts_step ts_init ?s" using s0(1) by (blast intro: reach_step)
  then have "ts_wedge ?s"
    using u by (intro ts_full_wedge ts.inv_reachable) simp_all
  then have "length (workers t) = MAX_CONN \<and> main_at t \<noteq> Accepting"
    if "run ts_step ?s ls = Some t" for ls t
    using ts_wedge_run [OF _ that] u by (auto simp: ts_wedge_def)
  moreover have "(\<forall>w\<in>set (workers ?s). w_over w) \<and> main_at ?s = Searching 4 0 \<and> stop ?s = Done ()"
    using u by simp
  ultimately show ?thesis using r by blast
qed

text \<open>One look of the main thread in that state leaves it searching.\<close>

lemma ts_wedged_witness:
  "\<exists>s t. reachable ts_step ts_init s \<and> ts_step s (Look (zeros BUFSIZ)) = Some t \<and>
     length (workers t) = 128 \<and> main_at t \<noteq> Accepting"
proof -
  obtain s where s: "reachable ts_step ts_init s" "main_at s = Searching 4 0" "stop s = Done ()"
    and all: "\<forall>ls t. run ts_step s ls = Some t \<longrightarrow> length (workers t) = MAX_CONN \<and> main_at t \<noteq> Accepting"
    using ts_wedged by blast
  obtain t where t: "ts_step s (Look (zeros BUFSIZ)) = Some t"
    using s by (simp add: ts_step_def zeros_def)
  then have "run ts_step s [Look (zeros BUFSIZ)] = Some t" by simp
  from all [rule_format, OF this] t s(1) show ?thesis
    by (intro exI [of _ s] exI [of _ t] conjI) (simp_all add: MAX_CONN_def)
qed

text \<open>What one \<open>read\<close> of a thread leads to, on every branch: an error stops the whole server
  with the literal "str"; an empty read closes the connection; a message that holds a NUL is
  answered by its text; one without is answered by itself followed by what earlier, longer messages
  left in the buffer up to the next NUL; and without any NUL the thread reads past the buffer.\<close>

theorem working_replies:
  assumes "length d \<le> length buf"
  shows "working RdErr fd buf = ([Perror ''str''], Exit (-1)) \<and>
    working (RdData []) fd buf = ([Out (''client closed...'' @ NL), Cl fd], Done (buf, True)) \<and>
    (NUL \<in> set d \<longrightarrow> working (RdData d) fd buf =
           ([Out (''receive client: '' @ text_of d @ NL), Wr fd (text_of d @ [NUL])], Done (fill buf d, False))) \<and>
    (d \<noteq> [] \<longrightarrow> NUL \<notin> set d \<longrightarrow> NUL \<in> set (drop (length d) buf) \<longrightarrow>
           sent_to fd (events (working (RdData d) fd buf)) = d @ text_of (drop (length d) buf) @ [NUL]) \<and>
    (d \<noteq> [] \<longrightarrow> NUL \<notin> set d \<longrightarrow> NUL \<notin> set (drop (length d) buf) \<longrightarrow>
           outcome (working (RdData d) fd buf) = Undef)"
proof (intro conjI impI)
  show "working RdErr fd buf = ([Perror ''str''], Exit (-1))"
    by (simp add: working_def serr_def effect_simps)
  show "working (RdData []) fd buf = ([Out (''client closed...'' @ NL), Cl fd], Done (buf, True))"
    by (simp add: working_def effect_simps fill_def)
  show "working (RdData d) fd buf =
      ([Out (''receive client: '' @ text_of d @ NL), Wr fd (text_of d @ [NUL])], Done (fill buf d, False))"
    if "NUL \<in> set d"
  proof -
    have "d \<noteq> []" "NUL \<in> set (fill buf d)" using that by (auto simp: fill_def)
    from working_served [OF this] that show ?thesis by (simp add: text_of_fill_NUL)
  qed
  show "sent_to fd (events (working (RdData d) fd buf)) = d @ text_of (drop (length d) buf) @ [NUL]"
    if "d \<noteq> []" "NUL \<notin> set d" "NUL \<in> set (drop (length d) buf)"
    using that working_served [of d buf fd] by (simp add: fill_def text_of_no_NUL_append)
  show "outcome (working (RdData d) fd buf) = Undef"
    if "d \<noteq> []" "NUL \<notin> set d" "NUL \<notin> set (drop (length d) buf)"
    using that by (simp add: working_def Let_def fill_def cstr_def strlen_def effect_simps)
qed

lemma working_replies_witness:
  "sent_to 4 (events (working (RdData ''ab'') 4 (fill (zeros 8) ''hello''))) = ''abllo'' @ [NUL]"
  using working_replies [where d = "''ab''" and buf = "fill (zeros 8) ''hello''" and fd = 4]
  by (simp add: fill_def zeros_def NUL_def text_of_def numeral_eq_Suc)

end
