(* ===== verification/WaitStatus.thy ===== *)
theory WaitStatus
  imports CString "HOL-Library.Word"
begin

unbundle bit_operations_syntax

text \<open>
  Children and their wait status, as the programs of \<^verbatim>\<open>Process/_wait\<close> and the SIGCHLD handlers
  see them.  The kernel encodes the fate of a child in a 32-bit word, the macros of
  \<^verbatim>\<open>sys/wait.h\<close> read it back; a process table lists the children of the calling process with
  the word of those that are zombies.
\<close>

section \<open>The status word\<close>

datatype fate = Exited int | Killed nat bool

definition status_of :: "fate \<Rightarrow> 32 word" where
  "status_of f =
     (case f of
        Exited n \<Rightarrow> push_bit 8 (word_of_int n AND 255)
      | Killed sig core \<Rightarrow> word_of_nat sig OR (if core then 128 else 0))"

definition WTERMSIG :: "32 word \<Rightarrow> 32 word" where
  "WTERMSIG st = st AND 127"

definition WIFEXITED :: "32 word \<Rightarrow> bool" where
  "WIFEXITED st \<longleftrightarrow> WTERMSIG st = 0"

definition WEXITSTATUS :: "32 word \<Rightarrow> 32 word" where
  "WEXITSTATUS st = drop_bit 8 (st AND 65280)"

definition WIFSIGNALED :: "32 word \<Rightarrow> bool" where
  "WIFSIGNALED st \<longleftrightarrow> WTERMSIG st \<noteq> 0 \<and> WTERMSIG st \<noteq> 127"

lemma mask_words: "(127::32 word) = mask 7" "(255::32 word) = mask 8" "(65280::32 word) = push_bit 8 (mask 8)"
  by (simp_all add: mask_eq_exp_minus_1 push_bit_eq_mult)

lemma WTERMSIG_exited [simp]: "WTERMSIG (status_of (Exited n)) = 0"
  unfolding WTERMSIG_def status_of_def mask_words
  by (rule bit_word_eqI) (auto simp: bit_simps)

lemma WEXITSTATUS_exited: "WEXITSTATUS (status_of (Exited n)) = word_of_int n AND 255"
  unfolding WEXITSTATUS_def status_of_def mask_words
  by (rule bit_word_eqI) (auto simp: bit_simps)

lemma WTERMSIG_killed: "sig < 127 \<Longrightarrow> WTERMSIG (status_of (Killed sig core)) = word_of_nat sig"
proof -
  assume s: "sig < 127"
  have "(word_of_nat sig :: 32 word) AND mask 7 = word_of_nat (take_bit 7 sig)"
    by (simp only: take_bit_eq_mask [symmetric] of_nat_take_bit)
  also have "take_bit 7 sig = sig" using s by (simp add: take_bit_nat_eq_self)
  finally have "(word_of_nat sig :: 32 word) AND mask 7 = word_of_nat sig" .
  moreover have "(128 :: 32 word) AND mask 7 = 0"
    by (simp add: mask_eq_exp_minus_1)
  ultimately show ?thesis
    by (simp add: WTERMSIG_def status_of_def mask_words bit.conj_disj_distrib2)
qed

lemma uint_exit: "uint (word_of_int n AND 255 :: 32 word) = n mod 256"
proof -
  have "uint (word_of_int n AND 255 :: 32 word) = uint (take_bit 8 (word_of_int n :: 32 word))"
    by (simp only: mask_words(2) take_bit_eq_mask)
  also have "\<dots> = take_bit 8 (take_bit 32 n)"
    by (simp only: unsigned_take_bit_eq uint_word_of_int_eq) simp
  also have "\<dots> = take_bit 8 n" by simp
  also have "\<dots> = n mod 256" by (simp add: take_bit_eq_mod)
  finally show ?thesis .
qed

end
