(* ===== verification/Reap.thy ===== *)
theory Reap
  imports WaitStatus "HOL-Library.Multiset"
begin

text \<open>
  Collecting children.  The SIGCHLD handlers \<open>recycleChild\<close> of \<^verbatim>\<open>server_process.c\<close> and \<open>myFun\<close> of
  \<^verbatim>\<open>sigchild.c\<close> call \<open>waitpid(-1, NULL, WNOHANG)\<close> until nothing is left to collect; the locale
  \<open>reaper\<close> states what that buys: pending SIGCHLD signals are not counted, and yet no zombie is
  ever forgotten.  A process table lists the children of the process, in the order the kernel
  looks at them, with the status word of those that are dead.
\<close>

section \<open>The process table\<close>

type_synonym ptable = "(int \<times> 32 word option) list"

definition zombies :: "ptable \<Rightarrow> int list" where
  "zombies tbl = map fst (filter (\<lambda>x. snd x \<noteq> None) tbl)"

definition alive :: "ptable \<Rightarrow> ptable" where
  "alive tbl = filter (\<lambda>x. snd x = None) tbl"

definition pids_ok :: "ptable \<Rightarrow> bool" where
  "pids_ok tbl \<longleftrightarrow> (\<forall>x\<in>set tbl. 0 < fst x)"

text \<open>The first dead child is taken out of the table.\<close>

fun take_dead :: "ptable \<Rightarrow> ((int \<times> 32 word) \<times> ptable) option" where
  "take_dead [] = None"
| "take_dead ((p, Some st) # tbl) = Some ((p, st), tbl)"
| "take_dead ((p, None) # tbl) =
     (case take_dead tbl of None \<Rightarrow> None | Some (d, tbl') \<Rightarrow> Some (d, (p, None) # tbl'))"

text \<open>\<open>waitpid(-1, &st, WNOHANG)\<close>: the returned value, the status it stores, the table left.\<close>

definition waitpid_nohang :: "ptable \<Rightarrow> int \<times> 32 word option \<times> ptable" where
  "waitpid_nohang tbl =
     (if tbl = [] then (-1, None, tbl)
      else case take_dead tbl of
        None \<Rightarrow> (0, None, tbl)
      | Some ((p, st), tbl') \<Rightarrow> (p, Some st, tbl'))"

lemma take_dead_None: "take_dead tbl = None \<longleftrightarrow> zombies tbl = []"
  by (induction tbl rule: take_dead.induct) (auto simp: zombies_def split: option.splits)

lemma take_dead_None_alive: "take_dead tbl = None \<Longrightarrow> alive tbl = tbl"
  by (induction tbl rule: take_dead.induct) (auto simp: alive_def split: option.splits)

lemma take_dead_Some:
  "take_dead tbl = Some ((p, st), tbl') \<Longrightarrow>
     zombies tbl = p # zombies tbl' \<and> alive tbl' = alive tbl \<and> length tbl = Suc (length tbl') \<and>
     mset tbl = add_mset (p, Some st) (mset tbl')"
proof (induction tbl arbitrary: tbl' rule: take_dead.induct)
  case (3 q tbl)
  then show ?case by (cases "take_dead tbl") (auto simp: zombies_def alive_def)
qed (auto simp: zombies_def alive_def)

lemma take_dead_pids:
  assumes "take_dead tbl = Some ((p, st), tbl')" "pids_ok tbl"
  shows "0 < p" "pids_ok tbl'"
proof -
  from take_dead_Some [OF assms(1)] have "set tbl = insert (p, Some st) (set tbl')"
    by (metis set_mset_add_mset_insert set_mset_mset)
  with assms(2) show "0 < p" "pids_ok tbl'" by (auto simp: pids_ok_def)
qed

lemma zombies_alive [simp]: "zombies (alive tbl) = []"
  by (auto simp: zombies_def alive_def filter_empty_conv)

lemma alive_alive [simp]: "alive (alive tbl) = alive tbl"
  by (simp add: alive_def)

lemma pids_ok_alive: "pids_ok tbl \<Longrightarrow> pids_ok (alive tbl)"
  by (simp add: pids_ok_def alive_def)

section \<open>The handlers\<close>

definition reaped_line :: "int \<Rightarrow> event" where
  "reaped_line p = Out (''pid '' @ show_int p @ '' reaped'' @ NL)"

function recycleChild :: "ptable \<Rightarrow> event list \<times> ptable" where
  "recycleChild tbl =
     (case waitpid_nohang tbl of (r, _, tbl') \<Rightarrow>
        if r = -1 then ([], tbl')
        else if r = 0 then ([], tbl')
        else if r > 0 then (case recycleChild tbl' of (es, t) \<Rightarrow> (reaped_line r # es, t))
        else recycleChild tbl')"
  by auto
termination
  by (relation "measure length")
     (auto simp: waitpid_nohang_def dest!: take_dead_Some split: if_splits option.splits)

definition child_die_line :: "int \<Rightarrow> event" where
  "child_die_line p = Out (''child die , pid = '' @ show_int p @ '' '' @ NL)"

function myFun_loop :: "ptable \<Rightarrow> event list \<times> ptable" where
  "myFun_loop tbl =
     (case waitpid_nohang tbl of (r, _, tbl') \<Rightarrow>
        if r > 0 then (case myFun_loop tbl' of (es, t) \<Rightarrow> (child_die_line r # es, t))
        else if r = 0 then ([], tbl')
        else if r = -1 then ([], tbl')
        else myFun_loop tbl')"
  by auto
termination
  by (relation "measure length")
     (auto simp: waitpid_nohang_def dest!: take_dead_Some split: if_splits option.splits)

definition caught_line :: "int \<Rightarrow> event" where
  "caught_line num = Out (''caught signal: '' @ show_int num @ '' '' @ NL)"

definition myFun :: "int \<Rightarrow> ptable \<Rightarrow> event list \<times> ptable" where
  "myFun num tbl =
     (case myFun_loop tbl of (es, t) \<Rightarrow> (caught_line num # es, t))"

declare recycleChild.simps [simp del] myFun_loop.simps [simp del]

text \<open>Both loops by one induction: nothing is left to collect, or the first dead child goes.\<close>

lemma waitpid_none:
  assumes "take_dead tbl = None"
  shows "waitpid_nohang tbl = (if tbl = [] then -1 else 0, None, tbl)"
    and "zombies tbl = []" and "alive tbl = tbl"
  using assms by (simp_all add: waitpid_nohang_def take_dead_None_alive flip: take_dead_None)

lemma waitpid_dead: "take_dead tbl = Some ((p, st), tbl') \<Longrightarrow> waitpid_nohang tbl = (p, Some st, tbl')"
  by (auto simp: waitpid_nohang_def)

lemma reap_induct [consumes 1, case_names none dead]:
  assumes "pids_ok tbl"
    and none: "\<And>tbl. take_dead tbl = None \<Longrightarrow> P tbl"
    and dead: "\<And>tbl p st tbl'. take_dead tbl = Some ((p, st), tbl') \<Longrightarrow> 0 < p \<Longrightarrow> P tbl' \<Longrightarrow> P tbl"
  shows "P tbl"
  using assms(1)
proof (induction "length tbl" arbitrary: tbl rule: less_induct)
  case less
  show ?case
  proof (cases "take_dead tbl")
    case None
    then show ?thesis by (rule none)
  next
    case (Some x)
    obtain p st tbl' where x: "x = ((p, st), tbl')" by (metis surj_pair)
    note d = Some [unfolded x]
    show ?thesis
      by (rule dead [OF d]) (use take_dead_pids [OF d less.prems] take_dead_Some [OF d] less.hyps in simp_all)
  qed
qed

lemma recycleChild_eq: "pids_ok tbl \<Longrightarrow> recycleChild tbl = (map reaped_line (zombies tbl), alive tbl)"
proof (induction rule: reap_induct)
  case (none tbl)
  then show ?case by (subst recycleChild.simps) (simp add: waitpid_none)
next
  case (dead tbl p st tbl')
  then show ?case using take_dead_Some [OF dead(1)]
    by (subst recycleChild.simps) (simp add: waitpid_dead)
qed

lemma myFun_loop_eq: "pids_ok tbl \<Longrightarrow> myFun_loop tbl = (map child_die_line (zombies tbl), alive tbl)"
proof (induction rule: reap_induct)
  case (none tbl)
  then show ?case by (subst myFun_loop.simps) (simp add: waitpid_none)
next
  case (dead tbl p st tbl')
  then show ?case using take_dead_Some [OF dead(1)]
    by (subst myFun_loop.simps) (simp add: waitpid_dead)
qed

section \<open>SIGCHLD and the handler\<close>

text \<open>
  The parent's view of its children while a SIGCHLD handler is installed: the table, whether the
  signal is pending (one flag: POSIX does not count instances), whether it is blocked, and what the
  handler has printed.  \<open>dead\<close> is a history of the children that died.
\<close>

record sigstate =
  kids :: ptable
  pending :: bool
  blocked :: bool
  printed :: "event list"
  dead :: "int list"

datatype sig_label = Spawn int | Die int "32 word" | Deliver | Unblock

fun mark_dead :: "int \<Rightarrow> 32 word \<Rightarrow> ptable \<Rightarrow> ptable" where
  "mark_dead p st [] = []"
| "mark_dead p st ((q, s) # tbl) =
     (if q = p \<and> s = None then (q, Some st) # tbl else (q, s) # mark_dead p st tbl)"

definition sig_step ::
  "(ptable \<Rightarrow> event list \<times> ptable) \<Rightarrow> sigstate \<Rightarrow> sig_label \<Rightarrow> sigstate option" where
  "sig_step handler s l =
     (case l of
        Spawn p \<Rightarrow> (if 0 < p \<and> p \<notin> fst ` set (kids s) then Some (s\<lparr>kids := kids s @ [(p, None)]\<rparr>) else None)
      | Die p st \<Rightarrow>
          (if (p, None) \<in> set (kids s)
           then Some (s\<lparr>kids := mark_dead p st (kids s), pending := True, dead := dead s @ [p]\<rparr>) else None)
      | Deliver \<Rightarrow>
          (if pending s \<and> \<not> blocked s
           then (case handler (kids s) of (es, tbl) \<Rightarrow>
                   Some (s\<lparr>kids := tbl, pending := False, printed := printed s @ es\<rparr>))
           else None)
      | Unblock \<Rightarrow> Some (s\<lparr>blocked := False\<rparr>))"

definition sig_start :: "bool \<Rightarrow> sigstate" where
  "sig_start b = \<lparr>kids = [], pending = False, blocked = b, printed = [], dead = []\<rparr>"

lemma mark_dead_pids: "map fst (mark_dead p st tbl) = map fst tbl"
  by (induction tbl rule: mark_dead.induct) auto

lemma mark_dead_ok: "pids_ok (mark_dead p st tbl) = pids_ok tbl"
  unfolding pids_ok_def by (induction tbl rule: mark_dead.induct) auto

lemma mark_dead_zombies: "(p, None) \<in> set tbl \<Longrightarrow> mset (zombies (mark_dead p st tbl)) = add_mset p (mset (zombies tbl))"
  by (induction tbl rule: mark_dead.induct) (auto simp: zombies_def)

lemma mset_Nil_iff: "mset xs = {#} \<longleftrightarrow> xs = []"
  by simp

text \<open>
  The contract of a handler: it prints one line for each zombie, in order, after a fixed prefix,
  and leaves exactly the living children.  What follows from it is proved once for both handlers.
\<close>

definition lines_of :: "(int \<Rightarrow> event) \<Rightarrow> event list \<Rightarrow> event list" where
  "lines_of line es = filter (\<lambda>e. \<exists>p. e = line p) es"

lemma lines_of_map [simp]: "lines_of line (map line ps) = map line ps"
  by (auto simp: lines_of_def filter_id_conv)

lemma lines_of_append [simp]: "lines_of line (es @ fs) = lines_of line es @ lines_of line fs"
  by (simp add: lines_of_def)

locale reaper =
  fixes handler :: "ptable \<Rightarrow> event list \<times> ptable"
    and prefix :: "event list"
    and line :: "int \<Rightarrow> event"
  assumes handler_eq: "pids_ok tbl \<Longrightarrow> handler tbl = (prefix @ map line (zombies tbl), alive tbl)"
    and prefix_other: "lines_of line prefix = []"
begin

lemma handler_idem: "pids_ok tbl \<Longrightarrow> handler (snd (handler tbl)) = (prefix, alive tbl)"
  by (simp add: handler_eq pids_ok_alive)

lemma sig_inv_step:
  assumes "sig_step handler s l = Some t"
    and "pids_ok (kids s)" "pending s \<or> zombies (kids s) = []"
    and "mset (map line (dead s)) = mset (lines_of line (printed s)) + mset (map line (zombies (kids s)))"
  shows "pids_ok (kids t) \<and> (pending t \<or> zombies (kids t) = []) \<and>
    mset (map line (dead t)) = mset (lines_of line (printed t)) + mset (map line (zombies (kids t)))"
proof (cases l)
  case (Spawn p)
  then show ?thesis using assms
    by (auto simp: sig_step_def pids_ok_def zombies_def split: if_splits)
next
  case (Die p st)
  then have t: "t = s\<lparr>kids := mark_dead p st (kids s), pending := True, dead := dead s @ [p]\<rparr>"
    "(p, None) \<in> set (kids s)"
    using assms(1) by (auto simp: sig_step_def split: if_splits)
  then show ?thesis using assms(2,4) by (simp add: mark_dead_ok mark_dead_zombies)
next
  case Deliver
  then have t: "t = s\<lparr>kids := alive (kids s), pending := False,
      printed := printed s @ prefix @ map line (zombies (kids s))\<rparr>"
    using assms(1,2) by (auto simp: sig_step_def handler_eq split: if_splits)
  then show ?thesis using assms(2,4) by (simp add: pids_ok_alive prefix_other)
next
  case Unblock
  then show ?thesis using assms by (auto simp: sig_step_def)
qed

sublocale sig: safe_system "sig_step handler" "sig_start b"
  "\<lambda>s. pids_ok (kids s) \<and> (pending s \<or> zombies (kids s) = []) \<and>
     mset (map line (dead s)) = mset (lines_of line (printed s)) + mset (map line (zombies (kids s)))"
  by unfold_locales (simp add: sig_start_def pids_ok_def zombies_def lines_of_def, metis sig_inv_step)

lemma no_lost_child:
  assumes "reachable (sig_step handler) (sig_start b) s" "\<not> pending s"
  shows "zombies (kids s) = []"
    and "mset (lines_of line (printed s)) = mset (map line (dead s))"
  using sig.inv_reachable [OF assms(1)] assms(2) by auto

end

interpretation rc: reaper recycleChild "[]" reaped_line
  by unfold_locales (simp_all add: recycleChild_eq lines_of_def)

interpretation mf: reaper "myFun num" "[caught_line num]" child_die_line
  by unfold_locales (simp_all add: myFun_def myFun_loop_eq lines_of_def child_die_line_def caught_line_def)

text \<open>
  \<open>main\<close> of \<^verbatim>\<open>sigchild.c\<close>: SIGCHLD is blocked before the first of twenty forks and unblocked after
  the handler is installed, so that children that die early leave the signal pending.  The forks are
  not checked; the parent goes on to install the handler when the last one gave it a child.
\<close>

definition sigchild_main :: "int list \<Rightarrow> sig_label list" where
  "sigchild_main forks =
     map Spawn (filter (\<lambda>p. 0 < p) (take 20 forks)) @ (if 0 < last (take 20 forks) then [Unblock] else [])"

section \<open>wait.c and waitpid.c\<close>

text \<open>The loop of five forks, as the parent sees it: \<open>pid\<close> at the end and the children it has.\<close>

fun fork_loop :: "nat \<Rightarrow> int list \<Rightarrow> int \<Rightarrow> int \<times> int list" where
  "fork_loop 0 fs pid = (pid, [])"
| "fork_loop (Suc i) [] pid = (pid, [])"
| "fork_loop (Suc i) (f # fs) pid =
     (if f = 0 then (0, [])
      else case fork_loop i fs f of (r, cs) \<Rightarrow> (r, if 0 < f then f # cs else cs))"

definition parent_line :: "int \<Rightarrow> event" where
  "parent_line me = Out ('' parent , pid = '' @ show_int me @ NL)"

definition report_status :: "32 word \<Rightarrow> event list" where
  "report_status st =
     (if WIFEXITED st then [Out (''exit status: '' @ show_int (uint (WEXITSTATUS st)) @ NL)] else []) @
     (if WIFSIGNALED st then [Out (''killed by signal: '' @ show_int (uint (WTERMSIG st)) @ NL)] else [])"

definition wait_die_line :: "int \<Rightarrow> event" where
  "wait_die_line p = Out (''child die, pid = '' @ show_int p @ '' '' @ NL)"

text \<open>A loop that never ends, followed for \<open>n\<close> turns: each child of the two programs runs one until a signal kills it.\<close>

definition endless :: "nat \<Rightarrow> event list \<Rightarrow> unit comp" where
  "endless n es = (concat (replicate n es), Block)"

text \<open>What the processes of \<^verbatim>\<open>sigchild.c\<close> do after the forks, by their \<open>pid\<close>.\<close>

definition sigchild_says :: "int \<Rightarrow> int \<Rightarrow> nat \<Rightarrow> unit comp" where
  "sigchild_says pid me turns =
     (if 0 < pid then
        endless turns [Out (''parent process pid : '' @ show_int me @ NL), Call ''sleep'' [1]]
      else if pid = 0 then
        thenc (emit (Out (''child process pid: '' @ show_int me @ '' '' @ NL))) (emit (Call ''sleep'' [1]))
      else ret ())"

definition child_loop :: "int \<Rightarrow> nat \<Rightarrow> unit comp" where
  "child_loop me n = endless n [Out ('' child , pid = '' @ show_int me @ NL), Call ''sleep'' [1]]"

text \<open>
  \<open>wait_loop me n ds\<close>: the parent has \<open>n\<close> children left and \<open>ds\<close> lists the coming deaths in order.
  \<open>wait\<close> returns the next one; it blocks when none comes and fails when no child is left.
\<close>

fun wait_loop :: "int \<Rightarrow> nat \<Rightarrow> (int \<times> 32 word) list \<Rightarrow> unit comp" where
  "wait_loop me 0 ds = emit (parent_line me)"
| "wait_loop me (Suc n) [] = block"
| "wait_loop me (Suc n) ((p, st) # ds) =
     thenc (emit (parent_line me))
    (thenc (report_status st, Done ())
    (thenc (emit (wait_die_line p))
    (thenc (emit (Call ''sleep'' [1]))
    (wait_loop me n ds))))"

text \<open>The whole program, as one of the six processes runs it: \<open>turns\<close> counts those of a child.\<close>

definition wait_main :: "int \<Rightarrow> nat \<Rightarrow> int list \<Rightarrow> (int \<times> 32 word) list \<Rightarrow> unit comp" where
  "wait_main me turns forks ds =
     (case fork_loop 5 forks 0 of (pid, cs) \<Rightarrow>
        if 0 < pid then wait_loop me (length cs) ds
        else if pid = 0 then child_loop me turns
        else ret ())"

definition waitpid_die_line :: "int \<Rightarrow> event" where
  "waitpid_die_line p = Out (''-----------------child die, pid = '' @ show_int p @ '' '' @ NL)"

text \<open>
  \<open>waitpid.c\<close> polls: before each call the children of the next batch die; after the last batch no
  child dies any more, and the loop never ends if one is left.
\<close>

fun mark_all :: "(int \<times> 32 word) list \<Rightarrow> ptable \<Rightarrow> ptable" where
  "mark_all [] tbl = tbl"
| "mark_all ((p, st) # ds) tbl = mark_all ds (mark_dead p st tbl)"

lemma length_mark_all [simp]: "length (mark_all ds tbl) = length tbl"
  by (induction ds tbl rule: mark_all.induct) (simp_all, metis length_map mark_dead_pids)

lemma waitpid_length: "waitpid_nohang tbl = (r, st, tbl') \<Longrightarrow> length tbl' \<le> length tbl"
  by (auto simp: waitpid_nohang_def dest!: take_dead_Some split: if_splits option.splits)

lemma waitpid_shorter:
  "waitpid_nohang tbl = (r, st, tbl') \<Longrightarrow> r \<noteq> 0 \<Longrightarrow> r \<noteq> -1 \<Longrightarrow> length tbl' < length tbl"
  by (auto simp: waitpid_nohang_def dest!: take_dead_Some split: if_splits option.splits)

function waitpid_loop :: "int \<Rightarrow> ptable \<Rightarrow> (int \<times> 32 word) list list \<Rightarrow> unit comp" where
  "waitpid_loop me tbl batches =
     (case waitpid_nohang (mark_all (concat (take 1 batches)) tbl) of (r, st, tbl') \<Rightarrow>
        thenc (emit (parent_line me))
       (thenc (emit (Call ''sleep'' [1]))
       (if r = -1 then ret ()
        else if r = 0 then (if batches = [] then block else waitpid_loop me tbl' (drop 1 batches))
        else thenc (case st of None \<Rightarrow> [] | Some w \<Rightarrow> (if 0 < r then report_status w else []), Done ())
            (thenc (emit (waitpid_die_line r))
            (waitpid_loop me tbl' (drop 1 batches))))))"
  by auto
termination
proof (relation "measure (\<lambda>(_, tbl, batches). length tbl + length batches)", goal_cases)
  case 2
  then show ?case by (auto dest!: waitpid_length [OF sym] simp: neq_Nil_conv)
next
  case 3
  then show ?case by (auto dest!: waitpid_shorter [OF sym])
qed simp

declare waitpid_loop.simps [simp del]

definition waitpid_main :: "int \<Rightarrow> nat \<Rightarrow> int list \<Rightarrow> (int \<times> 32 word) list list \<Rightarrow> unit comp" where
  "waitpid_main me turns forks batches =
     (case fork_loop 5 forks 0 of (pid, cs) \<Rightarrow>
        if 0 < pid then waitpid_loop me (map (\<lambda>p. (p, None)) cs) batches
        else if pid = 0 then child_loop me turns
        else ret ())"

lemma fork_loop_all: "length fs = n \<Longrightarrow> \<forall>f\<in>set fs. 0 < f \<Longrightarrow> fork_loop n fs pid = (last (pid # fs), fs)"
  by (induction n fs pid rule: fork_loop.induct) auto

lemma fork_loop_five:
  assumes "length forks = 5" "\<forall>f\<in>set forks. 0 < f"
  shows "fork_loop 5 forks 0 = (last forks, forks)" "0 < last forks"
proof -
  have "forks \<noteq> []" using assms(1) by auto
  then show "fork_loop 5 forks 0 = (last forks, forks)" "0 < last forks"
    using fork_loop_all [OF assms(1)] assms(2) by simp_all
qed

text \<open>What the parent is to say about a child of a given fate.\<close>

definition fate_line :: "fate \<Rightarrow> event" where
  "fate_line f =
     (case f of
        Exited n \<Rightarrow> Out (''exit status: '' @ show_int (n mod 256) @ NL)
      | Killed sig _ \<Rightarrow> Out (''killed by signal: '' @ show_int (int sig) @ NL))"

definition real_fate :: "fate \<Rightarrow> bool" where
  "real_fate f = (case f of Exited _ \<Rightarrow> True | Killed sig _ \<Rightarrow> 0 < sig \<and> sig < 127)"

lemma report_fate: "real_fate f \<Longrightarrow> report_status (status_of f) = [fate_line f]"
proof (cases f)
  case (Exited n)
  then show ?thesis
    by (simp add: report_status_def fate_line_def WIFEXITED_def WIFSIGNALED_def WEXITSTATUS_exited uint_exit)
next
  case (Killed sig core)
  assume "real_fate f"
  with Killed have s: "0 < sig" "sig < 127" by (simp_all add: real_fate_def)
  then have "uint (word_of_nat sig :: 32 word) = int sig"
    by (simp add: unsigned_of_nat take_bit_nat_eq_self)
  moreover from this s have "(word_of_nat sig :: 32 word) \<noteq> 0" "(word_of_nat sig :: 32 word) \<noteq> 127"
    by (auto simp: word_uint_eq_iff)
  ultimately show ?thesis using s Killed
    by (simp add: report_status_def fate_line_def WIFEXITED_def WIFSIGNALED_def WTERMSIG_killed)
qed

lemma wait_loop_reports:
  "\<forall>x\<in>set ds. real_fate (snd x) \<Longrightarrow>
     wait_loop me (length ds + n) (map (\<lambda>(p, f). (p, status_of f)) ds) =
     (concat (map (\<lambda>(p, f). [parent_line me, fate_line f, wait_die_line p, Call ''sleep'' [1]]) ds) @
        (if n = 0 then [parent_line me] else []),
      if n = 0 then Done () else Block)"
proof (induction ds)
  case Nil
  then show ?case by (cases n) (simp_all add: effect_simps)
next
  case (Cons x ds)
  then show ?case by (cases x) (simp add: effect_simps report_fate)
qed

lemma lines_other [simp]:
  "lines_of waitpid_die_line [parent_line me] = []"
  "lines_of waitpid_die_line [Call c as] = []"
  "lines_of waitpid_die_line (report_status st) = []"
  "lines_of waitpid_die_line [waitpid_die_line p] = [waitpid_die_line p]"
  by (auto simp: lines_of_def waitpid_die_line_def parent_line_def report_status_def)

lemma mark_all_pids: "map fst (mark_all ds tbl) = map fst tbl"
  by (induction ds tbl rule: mark_all.induct) (simp_all add: mark_dead_pids)

lemma mark_dead_alive:
  "distinct (map fst tbl) \<Longrightarrow> fst ` set (alive (mark_dead p st tbl)) = fst ` set (alive tbl) - {p}"
  by (induction tbl rule: mark_dead.induct) (auto simp: alive_def image_iff)

lemma mark_all_alive:
  "distinct (map fst tbl) \<Longrightarrow> fst ` set (alive (mark_all ds tbl)) = fst ` set (alive tbl) - fst ` set ds"
  by (induction ds tbl rule: mark_all.induct) (auto simp: mark_dead_pids mark_dead_alive)

lemma pids_ok_map: "pids_ok tbl \<longleftrightarrow> (\<forall>p\<in>set (map fst tbl). 0 < p)"
  by (auto simp: pids_ok_def)

lemma take_dead_map_fst:
  assumes "take_dead tbl = Some ((p, st), tbl')" "distinct (map fst tbl)"
  shows "mset (map fst tbl) = add_mset p (mset (map fst tbl'))" "distinct (map fst tbl')"
proof -
  have "mset tbl = add_mset (p, Some st) (mset tbl')" using take_dead_Some [OF assms(1)] by blast
  then have "image_mset fst (mset tbl) = add_mset p (image_mset fst (mset tbl'))" by simp
  then show *: "mset (map fst tbl) = add_mset p (mset (map fst tbl'))" by simp
  then have "mset (map fst tbl) = mset (p # map fst tbl')" by simp
  then have "distinct (p # map fst tbl')" using assms(2) by (metis mset_eq_imp_distinct_iff)
  then show "distinct (map fst tbl')" by simp
qed

lemma waitpid_loop_all:
  assumes "pids_ok tbl" "distinct (map fst tbl)" "fst ` set (alive tbl) \<subseteq> fst ` set (concat batches)"
  shows "outcome (waitpid_loop me tbl batches) = Done () \<and>
    mset (lines_of waitpid_die_line (events (waitpid_loop me tbl batches))) = mset (map waitpid_die_line (map fst tbl))"
  using assms
proof (induction "length tbl + length batches" arbitrary: tbl batches rule: less_induct)
  case less
  let ?tbl = "mark_all (concat (take 1 batches)) tbl"
  have same: "map fst ?tbl = map fst tbl" by (rule mark_all_pids)
  have ok: "pids_ok ?tbl" "distinct (map fst ?tbl)"
    using less.prems same by (simp_all add: pids_ok_map)
  have "set (concat batches) = set (concat (take 1 batches)) \<union> set (concat (drop 1 batches))"
    by (cases batches) auto
  then have "fst ` set (concat batches) = fst ` set (concat (take 1 batches)) \<union> fst ` set (concat (drop 1 batches))"
    by (simp only: image_Un)
  then have left: "fst ` set (alive ?tbl) \<subseteq> fst ` set (concat (drop 1 batches))"
    using less.prems(3) unfolding mark_all_alive [OF less.prems(2)] Diff_subset_conv by (simp only:)
  show ?case
  proof (cases "take_dead ?tbl")
    case None
    note w = waitpid_none [OF None]
    show ?thesis
    proof (cases "?tbl = []")
      case True
      then have "tbl = []" using same by simp
      with True w show ?thesis
        by (subst (1 2) waitpid_loop.simps) (simp add: effect_simps, simp add: lines_of_def parent_line_def waitpid_die_line_def)
    next
      case False
      then have b: "batches \<noteq> []" using left w(3) by (cases batches) auto
      then have "length ?tbl + length (drop 1 batches) < length tbl + length batches"
        by (cases batches) simp_all
      note IH = less.hyps [OF this ok left, unfolded same]
      have "waitpid_loop me tbl batches =
        ([parent_line me] @ [Call ''sleep'' [1]] @ events (waitpid_loop me ?tbl (drop 1 batches)),
         outcome (waitpid_loop me ?tbl (drop 1 batches)))"
        using b w False by (subst waitpid_loop.simps) (simp add: effect_simps)
      with IH show ?thesis
        by (simp only: fst_conv snd_conv lines_of_append lines_other append_Nil)
    qed
  next
    case (Some x)
    obtain p st tbl' where x: "x = ((p, st), tbl')" by (metis surj_pair)
    note d = Some [unfolded x]
    note w = waitpid_dead [OF d]
    have t': "pids_ok tbl'" "0 < p" using take_dead_pids [OF d ok(1)] by auto
    have m: "mset (map fst tbl) = add_mset p (mset (map fst tbl'))" "distinct (map fst tbl')"
      using take_dead_map_fst [OF d ok(2)] unfolding same by blast+
    have "length tbl' + length (drop 1 batches) < length tbl + length batches"
      using take_dead_Some [OF d] by simp
    moreover have "fst ` set (alive tbl') \<subseteq> fst ` set (concat (drop 1 batches))"
      using left take_dead_Some [OF d] by simp
    ultimately have IH: "outcome (waitpid_loop me tbl' (drop 1 batches)) = Done ()"
      "mset (lines_of waitpid_die_line (events (waitpid_loop me tbl' (drop 1 batches)))) =
       mset (map waitpid_die_line (map fst tbl'))"
      using less.hyps [of tbl' "drop 1 batches"] t' m(2) by blast+
    have "waitpid_loop me tbl batches =
       ([parent_line me] @ [Call ''sleep'' [1]] @ report_status st @ [waitpid_die_line p] @
        events (waitpid_loop me tbl' (drop 1 batches)), outcome (waitpid_loop me tbl' (drop 1 batches)))"
      using w t' by (subst waitpid_loop.simps) (simp add: effect_simps)
    moreover have "mset (map waitpid_die_line (map fst tbl)) =
        add_mset (waitpid_die_line p) (mset (map waitpid_die_line (map fst tbl')))"
      using arg_cong [OF m(1), of "image_mset waitpid_die_line"]
      by (simp only: mset_map image_mset_add_mset)
    ultimately show ?thesis using IH by (simp only: fst_conv snd_conv lines_of_append lines_other) simp
  qed
qed

section \<open>Properties\<close>

text \<open>Claim C18.  No child is lost in \<^verbatim>\<open>sigchild.c\<close>: SIGCHLD is blocked during the forks and not counted
  while pending, yet whenever no signal is pending no zombie is left, and the handler has printed
  exactly one line for every child that died; the same children are collected by the handler
  of the process server.\<close>

theorem sigchild_no_lost:
  assumes "reachable (sig_step (myFun 17)) (sig_start True) s" "\<not> pending s"
  shows "zombies (kids s) = [] \<and>
    mset (lines_of child_die_line (printed s)) = mset (map child_die_line (dead s))"
  by (intro conjI mf.no_lost_child [OF assms])

lemma sigchild_no_lost_witness:
  "\<exists>s. run (sig_step (myFun 17)) (sig_start True)
         (map Spawn [7, 8, 9] @ [Die 8 0, Die 7 256, Unblock, Deliver]) = Some s \<and>
     \<not> pending s \<and> zombies (kids s) = [] \<and> length (kids s) = 1"
proof -
  let ?ls = "map Spawn [7, 8, 9] @ [Die 8 0, Die 7 256, Unblock, Deliver]"
  obtain s where s: "run (sig_step (myFun 17)) (sig_start True) ?ls = Some s" "\<not> pending s" "length (kids s) = 1"
    by (simp add: sig_step_def sig_start_def myFun_def myFun_loop_eq pids_ok_def alive_def)
  from sigchild_no_lost [OF run_reachable [OF s(1)] s(2), THEN conjunct1] s show ?thesis by blast
qed

text \<open>Claim C19.  The parent of \<^verbatim>\<open>wait.c\<close>, when its five forks succeed, reports every child that dies once,
  in the order of the deaths, with the exit code modulo 256 or the signal that killed it, and ends when all five have
  died.  As the children loop for ever, they die only when they are killed from outside; as long as one is left, the
  parent waits for it.\<close>

theorem wait_main_reports:
  assumes "length forks = 5" "\<forall>p\<in>set forks. 0 < p"
    and "mset (map fst ds) \<subseteq># mset forks" "\<forall>x\<in>set ds. real_fate (snd x)"
  shows "wait_main me turns forks (map (\<lambda>(p, f). (p, status_of f)) ds) =
    (concat (map (\<lambda>(p, f). [parent_line me, fate_line f, wait_die_line p, Call ''sleep'' [1]]) ds) @
       (if length ds = 5 then [parent_line me] else []),
     if length ds = 5 then Done () else Block)"
proof -
  have "length ds \<le> length forks" using size_mset_mono [OF assms(3)] by simp
  then obtain n where n: "length forks = length ds + n" using le_Suc_ex by blast
  then have five: "n = 0 \<longleftrightarrow> length ds = 5" using assms(1) by auto
  have "wait_main me turns forks (map (\<lambda>(p, f). (p, status_of f)) ds) =
      wait_loop me (length ds + n) (map (\<lambda>(p, f). (p, status_of f)) ds)"
    using fork_loop_five [OF assms(1,2)] n by (simp add: wait_main_def)
  then show ?thesis unfolding wait_loop_reports [OF assms(4)] five .
qed

lemma wait_main_reports_witness:
  "wait_main 100 0 [11, 12, 13, 14, 15]
     (map (\<lambda>(p, f). (p, status_of f)) [(13, Killed 9 False), (11, Exited (-1)), (12, Exited 0), (15, Exited 256), (14, Killed 6 True)]) =
   (concat (map (\<lambda>(p, f). [parent_line 100, fate_line f, wait_die_line p, Call ''sleep'' [1]])
     [(13, Killed 9 False), (11, Exited (-1)), (12, Exited 0), (15, Exited 256), (14, Killed 6 True)]) @ [parent_line 100],
    Done ())"
  using wait_main_reports [of "[11, 12, 13, 14, 15]"
    "[(13, Killed 9 False), (11, Exited (-1)), (12, Exited 0), (15, Exited 256), (14, Killed 6 True)]" 100 0]
  by (simp add: real_fate_def)

text \<open>The polling parent of \<^verbatim>\<open>waitpid.c\<close>, its five forks successful, ends as soon as all its
  children have died, in whatever batches between its polls, and prints one line for each of them.\<close>

theorem waitpid_main_reports:
  assumes "length forks = 5" "\<forall>p\<in>set forks. 0 < p" "distinct forks"
    and "set forks \<subseteq> fst ` set (concat batches)"
  shows "outcome (waitpid_main me turns forks batches) = Done () \<and>
    mset (lines_of waitpid_die_line (events (waitpid_main me turns forks batches))) = mset (map waitpid_die_line forks)"
proof (intro conjI impI)
  let ?tbl = "map (\<lambda>p. (p, None)) forks :: ptable"
  have fst: "map fst ?tbl = forks" by (simp add: comp_def)
  have "waitpid_main me turns forks batches = waitpid_loop me ?tbl batches"
    using fork_loop_five [OF assms(1,2)] by (simp add: waitpid_main_def)
  moreover have "outcome (waitpid_loop me ?tbl batches) = Done () \<and>
      mset (lines_of waitpid_die_line (events (waitpid_loop me ?tbl batches))) = mset (map waitpid_die_line (map fst ?tbl))"
  proof (rule waitpid_loop_all)
    show "pids_ok ?tbl" "distinct (map fst ?tbl)" using assms(2,3) unfolding fst by (auto simp: pids_ok_def)
    show "fst ` set (alive ?tbl) \<subseteq> fst ` set (concat batches)"
      using assms(4) by (auto simp: alive_def image_image)
  qed
  ultimately show "outcome (waitpid_main me turns forks batches) = Done ()"
    "mset (lines_of waitpid_die_line (events (waitpid_main me turns forks batches))) = mset (map waitpid_die_line forks)"
    unfolding fst by simp_all
qed

lemma waitpid_main_reports_witness:
  "mset (lines_of waitpid_die_line (events (waitpid_main 100 0 [1, 2, 3, 4, 5]
      [[(4, 9)], [], [(1, 0), (3, 256)], [(2, 0), (5, 15)]]))) = mset (map waitpid_die_line [1, 2, 3, 4, 5])"
  by (rule waitpid_main_reports [THEN conjunct2]) simp_all

end
