(* ===== verification/ProcessServer.thy ===== *)
theory ProcessServer
  imports Echo Reap
begin

text \<open>
  The echo server with one process per connection, \<^verbatim>\<open>server_process.c\<close>.  The parent accepts and
  forks; its children are tracked by the \<open>sigstate\<close> of theory \<open>Reap\<close>, with \<open>recycleChild\<close> as the handler
  of SIGCHLD.  The handler is installed with \<open>sa_flags = 0\<close>, so a signal that arrives while the
  parent waits in \<open>accept\<close> makes that call fail with EINTR.  The parent never closes the
  descriptors it accepts.
\<close>

text \<open>\<open>err\<close> prints the literal text "str", not its argument.\<close>

definition err :: "string \<Rightarrow> 'a comp" where
  "err str = thenc (emit (Perror ''str'')) (exit_with (-1))"

datatype parent_pc = InAccept | Forking int

text \<open>A child has copies of the descriptor and of the peer's address that its parent held at the \<open>fork\<close>.\<close>

record pchild =
  pc_pid :: int
  pc_fd :: int
  pc_peer :: address
  pc_said :: bool
  pc_buf :: string
  pc_over :: bool

record ps_state =
  at :: parent_pc
  cliaddr :: address
  sigs :: sigstate
  servants :: "pchild list"
  parent_fds :: "int list"
  ps_trace :: "event list"
  ps_stop :: "unit outcome"

text \<open>What a child prints first.\<close>

definition cli_line :: "address \<Rightarrow> event" where
  "cli_line = (\<lambda>(ip, port). Out (''client IP : '' @ ip @ '' , Port : '' @ show_int port @ '' '' @ NL))"

text \<open>One turn of the child's loop: the new buffer; the child leaves it through \<open>exit\<close>.\<close>

definition serve_child :: "rdres \<Rightarrow> fd \<Rightarrow> string \<Rightarrow> string comp" where
  "serve_child r cfd buf =
     (case r of
        RdErr \<Rightarrow> err ''read''
      | RdData d \<Rightarrow>
          (let buf' = fill buf d in
           if length d > 0 then
             bindc (cstr buf') (\<lambda>t.
             thenc (emit (Out (''receive client data: '' @ t @ '' '' @ NL)))
            (thenc (case strlen buf' of None \<Rightarrow> undef | Some n \<Rightarrow> emit (Wr cfd (take n buf')))
            (ret buf')))
           else
             thenc (emit (Out (''client closed...'' @ NL)))
            (thenc (emit (Cl cfd))
            (exit_with 0))))"

datatype ps_label = PAccept int address | PFork int | PGreet nat | PRead nat rdres | PSignal

definition ps_accept :: "int \<Rightarrow> address \<Rightarrow> ps_state \<Rightarrow> ps_state" where
  "ps_accept c peer s =
     (if c = -1 then s\<lparr>ps_trace := ps_trace s @ events (err ''accept'' :: unit comp), ps_stop := outcome (err ''accept'')\<rparr>
      else s\<lparr>at := Forking c, cliaddr := peer, parent_fds := parent_fds s @ [c]\<rparr>)"

definition ps_fork :: "int \<Rightarrow> int \<Rightarrow> ps_state \<Rightarrow> ps_state option" where
  "ps_fork c p s =
     (if p = -1 then
        Some (s\<lparr>ps_trace := ps_trace s @ events (err ''fork'' :: unit comp), ps_stop := outcome (err ''fork'')\<rparr>)
      else case sig_step recycleChild (sigs s) (Spawn p) of
        None \<Rightarrow> None
      | Some g \<Rightarrow>
          Some (s\<lparr>at := InAccept, sigs := g,
                  servants := servants s @ [\<lparr>pc_pid = p, pc_fd = c, pc_peer = cliaddr s, pc_said = False,
                    pc_buf = zeros BUFSIZ, pc_over = False\<rparr>]\<rparr>))"

definition ps_greet :: "nat \<Rightarrow> ps_state \<Rightarrow> ps_state" where
  "ps_greet n s =
     (let w = servants s ! n in
      s\<lparr>ps_trace := ps_trace s @ [cli_line (pc_peer w)], servants := (servants s)[n := w\<lparr>pc_said := True\<rparr>]\<rparr>)"

text \<open>A child that exits with code \<open>e\<close> becomes a zombie and SIGCHLD is raised.\<close>

definition ps_exit :: "nat \<Rightarrow> int \<Rightarrow> ps_state \<Rightarrow> ps_state option" where
  "ps_exit n e s =
     (case sig_step recycleChild (sigs s) (Die (pc_pid (servants s ! n)) (status_of (Exited e))) of
        None \<Rightarrow> None
      | Some g \<Rightarrow> Some (s\<lparr>sigs := g, servants := (servants s)[n := (servants s ! n)\<lparr>pc_over := True\<rparr>]\<rparr>))"

definition ps_read :: "nat \<Rightarrow> rdres \<Rightarrow> ps_state \<Rightarrow> ps_state option" where
  "ps_read n r s =
     (let w = servants s ! n in
      case serve_child r (pc_fd w) (pc_buf w) of
        (es, Done buf) \<Rightarrow>
          Some (s\<lparr>ps_trace := ps_trace s @ es, servants := (servants s)[n := w\<lparr>pc_buf := buf\<rparr>]\<rparr>)
      | (es, Exit e) \<Rightarrow> ps_exit n e (s\<lparr>ps_trace := ps_trace s @ es\<rparr>)
      | (es, _) \<Rightarrow> Some (s\<lparr>ps_trace := ps_trace s @ es, ps_stop := Undef\<rparr>))"

text \<open>The handler runs; if it interrupted \<open>accept\<close>, that call has failed.\<close>

definition ps_signal :: "ps_state \<Rightarrow> ps_state option" where
  "ps_signal s =
     (case sig_step recycleChild (sigs s) Deliver of
        None \<Rightarrow> None
      | Some g \<Rightarrow> Some (case at s of
          InAccept \<Rightarrow> ps_accept (-1) (cliaddr s) (s\<lparr>sigs := g\<rparr>)
        | Forking c \<Rightarrow> s\<lparr>sigs := g\<rparr>))"

definition ps_step :: "ps_state \<Rightarrow> ps_label \<Rightarrow> ps_state option" where
  "ps_step s l =
     (if ps_stop s \<noteq> Done () then None
      else case l of
        PAccept c peer \<Rightarrow>
          (case at s of
             InAccept \<Rightarrow> (if c = -1 \<or> 0 \<le> c \<and> c \<notin> set (parent_fds s) then Some (ps_accept c peer s) else None)
           | Forking _ \<Rightarrow> None)
      | PFork p \<Rightarrow> (case at s of InAccept \<Rightarrow> None | Forking c \<Rightarrow> ps_fork c p s)
      | PGreet n \<Rightarrow>
          (if n < length (servants s) \<and> \<not> pc_said (servants s ! n) then Some (ps_greet n s) else None)
      | PRead n r \<Rightarrow>
          (if n < length (servants s) \<and> pc_said (servants s ! n) \<and> \<not> pc_over (servants s ! n) \<and>
              (\<forall>d. r = RdData d \<longrightarrow> length d \<le> BUFSIZ)
           then ps_read n r s else None)
      | PSignal \<Rightarrow> ps_signal s)"

text \<open>\<open>main\<close> up to its loop: the handler comes first, then the listening socket.\<close>

definition ps_init :: ps_state where
  "ps_init = \<lparr>at = InAccept, cliaddr = ([], 0), sigs = sig_start False, servants = [], parent_fds = [], ps_trace = [], ps_stop = Done ()\<rparr>"

definition ps_main :: "int \<Rightarrow> int \<Rightarrow> int \<Rightarrow> ps_state comp" where
  "ps_main sock bnd lst =
     thenc (emit (Call ''sigaction'' [17]))
    (thenc (if -1 = sock then err ''socket'' else ret ())
    (thenc (emit (Call ''bind'' [sock, 9527]))
    (thenc (if -1 = bnd then err ''bind'' else ret ())
    (thenc (emit (Call ''listen'' [sock, 128]))
    (thenc (if -1 = lst then err ''listen'' else ret ())
    (ret ps_init))))))"

section \<open>The children are those of the signal model\<close>

text \<open>Every step of the server makes at most one step of \<open>sig_step recycleChild\<close>.\<close>

lemma ps_step_sigs:
  "ps_step s l = Some t \<Longrightarrow> sigs t = sigs s \<or> (\<exists>g. sig_step recycleChild (sigs s) g = Some (sigs t))"
  by (auto simp: ps_step_def ps_accept_def ps_fork_def ps_greet_def ps_read_def ps_exit_def ps_signal_def Let_def
      split: if_splits ps_label.splits parent_pc.splits option.splits prod.splits outcome.splits)

lemma ps_sigs_reachable: "reachable ps_step ps_init s \<Longrightarrow> reachable (sig_step recycleChild) (sig_start False) (sigs s)"
proof (induction rule: reachable.induct)
  case reach_start
  show ?case by (simp add: ps_init_def reachable.reach_start)
next
  case (reach_step s l t)
  with ps_step_sigs show ?case by (metis reachable.reach_step)
qed

section \<open>Invariant\<close>

text \<open>
  The running children are exactly the living entries of the process table, and the parent still
  holds every descriptor it has accepted.
\<close>

definition ps_running :: "ps_state \<Rightarrow> int multiset" where
  "ps_running s = mset (map pc_pid (filter (\<lambda>w. \<not> pc_over w) (servants s)))"

definition accepted :: "ps_state \<Rightarrow> int list" where
  "accepted s = map pc_fd (servants s) @ (case at s of InAccept \<Rightarrow> [] | Forking c \<Rightarrow> [c])"

definition ps_inv :: "ps_state \<Rightarrow> bool" where
  "ps_inv s \<longleftrightarrow>
     pids_ok (kids (sigs s)) \<and> ps_running s = mset (map fst (alive (kids (sigs s)))) \<and>
     distinct (accepted s) \<and> parent_fds s = accepted s"

lemma log_simps [simp]:
  "ps_running (s\<lparr>ps_trace := tr\<rparr>) = ps_running s" "ps_running (s\<lparr>ps_stop := oo\<rparr>) = ps_running s"
  "accepted (s\<lparr>ps_trace := tr\<rparr>) = accepted s" "accepted (s\<lparr>ps_stop := oo\<rparr>) = accepted s"
  by (simp_all add: ps_running_def accepted_def)

lemma mark_dead_living:
  "(p, None) \<in> set tbl \<Longrightarrow> mset (map fst (alive tbl)) = add_mset p (mset (map fst (alive (mark_dead p st tbl))))"
  by (induction tbl rule: mark_dead.induct) (auto simp: alive_def)

lemma mset_update_filter:
  assumes "n < length xs" "P (xs ! n)" "\<not> P y"
  shows "mset (filter P xs) = add_mset (xs ! n) (mset (filter P (xs[n := y])))"
  using assms
proof (induction xs arbitrary: n)
  case (Cons x xs)
  then show ?case by (cases n) auto
qed simp

lemma filter_update_same:
  assumes "n < length xs" "P (xs ! n)" "P y" "f y = f (xs ! n)"
  shows "map f (filter P (xs[n := y])) = map f (filter P xs)"
  using assms
proof (induction xs arbitrary: n)
  case (Cons x xs)
  then show ?case by (cases n) auto
qed simp

lemma filter_over_same:
  assumes "pc_over y = pc_over (ws ! n)" "pc_pid y = pc_pid (ws ! n)"
  shows "map pc_pid (filter (\<lambda>w. \<not> pc_over w) (ws[n := y])) = map pc_pid (filter (\<lambda>w. \<not> pc_over w) ws)"
  using assms
proof (induction ws arbitrary: n)
  case (Cons x ws)
  then show ?case by (cases n) auto
qed simp

lemma map_update_same: "f y = f (xs ! n) \<Longrightarrow> map f (xs[n := y]) = map f xs"
  by (metis list_update_id map_update)

lemma running_living:
  assumes "ps_inv s" "n < length (servants s)" "\<not> pc_over (servants s ! n)"
  shows "(pc_pid (servants s ! n), None) \<in> set (kids (sigs s))"
proof -
  have "pc_pid (servants s ! n) \<in># ps_running s"
    using assms(2,3) by (auto simp: ps_running_def)
  then have "pc_pid (servants s ! n) \<in> set (map fst (alive (kids (sigs s))))"
    using assms(1) by (simp add: ps_inv_def)
  then show ?thesis by (auto simp: alive_def)
qed

lemma ps_inv_exit:
  assumes "ps_inv s" "n < length (servants s)" "\<not> pc_over (servants s ! n)"
  shows "\<exists>t. ps_exit n e s = Some t \<and> ps_inv t \<and> pending (sigs t) \<and> blocked (sigs t) = blocked (sigs s) \<and>
           at t = at s \<and> ps_stop t = ps_stop s"
proof -
  let ?p = "pc_pid (servants s ! n)" and ?st = "status_of (Exited e)"
  let ?g = "sigs s\<lparr>kids := mark_dead ?p ?st (kids (sigs s)), pending := True, dead := dead (sigs s) @ [?p]\<rparr>"
  let ?t = "s\<lparr>sigs := ?g, servants := (servants s)[n := (servants s ! n)\<lparr>pc_over := True\<rparr>]\<rparr>"
  note live = running_living [OF assms]
  then have t: "ps_exit n e s = Some ?t" by (simp add: ps_exit_def sig_step_def)
  have "ps_running s = add_mset ?p (ps_running ?t)"
    using mset_update_filter [of n "servants s" "\<lambda>w. \<not> pc_over w" "(servants s ! n)\<lparr>pc_over := True\<rparr>"] assms(2,3)
    by (simp add: ps_running_def)
  moreover have "mset (map fst (alive (kids (sigs s)))) = add_mset ?p (mset (map fst (alive (kids ?g))))"
    using mark_dead_living [OF live] by simp
  ultimately have "add_mset ?p (ps_running ?t) = add_mset ?p (mset (map fst (alive (kids ?g))))"
    using assms(1) unfolding ps_inv_def by metis
  then have "ps_running ?t = mset (map fst (alive (kids ?g)))" by (simp only: add_mset_add_mset_same_iff)
  moreover have "accepted ?t = accepted s" by (simp add: accepted_def map_update_same)
  ultimately have "ps_inv ?t" using assms(1) by (simp add: ps_inv_def mark_dead_ok)
  then show ?thesis using t by simp
qed

lemma ps_inv_read:
  assumes "ps_inv s" "n < length (servants s)" "\<not> pc_over (servants s ! n)" "ps_read n r s = Some t"
  shows "ps_inv t"
proof -
  let ?w = "servants s ! n"
  obtain es oc where c: "serve_child r (pc_fd ?w) (pc_buf ?w) = (es, oc)" by fastforce
  have log: "ps_inv (s\<lparr>ps_trace := tr\<rparr>)" "ps_inv (s\<lparr>ps_trace := tr, ps_stop := oo\<rparr>)" for tr oo
    using assms(1) by (auto simp: ps_inv_def)
  show ?thesis
  proof (cases oc)
    case (Done buf)
    with c assms(4) have t: "t = s\<lparr>ps_trace := ps_trace s @ es, servants := (servants s)[n := ?w\<lparr>pc_buf := buf\<rparr>]\<rparr>"
      by (simp add: ps_read_def)
    have "ps_running t = ps_running s"
      using filter_update_same [of n "servants s" "\<lambda>w. \<not> pc_over w" "?w\<lparr>pc_buf := buf\<rparr>" pc_pid] assms(2,3)
      by (simp add: t ps_running_def)
    with assms(1) show ?thesis by (simp add: t ps_inv_def accepted_def map_update_same)
  next
    case (Exit e)
    with c assms(4) have "ps_exit n e (s\<lparr>ps_trace := ps_trace s @ es\<rparr>) = Some t"
      by (simp add: ps_read_def)
    moreover obtain u where "ps_exit n e (s\<lparr>ps_trace := ps_trace s @ es\<rparr>) = Some u" "ps_inv u"
      using ps_inv_exit [OF log(1), of n "ps_trace s @ es" e] assms(2,3) by auto
    ultimately show ?thesis by simp
  qed (use c assms(4) log(2) in \<open>auto simp: ps_read_def\<close>)
qed

lemma ps_inv_signal: "ps_inv s \<Longrightarrow> ps_signal s = Some t \<Longrightarrow> ps_inv t"
  by (auto simp: ps_signal_def sig_step_def recycleChild_eq ps_inv_def ps_running_def accepted_def
      pids_ok_alive ps_accept_def split: if_splits parent_pc.splits)

lemma ps_inv_fork: "ps_inv s \<Longrightarrow> at s = Forking c \<Longrightarrow> ps_fork c p s = Some t \<Longrightarrow> ps_inv t"
  by (auto simp: ps_fork_def sig_step_def ps_inv_def ps_running_def accepted_def pids_ok_def alive_def
      split: if_splits)

lemma ps_inv_accept: "ps_inv s \<Longrightarrow> at s = InAccept \<Longrightarrow> c = -1 \<or> c \<notin> set (parent_fds s) \<Longrightarrow> ps_inv (ps_accept c peer s)"
  by (auto simp: ps_accept_def ps_inv_def ps_running_def accepted_def)

lemma ps_inv_greet: "ps_inv s \<Longrightarrow> ps_inv (ps_greet n s)"
  by (cases "n < length (servants s)")
    (simp_all add: ps_greet_def Let_def ps_inv_def ps_running_def accepted_def map_update_same filter_over_same)

lemma ps_inv_step: "ps_inv s \<Longrightarrow> ps_step s l = Some t \<Longrightarrow> ps_inv t"
  by (auto simp: ps_step_def ps_inv_accept ps_inv_fork ps_inv_greet intro: ps_inv_read ps_inv_signal
      split: if_splits ps_label.splits parent_pc.splits)

interpretation ps: safe_system ps_step ps_init ps_inv
proof unfold_locales
  show "ps_inv ps_init"
    by (simp add: ps_inv_def ps_init_def ps_running_def accepted_def sig_start_def pids_ok_def alive_def)
qed (rule ps_inv_step)

lemma ps_not_blocked: "reachable ps_step ps_init s \<Longrightarrow> \<not> blocked (sigs s)"
proof -
  have *: "sig_step recycleChild g l = Some g' \<Longrightarrow> \<not> blocked g \<Longrightarrow> \<not> blocked g'" for g g' l
    by (auto simp: sig_step_def split: if_splits sig_label.splits prod.splits)
  assume "reachable ps_step ps_init s"
  then show ?thesis
  proof (induction rule: reachable.induct)
    case reach_start
    show ?case by (simp add: ps_init_def sig_start_def)
  next
    case (reach_step s l t)
    with ps_step_sigs * show ?case by metis
  qed
qed

text \<open>What a child still does when its client leaves: it prints its line, if it has not yet, and
  reads the end of file.\<close>

definition ps_leaves :: "nat \<Rightarrow> ps_state \<Rightarrow> ps_label list" where
  "ps_leaves n s = (if pc_said (servants s ! n) then [] else [PGreet n]) @ [PRead n (RdData [])]"

lemma ps_said_exit_kills:
  assumes "reachable ps_step ps_init s" "ps_stop s = Done ()" "at s = InAccept"
    and "n < length (servants s)" "\<not> pc_over (servants s ! n)" "pc_said (servants s ! n)"
  shows "\<exists>t u. ps_step s (PRead n (RdData [])) = Some t \<and> ps_stop t = Done () \<and>
           ps_step t PSignal = Some u \<and> ps_stop u = Exit (-1)"
proof -
  let ?w = "servants s ! n"
  let ?s = "s\<lparr>ps_trace := ps_trace s @ [Out (''client closed...'' @ NL), Cl (pc_fd ?w)]\<rparr>"
  have inv: "ps_inv s" using assms(1) by (rule ps.inv_reachable)
  then have "ps_inv ?s" by (auto simp: ps_inv_def)
  from ps_inv_exit [OF this, of n 0] assms(4,5) obtain t where
    t: "ps_exit n 0 ?s = Some t" "pending (sigs t)" "blocked (sigs t) = blocked (sigs s)"
      "at t = at s" "ps_stop t = ps_stop s"
    by auto
  have read: "ps_step s (PRead n (RdData [])) = Some t"
    using assms t(1) by (simp add: ps_step_def ps_read_def serve_child_def effect_simps)
  have "\<not> blocked (sigs s)"
    using assms(1) by (rule ps_not_blocked)
  moreover obtain es tbl where "recycleChild (kids (sigs t)) = (es, tbl)" by fastforce
  ultimately obtain u where "ps_step t PSignal = Some u" "ps_stop u = Exit (-1)"
    using t assms by (simp add: ps_step_def ps_signal_def sig_step_def ps_accept_def err_def effect_simps)
  with read t assms(2) show ?thesis by auto
qed

section \<open>Properties\<close>

text \<open>Claim C23.  A client that leaves while the server waits for the next one takes the server down:
  its child, once it has printed its line, exits, and the SIGCHLD that follows interrupts \<open>accept\<close>, whose failure is fatal.  This is
  so in every reachable state, for every connected client.\<close>

theorem ps_client_exit_kills:
  assumes "reachable ps_step ps_init s" "ps_stop s = Done ()" "at s = InAccept"
    and "n < length (servants s)" "\<not> pc_over (servants s ! n)"
  shows "\<exists>t u. run ps_step s (ps_leaves n s) = Some t \<and> ps_stop t = Done () \<and>
           run ps_step s (ps_leaves n s @ [PSignal]) = Some u \<and> ps_stop u = Exit (-1)"
proof (cases "pc_said (servants s ! n)")
  case True
  with ps_said_exit_kills [OF assms True] show ?thesis by (auto simp: ps_leaves_def)
next
  case False
  let ?s = "ps_greet n s"
  have g: "ps_step s (PGreet n) = Some ?s" using assms False by (simp add: ps_step_def)
  have "\<exists>t u. ps_step ?s (PRead n (RdData [])) = Some t \<and> ps_stop t = Done () \<and>
      ps_step t PSignal = Some u \<and> ps_stop u = Exit (-1)"
    using assms g by (intro ps_said_exit_kills reach_step [OF assms(1) g]) (simp_all add: ps_greet_def Let_def)
  with g False show ?thesis by (auto simp: ps_leaves_def)
qed

lemma ps_client_exit_kills_witness:
  "\<exists>s u. run ps_step ps_init [PAccept 4 (''::1'', 1), PFork 100, PAccept 5 (''::1'', 2), PFork 101] = Some s \<and>
     run ps_step s [PGreet 0, PRead 0 (RdData []), PSignal] = Some u \<and> ps_stop u = Exit (-1)"
proof -
  let ?ls = "[PAccept 4 (''::1'', 1), PFork 100, PAccept 5 (''::1'', 2), PFork 101]"
  obtain s where s: "run ps_step ps_init ?ls = Some s" "ps_stop s = Done ()" "at s = InAccept"
    "0 < length (servants s)" "\<not> pc_over (servants s ! 0)" "\<not> pc_said (servants s ! 0)"
    by (simp add: ps_step_def ps_init_def ps_accept_def ps_fork_def sig_step_def sig_start_def)
  from ps_client_exit_kills [OF run_reachable [OF s(1)] s(2-5)] s(1,6) show ?thesis
    by (auto simp: ps_leaves_def simp del: run.simps)
qed

text \<open>Claim C9.  No zombie stays: in every reachable state of the server in which no SIGCHLD is pending,
  each of its children that has exited has been collected, and the handler has printed one line for it.\<close>

theorem ps_no_zombies:
  assumes "reachable ps_step ps_init s" "\<not> pending (sigs s)"
  shows "zombies (kids (sigs s)) = [] \<and>
    mset (lines_of reaped_line (printed (sigs s))) = mset (map reaped_line (dead (sigs s))) \<and>
    mset (map fst (kids (sigs s))) = ps_running s"
proof (intro conjI impI)
  note g = ps_sigs_reachable [OF assms(1)]
  show z: "zombies (kids (sigs s)) = []"
    and "mset (lines_of reaped_line (printed (sigs s))) = mset (map reaped_line (dead (sigs s)))"
    using rc.no_lost_child [OF g assms(2)] by auto
  have "take_dead (kids (sigs s)) = None" using z by (simp add: take_dead_None)
  then have "alive (kids (sigs s)) = kids (sigs s)" by (rule take_dead_None_alive)
  then show "mset (map fst (kids (sigs s))) = ps_running s"
    using ps.inv_reachable [OF assms(1)] by (simp add: ps_inv_def)
qed

lemma ps_no_zombies_witness:
  "\<exists>s. run ps_step ps_init [PAccept 4 (''::1'', 1), PFork 100, PAccept 5 (''::1'', 2), PGreet 0, PRead 0 (RdData []), PSignal, PFork 101] = Some s \<and>
     zombies (kids (sigs s)) = [] \<and> map pc_over (servants s) = [True, False]"
proof -
  let ?ls = "[PAccept 4 (''::1'', 1), PFork 100, PAccept 5 (''::1'', 2), PGreet 0, PRead 0 (RdData []), PSignal, PFork 101]"
  obtain s where s: "run ps_step ps_init ?ls = Some s" "\<not> pending (sigs s)" "map pc_over (servants s) = [True, False]"
    by (simp add: ps_step_def ps_init_def ps_accept_def ps_fork_def sig_step_def sig_start_def ps_greet_def ps_read_def
        ps_exit_def ps_signal_def serve_child_def recycleChild_eq pids_ok_def alive_def effect_simps)
  from ps_no_zombies [OF run_reachable [OF s(1)] s(2), THEN conjunct1] s(1,3) show ?thesis by (intro exI [of _ s] conjI)
qed

text \<open>The parent never gives a descriptor back: in every reachable state it holds, all
  different, the descriptors of all connections it has ever accepted, those of children long gone
  included.\<close>

lemma ps_fds_leak:
  assumes "reachable ps_step ps_init s"
  shows "parent_fds s = accepted s \<and>
    distinct (map pc_fd (servants s)) \<and>
    length (servants s) \<le> length (parent_fds s)"
  using ps.inv_reachable [OF assms] by (auto simp: ps_inv_def accepted_def)

text \<open>A child answers every message that holds a NUL by its text, without the NUL, and keeps
  serving; on end of file it closes the connection and exits with 0; a failed \<open>read\<close> ends it with
  the literal message "str".\<close>

theorem serve_child_replies:
  assumes "length d \<le> length buf"
  shows "serve_child RdErr fd buf = ([Perror ''str''], Exit (-1)) \<and>
    serve_child (RdData []) fd buf = ([Out (''client closed...'' @ NL), Cl fd], Exit 0) \<and>
    (NUL \<in> set d \<longrightarrow> serve_child (RdData d) fd buf =
      ([Out (''receive client data: '' @ text_of d @ '' '' @ NL), Wr fd (text_of d)], Done (fill buf d)))"
proof (intro conjI impI)
  show "serve_child RdErr fd buf = ([Perror ''str''], Exit (-1))"
    by (simp add: serve_child_def err_def effect_simps)
  show "serve_child (RdData []) fd buf = ([Out (''client closed...'' @ NL), Cl fd], Exit 0)"
    by (simp add: serve_child_def effect_simps)
  assume d: "NUL \<in> set d"
  then have "NUL \<in> set (fill buf d)" by (simp add: fill_def)
  with d have len: "strlen (fill buf d) = Some (length (text_of d))"
    by (simp add: strlen_eq_Some text_of_fill_NUL)
  from take_strlen [OF this] len d show "serve_child (RdData d) fd buf =
      ([Out (''receive client data: '' @ text_of d @ '' '' @ NL), Wr fd (text_of d)], Done (fill buf d))"
    by (auto simp: serve_child_def Let_def cstr_def effect_simps text_of_fill_NUL)
qed

lemma serve_child_replies_witness:
  "events (serve_child (RdData (''hi'' @ [NUL])) 4 (zeros 8)) =
     [Out (''receive client data: '' @ ''hi'' @ '' '' @ NL), Wr 4 ''hi'']"
  using serve_child_replies [where d = "''hi'' @ [NUL]" and buf = "zeros 8" and fd = 4]
  by (simp add: text_of_def NUL_def)

end
