(* ===== verification/Clients.thy ===== *)
theory Clients
  imports ThreadServer ProcessServer
begin

text \<open>
  The TCP clients: \<^verbatim>\<open>client.c\<close> of \<^verbatim>\<open>_select\<close> and \<^verbatim>\<open>_poll\<close> (the same text) number their messages, that of \<^verbatim>\<open>_epoll\<close>
  sends the lines of its input, that of \<^verbatim>\<open>concurent_socket\<close> a fixed greeting.  Each turn sends a
  NUL-terminated text, waits for the answer and prints it.
\<close>

section \<open>Connecting\<close>

definition cl_serr :: "string \<Rightarrow> 'a comp" where
  "cl_serr str = thenc (emit (Perror str)) (exit_with (-1))"

definition tcp_connect :: "(string \<Rightarrow> unit comp) \<Rightarrow> int \<Rightarrow> int \<Rightarrow> fd comp" where
  "tcp_connect fails sock conn =
     thenc (if -1 = sock then fails ''socket'' else ret ())
    (thenc (emit (Call ''connect'' [sock, 9527]))
    (thenc (if -1 = conn then fails ''connect'' else ret ())
    (ret sock)))"

section \<open>One turn\<close>

text \<open>What follows a \<open>read\<close> into \<open>buf\<close>: whether the client goes on.\<close>

definition receive :: "(string \<Rightarrow> bool comp) \<Rightarrow> rdres \<Rightarrow> string \<Rightarrow> bool comp" where
  "receive fails r buf =
     (case r of
        RdErr \<Rightarrow> fails ''read''
      | RdData d \<Rightarrow>
          (if length d > 0 then
             bindc (cstr (fill buf d)) (\<lambda>t.
             thenc (emit (Out (''receive server: '' @ t @ NL)))
            (ret True))
           else
             thenc (emit (Out (''server closed...'' @ NL)))
            (ret False)))"

text \<open>The text is put into the zeroed buffer, which the answer then overwrites.\<close>

definition text_turn :: "fd \<Rightarrow> string \<Rightarrow> rdres \<Rightarrow> bool comp" where
  "text_turn cfd text r =
     (let buf = fill (zeros BUFSIZ) (text @ [NUL]) in
      thenc (reply cfd buf) (receive cl_serr r buf))"

definition io_text :: "int \<Rightarrow> string" where
  "io_text num = ''send data '' @ show_int num"

text \<open>The loop, over what the reads return; when the list is used up the client waits for ever.\<close>

fun io_client :: "fd \<Rightarrow> int \<Rightarrow> rdres list \<Rightarrow> unit comp" where
  "io_client cfd num [] = thenc (reply cfd (fill (zeros BUFSIZ) (io_text num @ [NUL]))) block"
| "io_client cfd num (r # rs) =
     bindc (text_turn cfd (io_text num) r) (\<lambda>go_on.
       if go_on then thenc (emit (Call ''sleep'' [1])) (io_client cfd (num + 1) rs)
       else emit (Cl cfd))"

text \<open>
  \<open>fgets\<close> stores at most \<open>BUFSIZ - 1\<close> bytes of a line; at the end of the input (\<open>None\<close>) it returns NULL, which the
  program does not look at, and leaves the zeroed buffer as it is.  Without another line it waits.
\<close>

definition fgets_buf :: "string option \<Rightarrow> string" where
  "fgets_buf line = (case line of None \<Rightarrow> [] | Some l \<Rightarrow> take (BUFSIZ - 1) l)"

fun epoll_client :: "fd \<Rightarrow> string option list \<Rightarrow> rdres list \<Rightarrow> unit comp" where
  "epoll_client cfd [] rs = block"
| "epoll_client cfd (line # ls) [] =
     thenc (reply cfd (fill (zeros BUFSIZ) (fgets_buf line @ [NUL]))) block"
| "epoll_client cfd (line # ls) (r # rs) =
     bindc (text_turn cfd (fgets_buf line) r) (\<lambda>go_on.
       if go_on then epoll_client cfd ls rs else emit (Cl cfd))"

definition greeting :: string where
  "greeting = ''hello I am client''"

fun conc_client :: "fd \<Rightarrow> rdres list \<Rightarrow> unit comp" where
  "conc_client cfd [] = thenc (emit (Wr cfd (greeting @ [NUL]))) block"
| "conc_client cfd (r # rs) =
     thenc (emit (Wr cfd (greeting @ [NUL])))
    (bindc (receive serr r (zeros BUFSIZ)) (\<lambda>go_on.
       if go_on then thenc (emit (Call ''sleep'' [1])) (conc_client cfd rs)
       else emit (Cl cfd)))"

text \<open>The three programs: connecting, then the loop.\<close>

definition io_main :: "int \<Rightarrow> int \<Rightarrow> rdres list \<Rightarrow> unit comp" where
  "io_main sock conn rs = bindc (tcp_connect cl_serr sock conn) (\<lambda>cfd. io_client cfd 0 rs)"

definition epoll_client_main :: "int \<Rightarrow> int \<Rightarrow> string option list \<Rightarrow> rdres list \<Rightarrow> unit comp" where
  "epoll_client_main sock conn ls rs = bindc (tcp_connect cl_serr sock conn) (\<lambda>cfd. epoll_client cfd ls rs)"

definition conc_main :: "int \<Rightarrow> int \<Rightarrow> rdres list \<Rightarrow> unit comp" where
  "conc_main sock conn rs = bindc (tcp_connect serr sock conn) (\<lambda>cfd. conc_client cfd rs)"

lemma tcp_connect_ok: "sock \<noteq> -1 \<Longrightarrow> conn \<noteq> -1 \<Longrightarrow> tcp_connect fails sock conn = ([Call ''connect'' [sock, 9527]], Done sock)"
  by (simp add: tcp_connect_def effect_simps)

lemma mains_connected:
  assumes "sock \<noteq> -1" "conn \<noteq> -1"
  shows "io_main sock conn rs = thenc (emit (Call ''connect'' [sock, 9527])) (io_client sock 0 rs)"
    and "epoll_client_main sock conn ls rs = thenc (emit (Call ''connect'' [sock, 9527])) (epoll_client sock ls rs)"
    and "conc_main sock conn rs = thenc (emit (Call ''connect'' [sock, 9527])) (conc_client sock rs)"
  using assms by (simp_all add: io_main_def epoll_client_main_def conc_main_def tcp_connect_ok effect_simps)

lemma mains_not_connected:
  assumes "sock = -1 \<or> conn = -1"
  shows "outcome (io_main sock conn rs) = Exit (-1)"
    and "outcome (epoll_client_main sock conn ls rs) = Exit (-1)"
    and "outcome (conc_main sock conn rs) = Exit (-1)"
  using assms by (auto simp: io_main_def epoll_client_main_def conc_main_def tcp_connect_def
    cl_serr_def serr_def effect_simps)

section \<open>Against the servers\<close>

text \<open>
  One thread of the thread server and one child of the process server, turn by turn, with the state they keep between
  two reads: the buffer, and whether the thread is over.
\<close>

definition thread_serve :: "fd \<Rightarrow> string \<times> bool \<Rightarrow> string \<Rightarrow> (string \<times> bool) comp" where
  "thread_serve fd = (\<lambda>(buf, over) d. if over then block else working (RdData d) fd buf)"

definition process_serve :: "fd \<Rightarrow> string \<Rightarrow> string \<Rightarrow> string comp" where
  "process_serve fd buf d = serve_child (RdData d) fd buf"

text \<open>
  What the reads of a client return that sends the messages one by one, each after the answer to the one before,
  to a server whose turns are \<open>srv\<close>: the server's state is threaded from turn to turn.  Each message and each answer is
  delivered in one piece.  A server that closes the descriptor or exits gives an end of file, one that has not
  answered leaves the client waiting.
\<close>

fun replies :: "('s \<Rightarrow> string \<Rightarrow> 's comp) \<Rightarrow> fd \<Rightarrow> 's \<Rightarrow> string list \<Rightarrow> rdres list" where
  "replies srv fd s [] = []"
| "replies srv fd s (m # ms) =
     (case srv s m of (es, r) \<Rightarrow>
        (if sent_to fd es = [] then [] else [RdData (sent_to fd es)]) @
        (if Cl fd \<in> set es then [RdData []]
         else case r of
           Done t \<Rightarrow> (if sent_to fd es = [] then [] else replies srv fd t ms)
         | Exit _ \<Rightarrow> [RdData []]
         | Undef \<Rightarrow> []
         | Block \<Rightarrow> []))"

text \<open>A server that answers a NUL-terminated text with the text, in every state it can be in between two turns.\<close>

locale answering =
  fixes srv :: "'s \<Rightarrow> string \<Rightarrow> 's comp" and fd :: fd and good :: "'s \<Rightarrow> bool" and cap :: nat and tail :: string
  assumes tail_is: "tail = [] \<or> tail = [NUL]"
    and answers_text: "good s \<Longrightarrow> NUL \<notin> set t \<Longrightarrow> length t < cap \<Longrightarrow>
      \<exists>es u. srv s (t @ [NUL]) = (es, Done u) \<and> good u \<and> sent_to fd es = t @ tail \<and> Cl fd \<notin> set es"
begin

lemma replies_texts:
  assumes "good s" "\<forall>t\<in>set ts. NUL \<notin> set t \<and> length t < cap \<and> t @ tail \<noteq> []"
  shows "replies srv fd s (map (\<lambda>t. t @ [NUL]) ts) = map (\<lambda>t. RdData (t @ tail)) ts"
  using assms
proof (induction ts arbitrary: s)
  case (Cons t ts)
  then obtain es u where u: "srv s (t @ [NUL]) = (es, Done u)" "good u" "sent_to fd es = t @ tail" "Cl fd \<notin> set es"
    using answers_text [of s t] by auto
  with Cons.IH [OF u(2)] Cons.prems(2) show ?case by auto
qed simp

end

lemma NUL_in_msg [simp]: "NUL \<in> set (text @ [NUL])"
  by simp

lemma serve_child_msg:
  assumes "NUL \<notin> set text"
  shows "serve_child (RdData (text @ [NUL])) fd buf =
    ([Out (''receive client data: '' @ text @ '' '' @ NL), Wr fd text], Done (fill buf (text @ [NUL])))"
proof -
  have f: "text_of (fill buf (text @ [NUL])) = text" using assms by (simp add: fill_def text_of_no_NUL)
  have len: "strlen (fill buf (text @ [NUL])) = Some (length text)"
    using f by (simp add: strlen_eq_Some fill_def)
  from take_strlen [OF this] f len show ?thesis
    by (simp add: serve_child_def Let_def cstr_def effect_simps)
qed

interpretation tha: answering "thread_serve fd" fd "\<lambda>s. \<not> snd s" n "[NUL]" for fd n
proof unfold_locales
  fix s :: "string \<times> bool" and t assume "\<not> snd s" "NUL \<notin> set t"
  with working_served [of "t @ [NUL]" "fst s" fd]
  show "\<exists>es u. thread_serve fd s (t @ [NUL]) = (es, Done u) \<and> \<not> snd u \<and> sent_to fd es = t @ [NUL] \<and> Cl fd \<notin> set es"
    by (cases s) (simp add: thread_serve_def fill_def text_of_no_NUL)
qed simp

interpretation pra: answering "process_serve fd" fd "\<lambda>s. True" n "[]" for fd n
  by unfold_locales (simp_all add: process_serve_def serve_child_msg)

text \<open>A turn with the text echoed, with or without its NUL.\<close>

lemma text_turn_echoed:
  assumes "NUL \<notin> set text" "d \<noteq> []" "length text < BUFSIZ" "d = text \<or> d = text @ [NUL]"
  shows "text_turn cfd text (RdData d) =
    ([Wr cfd (text @ [NUL]), Out (''receive server: '' @ text @ NL)], Done True)"
proof -
  have t: "text_of (fill (zeros BUFSIZ) (text @ [NUL])) = text" using assms(1) by (simp add: text_of_no_NUL)
  then have len: "strlen (fill (zeros BUFSIZ) (text @ [NUL])) = Some (length text)"
    by (simp add: strlen_eq_Some fill_def)
  have same: "fill (fill (zeros BUFSIZ) (text @ [NUL])) d = fill (zeros BUFSIZ) (text @ [NUL])"
    using assms(4) by (auto simp: fill_def)
  from take_strlen [OF len] take_Suc_strlen [OF len] t len same assms(2,4) show ?thesis
    by (auto simp: text_turn_def Let_def reply_def receive_def cstr_def effect_simps)
qed

definition io_turn_events :: "fd \<Rightarrow> int \<Rightarrow> event list" where
  "io_turn_events cfd i =
     [Wr cfd (io_text i @ [NUL]), Out (''receive server: '' @ io_text i @ NL), Call ''sleep'' [1]]"

lemma NUL_notin_io_text [simp]: "NUL \<notin> set (io_text i)"
  by (auto simp: io_text_def NUL_def [symmetric]) (simp add: NUL_def)+

lemma map_upt_shift: "map (\<lambda>k. f (num + int k)) [0..<Suc n] = f num # map (\<lambda>k. f (num + 1 + int k)) [0..<n]"
  by (simp add: upt_conv_Cons map_Suc_upt [symmetric] comp_def algebra_simps del: upt_Suc)

lemma io_text_props: "0 \<le> i \<Longrightarrow> i < 2 ^ 31 \<Longrightarrow> io_text i \<noteq> [] \<and> length (io_text i) < BUFSIZ"
proof -
  assume i: "0 \<le> i" "i < 2 ^ 31"
  then have "nat i < 10 ^ Suc 9" by (simp add: nat_less_iff)
  then have "length (show_nat (nat i)) \<le> Suc 9" by (rule length_show_nat)
  with i show ?thesis by (simp add: io_text_def show_int_def BUFSIZ_def)
qed

lemma io_client_echoed:
  assumes "\<And>i. 0 \<le> i \<Longrightarrow> i < 2 ^ 31 \<Longrightarrow> srv i = RdData (io_text i) \<or> srv i = RdData (io_text i @ [NUL])"
    and "0 \<le> num" "num + int n < 2 ^ 31"
  shows "io_client cfd num (map (\<lambda>k. srv (num + int k)) [0..<n]) =
    (concat (map (\<lambda>k. io_turn_events cfd (num + int k)) [0..<n]) @ [Wr cfd (io_text (num + int n) @ [NUL])], Block)"
  using assms(2,3)
proof (induction n arbitrary: num)
  case 0
  then have len: "length (io_text num) < BUFSIZ" using io_text_props by simp
  then have "fits BUFSIZ (io_text num @ [NUL])" by (simp add: fits_def)
  then show ?case by (simp add: effect_simps text_of_no_NUL)
next
  case (Suc n)
  then have num: "num < 2 ^ 31" "0 \<le> num" by simp_all
  obtain d where d: "srv num = RdData d" "d = io_text num \<or> d = io_text num @ [NUL]" using assms(1) [OF num(2,1)] by blast
  have "text_turn cfd (io_text num) (RdData d) =
      ([Wr cfd (io_text num @ [NUL]), Out (''receive server: '' @ io_text num @ NL)], Done True)"
    using text_turn_echoed [of "io_text num" d cfd] io_text_props [OF num(2,1)] d(2) by auto
  with d(1) Suc.IH [of "num + 1"] Suc.prems show ?case
    unfolding map_upt_shift by (simp add: effect_simps io_turn_events_def add.assoc)
qed

text \<open>The numbering client against a server that answers.\<close>

definition numbered :: "nat \<Rightarrow> string list" where
  "numbered n = map (\<lambda>k. io_text (int k) @ [NUL]) [0..<n]"

lemma length_io_text: "0 \<le> i \<Longrightarrow> i < 2 ^ 31 \<Longrightarrow> length (io_text i) < 32"
proof -
  assume i: "0 \<le> i" "i < 2 ^ 31"
  then have "nat i < 10 ^ Suc 9" by (simp add: nat_less_iff)
  then have "length (show_nat (nat i)) \<le> Suc 9" by (rule length_show_nat)
  with i show ?thesis by (simp add: io_text_def show_int_def)
qed

context answering
begin

lemma numbering:
  assumes "good s" "32 \<le> cap" "int n < 2 ^ 31"
  shows "io_client cfd 0 (replies srv fd s (numbered n)) =
    (concat (map (\<lambda>k. io_turn_events cfd (int k)) [0..<n]) @ [Wr cfd (io_text (int n) @ [NUL])], Block)"
proof -
  let ?ts = "map (\<lambda>k. io_text (int k)) [0..<n]"
  have "\<forall>t\<in>set ?ts. NUL \<notin> set t \<and> length t < cap \<and> t @ tail \<noteq> []"
  proof
    fix t assume "t \<in> set ?ts"
    then obtain k where k: "k < n" "t = io_text (int k)" by auto
    with assms(3) have "0 \<le> int k" "int k < 2 ^ 31" by linarith+
    from length_io_text [OF this] io_text_props [OF this] assms(2) k(2)
    show "NUL \<notin> set t \<and> length t < cap \<and> t @ tail \<noteq> []" by simp
  qed
  from replies_texts [OF assms(1) this] have "replies srv fd s (numbered n) = map (\<lambda>k. RdData (io_text (int k) @ tail)) [0..<n]"
    by (simp add: numbered_def comp_def)
  with io_client_echoed [of "\<lambda>i. RdData (io_text i @ tail)" 0 n cfd] tail_is assms(3) show ?thesis by auto
qed

end

end
