(* ===== verification/SelectServer.thy ===== *)
theory SelectServer
  imports Echo
begin

text \<open>
  \<^verbatim>\<open>NetCode/IO/_select/select.c\<close>: the echo server over \<open>select\<close>.  The state is what the program
  keeps between two calls of \<open>select\<close>; the input of a round is what the kernel answers in it:
  the result of \<open>select\<close> and the set it leaves in \<open>temp\<close>, the result of \<open>accept\<close>, and what
  \<open>read\<close> finds on each descriptor.  \<open>Done\<close> is the state in which the loop calls \<open>select\<close> again.
\<close>

type_synonym fd_set = "fd set"

definition FD_SETSIZE :: int where
  "FD_SETSIZE = 1024"

definition FD_SET :: "fd \<Rightarrow> fd_set \<Rightarrow> fd_set comp" where
  "FD_SET fd s = (if 0 \<le> fd \<and> fd < FD_SETSIZE then ret (insert fd s) else undef)"

definition FD_CLR :: "fd \<Rightarrow> fd_set \<Rightarrow> fd_set" where
  "FD_CLR fd s = s - {fd}"

definition FD_ISSET :: "fd \<Rightarrow> fd_set \<Rightarrow> bool" where
  "FD_ISSET fd s \<longleftrightarrow> fd \<in> s"

record select_state =
  lfd :: fd
  readsset :: fd_set
  maxfd :: int

record select_in =
  sel_ret :: int
  sel_temp :: fd_set
  sel_accept :: int
  sel_read :: "fd \<Rightarrow> rdres"

text \<open>The branch for a new connection.\<close>

definition select_accept :: "select_in \<Rightarrow> select_state \<Rightarrow> select_state comp" where
  "select_accept i s =
     (let cfd = sel_accept i in
      thenc (emit (Call ''accept'' [lfd s]))
     (bindc (FD_SET cfd (readsset s))
     (\<lambda>rs. ret (s\<lparr>readsset := rs, maxfd := (if maxfd s > cfd then maxfd s else cfd)\<rparr>))))"

text \<open>The body of the loop over the descriptors, for one descriptor that is ready.\<close>

definition select_client :: "rdres \<Rightarrow> fd \<Rightarrow> fd_set \<Rightarrow> fd_set comp" where
  "select_client r fd rs =
     (case r of
        RdErr \<Rightarrow> thenc (syserr (-1) ''read'') (ret rs)
      | RdData d \<Rightarrow>
          (let buf = fill (zeros BUFSIZ) d in
           if length d = 0 then
             thenc (emit (Out (''client closed...'' @ NL)))
            (thenc (emit (Cl fd))
            (ret (FD_CLR fd rs)))
           else
             bindc (cstr buf) (\<lambda>t.
             thenc (emit (Out (''recv data: '' @ t @ NL)))
            (thenc (reply fd buf)
            (ret rs)))))"

fun select_scan :: "select_in \<Rightarrow> fd list \<Rightarrow> fd_set \<Rightarrow> fd_set comp" where
  "select_scan i [] rs = ret rs"
| "select_scan i (fd # fds) rs =
     bindc (if FD_ISSET fd (sel_temp i) then select_client (sel_read i fd) fd rs else ret rs)
           (\<lambda>rs'. select_scan i fds rs')"

definition select_round :: "select_in \<Rightarrow> select_state \<Rightarrow> select_state comp" where
  "select_round i s =
     thenc (syserr (sel_ret i) ''select'')
    (if sel_ret i = 0 then ret s
     else if sel_ret i > 0 then
       bindc (if FD_ISSET (lfd s) (sel_temp i) then select_accept i s else ret s) (\<lambda>s1.
       bindc (select_scan i [lfd s1 + 1..maxfd s1] (readsset s1)) (\<lambda>rs.
       ret (s1\<lparr>readsset := rs\<rparr>)))
     else ret s)"

definition select_main :: "int \<Rightarrow> int \<Rightarrow> int \<Rightarrow> select_in list \<Rightarrow> select_state comp" where
  "select_main sock bnd lst is =
     bindc (tcp_listen sock bnd lst) (\<lambda>l.
     bindc (FD_SET l {}) (\<lambda>rs.
     rounds select_round \<lparr>lfd = l, readsset = rs, maxfd = l\<rparr> is))"

section \<open>The invariant and the contract of a round\<close>

definition select_clients :: "select_state \<Rightarrow> fd set" where
  "select_clients s = readsset s - {lfd s}"

definition select_inv :: "select_state \<Rightarrow> bool" where
  "select_inv s \<longleftrightarrow> 0 \<le> lfd s \<and> lfd s \<in> readsset s \<and> maxfd s < FD_SETSIZE \<and>
     (\<forall>fd\<in>readsset s. lfd s \<le> fd \<and> fd \<le> maxfd s)"

text \<open>
  What \<open>select\<close> and \<open>accept\<close> document: the returned set is part of the given one, a new
  descriptor is not one in use; and that it is above the listening one (the descriptors below it
  are in use) and within the capacity of an \<open>fd_set\<close>.
\<close>

definition select_ok :: "select_in \<Rightarrow> select_state \<Rightarrow> bool" where
  "select_ok i s \<longleftrightarrow>
     sel_ret i \<ge> 0 \<and> sel_temp i \<subseteq> readsset s \<and> (sel_ret i = 0 \<longrightarrow> sel_temp i = {}) \<and>
     (lfd s \<in> sel_temp i \<longrightarrow>
        lfd s < sel_accept i \<and> sel_accept i < FD_SETSIZE \<and> sel_accept i \<notin> readsset s) \<and>
     (\<forall>fd\<in>sel_temp i. fd \<noteq> lfd s \<longrightarrow> (\<exists>d. sel_read i fd = RdData d \<and> fits BUFSIZ d))"

definition select_joined :: "select_in \<Rightarrow> select_state \<Rightarrow> fd set" where
  "select_joined i s = (if lfd s \<in> sel_temp i then {sel_accept i} else {})"

definition select_served :: "select_in \<Rightarrow> select_state \<Rightarrow> (fd \<times> string) list" where
  "select_served i s =
     map (\<lambda>fd. (fd, data_of (sel_read i fd)))
         (filter (\<lambda>fd. fd \<in> sel_temp i) [lfd s + 1..maxfd s])"

lemma select_client_RdData:
  "fits BUFSIZ d \<Longrightarrow>
     \<exists>es. select_client (RdData d) fd rs = (es, Done (rs - leaving [(fd, d)])) \<and>
          io es = answer (fd, d)"
  by (cases "d = []") (auto simp: select_client_def Let_def effect_simps FD_CLR_def answer_def)

lemma select_scan_spec:
  assumes "\<forall>fd\<in>set fds. fd \<in> sel_temp i \<longrightarrow> (\<exists>d. sel_read i fd = RdData d \<and> fits BUFSIZ d)"
    and "sv = map (\<lambda>fd. (fd, data_of (sel_read i fd))) (filter (\<lambda>fd. fd \<in> sel_temp i) fds)"
  shows "\<exists>es. select_scan i fds rs = (es, Done (rs - leaving sv)) \<and> io es = answers sv"
  using assms
proof (induction fds arbitrary: rs sv)
  case Nil
  then show ?case by (simp add: effect_simps)
next
  case (Cons fd fds)
  define sv' where "sv' = map (\<lambda>fd. (fd, data_of (sel_read i fd))) (filter (\<lambda>fd. fd \<in> sel_temp i) fds)"
  show ?case
  proof (cases "fd \<in> sel_temp i")
    case True
    with Cons.prems obtain d where d: "sel_read i fd = RdData d" "fits BUFSIZ d" by auto
    then have sv: "sv = (fd, d) # sv'" using Cons.prems True by (simp add: sv'_def data_of_def)
    from select_client_RdData [OF d(2)] obtain es where
      es: "select_client (RdData d) fd rs = (es, Done (rs - leaving [(fd, d)]))" "io es = answer (fd, d)"
      by blast
    from Cons.IH [of sv' "rs - leaving [(fd, d)]"] Cons.prems(1) sv'_def obtain es' where
      es': "select_scan i fds (rs - leaving [(fd, d)]) = (es', Done (rs - leaving [(fd, d)] - leaving sv'))"
        "io es' = answers sv'" by auto
    have "rs - leaving [(fd, d)] - leaving sv' = rs - leaving sv" by (auto simp: sv)
    with es es' d True show ?thesis
      by (simp add: FD_ISSET_def bindc_Done sv answer_def)
  next
    case False
    with Cons.prems have "sv = sv'" by (simp add: sv'_def)
    with Cons.IH [of sv' rs] Cons.prems(1) False sv'_def show ?thesis by (simp add: FD_ISSET_def)
  qed
qed

text \<open>Scanning up to the new \<open>maxfd\<close> serves nobody the old bound did not.\<close>

lemma filter_upto_extend:
  assumes "m \<le> (n::int)" "\<forall>x. P x \<longrightarrow> x \<le> m"
  shows "filter P [a..n] = filter P [a..m]"
proof (cases "a \<le> m + 1")
  case True
  with assms(1) have "[a..n] = [a..m] @ [m + 1..n]"
    using upto_split1 [of a "m + 1" n] by (cases "n = m") (simp_all add: algebra_simps)
  moreover have "filter P [m + 1..n] = []"
    using assms(2) by (auto simp: filter_empty_conv)
  ultimately show ?thesis by simp
next
  case False
  with assms(2) have "filter P [a..n] = []" by (auto simp: filter_empty_conv)
  with False show ?thesis by simp
qed

lemma select_accept_spec:
  assumes "select_inv s" "select_ok i s" "lfd s \<in> sel_temp i"
  defines "s1 \<equiv> s\<lparr>readsset := insert (sel_accept i) (readsset s),
                  maxfd := (if maxfd s > sel_accept i then maxfd s else sel_accept i)\<rparr>"
  shows "select_accept i s = ([Call ''accept'' [lfd s]], Done s1)" and "select_inv s1"
  using assms
  by (auto simp: select_accept_def FD_SET_def select_inv_def select_ok_def Let_def effect_simps)

lemma select_round_spec:
  assumes inv: "select_inv s" and ok: "select_ok i s"
  shows "\<exists>es t. select_round i s = (es, Done t) \<and> select_inv t \<and>
           io es = answers (select_served i s) \<and>
           select_clients t = (select_clients s \<union> select_joined i s) - leaving (select_served i s)"
proof (cases "sel_ret i = 0")
  case True
  with ok have "sel_temp i = {}" by (simp add: select_ok_def)
  with True inv show ?thesis
    by (simp add: select_round_def select_served_def select_joined_def effect_simps)
next
  case False
  with ok have pos: "sel_ret i > 0" by (auto simp: select_ok_def)
  define s1 where "s1 = (if lfd s \<in> sel_temp i
    then s\<lparr>readsset := insert (sel_accept i) (readsset s),
           maxfd := (if maxfd s > sel_accept i then maxfd s else sel_accept i)\<rparr> else s)"
  obtain es1 where es1:
    "(if FD_ISSET (lfd s) (sel_temp i) then select_accept i s else ret s) = (es1, Done s1)" "io es1 = []"
    using select_accept_spec(1) [OF inv ok]
    by (cases "lfd s \<in> sel_temp i") (simp_all add: FD_ISSET_def s1_def effect_simps)
  have inv1: "select_inv s1"
    using select_accept_spec(2) [OF inv ok] inv by (auto simp: s1_def)
  have s1: "lfd s1 = lfd s" "maxfd s \<le> maxfd s1" "readsset s1 = readsset s \<union> select_joined i s"
    by (auto simp: s1_def select_joined_def)
  have sub: "\<forall>fd. fd \<in> sel_temp i \<longrightarrow> fd \<le> maxfd s"
    using ok inv by (auto simp: select_ok_def select_inv_def)
  have sv: "select_served i s =
      map (\<lambda>fd. (fd, data_of (sel_read i fd))) (filter (\<lambda>fd. fd \<in> sel_temp i) [lfd s1 + 1..maxfd s1])"
    unfolding select_served_def s1(1) by (subst filter_upto_extend [OF s1(2) sub]) simp
  have "\<forall>fd\<in>set [lfd s1 + 1..maxfd s1]. fd \<in> sel_temp i \<longrightarrow>
          (\<exists>d. sel_read i fd = RdData d \<and> fits BUFSIZ d)"
    using ok by (auto simp: select_ok_def s1(1))
  from select_scan_spec [OF this sv] obtain es2 where es2:
    "select_scan i [lfd s1 + 1..maxfd s1] (readsset s1) =
       (es2, Done (readsset s1 - leaving (select_served i s)))" "io es2 = answers (select_served i s)"
    by blast
  have "lfd s \<notin> leaving (select_served i s)"
    by (auto simp: select_served_def leaving_def)
  moreover have "lfd s \<notin> select_joined i s"
    using ok by (auto simp: select_joined_def select_ok_def)
  ultimately show ?thesis
    using pos es1 es2 inv1 s1
    by (auto simp: select_round_def bindc_Done prim_effects select_clients_def select_inv_def)
qed

interpretation sel: echo_mux select_round select_clients select_inv select_ok select_joined select_served
  by unfold_locales (use select_round_spec in fastforce)+

section \<open>Properties\<close>

text \<open>The state in which the loop starts.\<close>

definition select_start :: "fd \<Rightarrow> select_state" where
  "select_start l = \<lparr>lfd = l, readsset = {l}, maxfd = l\<rparr>"

lemma select_start_inv: "0 \<le> l \<Longrightarrow> l < FD_SETSIZE \<Longrightarrow> select_inv (select_start l)"
  by (simp add: select_inv_def select_start_def)

lemma select_main_start:
  assumes "0 \<le> l" "l < FD_SETSIZE" "bnd \<noteq> -1" "lst \<noteq> -1"
  shows "select_main l bnd lst is =
    bindc ([Call ''bind'' [l, 9527], Call ''listen'' [l, 128]], Done ())
          (\<lambda>_. rounds select_round (select_start l) is)"
proof -
  from assms have "tcp_listen l bnd lst = ([Call ''bind'' [l, 9527], Call ''listen'' [l, 128]], Done l)"
    by (simp add: tcp_listen_Done)
  with assms show ?thesis
    by (simp add: select_main_def FD_SET_def select_start_def effect_simps)
qed

lemma select_round_lfd: "select_round i s = (es, Done t) \<Longrightarrow> lfd t = lfd s"
  by (auto simp: select_round_def select_accept_def FD_SET_def Let_def bindc_eq_Done prim_effects split: if_splits)

lemma rounds_lfd: "rounds select_round s is = (es, Done t) \<Longrightarrow> lfd t = lfd s"
  using rounds_keep [of select_round lfd] select_round_lfd by blast

text \<open>The first ready client decides: when its \<open>read\<close> fails, the program is over.\<close>

lemma select_scan_skip: "\<forall>fd\<in>set xs. fd \<notin> sel_temp i \<Longrightarrow> select_scan i (xs @ ys) rs = select_scan i ys rs"
  by (induction xs) (simp_all add: FD_ISSET_def)

lemma select_read_fails:
  assumes "select_inv s" "sel_ret i > 0" "fd \<in> select_clients s" "fd \<in> sel_temp i" "\<forall>g\<in>sel_temp i. fd \<le> g"
    and "sel_read i fd = RdErr"
  shows "outcome (select_round i s) = Exit (-1)"
proof -
  have fd: "lfd s < fd" "fd \<le> maxfd s" "lfd s \<notin> sel_temp i"
    using assms by (fastforce simp: select_inv_def select_clients_def)+
  then have "[lfd s + 1..maxfd s] = [lfd s + 1..fd - 1] @ fd # [fd + 1..maxfd s]"
    by (intro upto_split3) simp_all
  moreover have "\<forall>g\<in>set [lfd s + 1..fd - 1]. g \<notin> sel_temp i" using assms(5) by fastforce
  ultimately have "select_scan i [lfd s + 1..maxfd s] (readsset s) = select_scan i (fd # [fd + 1..maxfd s]) (readsset s)"
    by (simp only: select_scan_skip)
  then show ?thesis
    using assms(2,4,6) fd(3) by (simp add: select_round_def select_client_def FD_ISSET_def effect_simps)
qed

text \<open>
  Claim C1. The select server, started on descriptor \<open>l\<close>, over any number of rounds in which \<open>select\<close>, \<open>accept\<close> and
  \<open>read\<close> succeed as documented and every message fits the buffer (\<open>select_ok\<close>): the process goes on; the set it
  hands to \<open>select\<close> is the listening descriptor and exactly the clients that have joined and have not been read as
  gone; and every client has been sent exactly the texts it sent, in order, each with its NUL.  When after
  such rounds \<open>select\<close> itself fails, or the \<open>read\<close> of the first ready client does, the process exits with -1, and
  when \<open>accept\<close> fails, the behaviour is undefined.
\<close>

theorem select_main_echo:
  assumes "0 \<le> l" "l < FD_SETSIZE" "bnd \<noteq> -1" "lst \<noteq> -1"
    and "all_ok select_round select_ok (select_start l) is"
  shows "\<exists>es t. select_main l bnd lst is = (es, Done t) \<and>
    readsset t = insert l (members select_round select_joined select_served {} (select_start l) is) \<and>
    (\<forall>fd. sent_to fd es = echo_of fd (all_served select_round select_served (select_start l) is)) \<and>
    (sel_ret i = -1 \<longrightarrow> outcome (select_main l bnd lst (is @ [i])) = Exit (-1)) \<and>
    (sel_ret i > 0 \<longrightarrow> fd \<in> members select_round select_joined select_served {} (select_start l) is \<longrightarrow>
       fd \<in> sel_temp i \<longrightarrow> (\<forall>g\<in>sel_temp i. fd \<le> g) \<longrightarrow> sel_read i fd = RdErr \<longrightarrow>
       outcome (select_main l bnd lst (is @ [i])) = Exit (-1)) \<and>
    (sel_ret i > 0 \<longrightarrow> l \<in> sel_temp i \<longrightarrow> sel_accept i = -1 \<longrightarrow> outcome (select_main l bnd lst (is @ [i])) = Undef)"
proof -
  note inv = select_start_inv [OF assms(1,2)]
  from sel.rounds_total [OF inv assms(5)] obtain es t where
    r: "rounds select_round (select_start l) is = (es, Done t)" "select_inv t" by blast
  have l: "lfd t = l" using rounds_lfd [OF r(1)] by (simp add: select_start_def)
  have cl: "select_clients t = members select_round select_joined select_served {} (select_start l) is"
    using sel.rounds_clients [OF inv assms(5) r(1)] by (simp add: select_clients_def select_start_def)
  then have set: "readsset t = insert l (members select_round select_joined select_served {} (select_start l) is)"
    using r(2) l by (auto simp: select_clients_def select_inv_def)
  have "outcome (select_round i t) = Exit (-1)" if "sel_ret i = -1"
    using that by (simp add: select_round_def effect_simps)
  moreover have "outcome (select_round i t) = Undef" if "sel_ret i > 0" "l \<in> sel_temp i" "sel_accept i = -1"
    using that l by (simp add: select_round_def select_accept_def FD_SET_def FD_ISSET_def effect_simps)
  moreover note select_read_fails [OF r(2), of i fd]
  ultimately show ?thesis
    using r set cl sel.rounds_echo [OF inv assms(5)]
    by (simp add: select_main_start [OF assms(1-4)] rounds_snoc effect_simps)
qed

text \<open>A run for the witness: client 4 connects, says hi, and closes.\<close>

definition select_demo :: "select_in list" where
  "select_demo =
     [\<lparr>sel_ret = 1, sel_temp = {3}, sel_accept = 4, sel_read = (\<lambda>_. RdErr)\<rparr>,
      \<lparr>sel_ret = 1, sel_temp = {4}, sel_accept = -1, sel_read = (\<lambda>_. RdData ''hi'')\<rparr>,
      \<lparr>sel_ret = 1, sel_temp = {4}, sel_accept = -1, sel_read = (\<lambda>_. RdData [])\<rparr>]"

lemmas select_eval =
  select_round_def select_accept_def select_client_def FD_SET_def FD_CLR_def FD_ISSET_def FD_SETSIZE_def
  select_ok_def select_served_def data_of_def select_start_def fits_def BUFSIZ_def Let_def effect_simps

lemma select_demo_ok: "all_ok select_round select_ok (select_start 3) select_demo"
  by (simp add: select_demo_def select_eval)

theorem select_main_echo_witness:
  "\<exists>es t. select_main 3 0 0 select_demo = (es, Done t) \<and> sent_to 4 es = ''hi'' @ [NUL] \<and> readsset t = {3}"
proof -
  have "members select_round select_joined select_served {} (select_start 3) select_demo = {}"
    by (simp add: select_demo_def select_eval select_joined_def Let_def)
  note mem = this
  have "echo_of 4 (all_served select_round select_served (select_start 3) select_demo) = ''hi'' @ [NUL]"
    by (simp add: select_demo_def select_eval echo_of_def text_of_def NUL_def)
  with mem select_main_echo [OF _ _ _ _ select_demo_ok, of 0 0] show ?thesis
    by (fastforce simp: FD_SETSIZE_def)
qed

text \<open>
  A connected client is never dropped: as long as it has not closed its end (an empty
  read), it is in the set the server passes to \<open>select\<close> in every later state.
\<close>

theorem select_client_stays:
  assumes "select_inv s" "all_ok select_round select_ok s is"
    and "fd \<in> select_clients s" "fd \<notin> leaving (all_served select_round select_served s is)"
    and "rounds select_round s is = (es, Done t)"
  shows "fd \<in> select_clients t"
  using assms by (rule sel.client_stays)

definition select_demo_state :: select_state where
  "select_demo_state = \<lparr>lfd = 3, readsset = {3, 5}, maxfd = 5\<rparr>"

theorem select_client_stays_witness:
  "\<exists>es t. rounds select_round select_demo_state select_demo = (es, Done t) \<and> 5 \<in> select_clients t"
proof -
  have inv: "select_inv select_demo_state"
    by (simp add: select_demo_state_def select_inv_def FD_SETSIZE_def)
  have ok: "all_ok select_round select_ok select_demo_state select_demo"
    by (simp add: select_demo_def select_demo_state_def select_eval)
  have sv: "5 \<notin> leaving (all_served select_round select_served select_demo_state select_demo)"
    by (simp add: select_demo_def select_demo_state_def select_eval)
  from sel.rounds_total [OF inv ok] obtain es t where
    "rounds select_round select_demo_state select_demo = (es, Done t)" by blast
  with select_client_stays [OF inv ok _ sv this] show ?thesis
    by (simp add: select_clients_def select_demo_state_def)
qed

text \<open>
  What the server does not check.  When \<open>accept\<close> fails, its -1 goes into \<open>FD_SET\<close>,
  which is undefined; when one client's \<open>read\<close> fails, the whole server exits; and a message that
  fills the buffer without a NUL makes \<open>printf\<close> and \<open>strlen\<close> read past its end.
\<close>

theorem select_unchecked:
  assumes "sel_ret i > 0" "lfd s \<in> sel_temp i" "sel_accept i = -1"
    and "length d = BUFSIZ" "NUL \<notin> set d"
  shows "outcome (select_round i s) = Undef \<and>
    outcome (select_client RdErr fd rs) = Exit (-1) \<and>
    outcome (select_client (RdData d) fd rs) = Undef"
proof (intro conjI)
  show "outcome (select_round i s) = Undef"
    using assms(1-3)
    by (simp add: select_round_def select_accept_def FD_SET_def FD_ISSET_def effect_simps)
  show "outcome (select_client RdErr fd rs) = Exit (-1)"
    by (simp add: select_client_def effect_simps)
  show "outcome (select_client (RdData d) fd rs) = Undef"
    using assms(4,5)
    by (simp add: select_client_def Let_def cstr_overrun fits_def BUFSIZ_def effect_simps)
qed

theorem select_unchecked_witness:
  "outcome (select_round \<lparr>sel_ret = 1, sel_temp = {3}, sel_accept = -1, sel_read = (\<lambda>_. RdErr)\<rparr>
              (select_start 3)) = Undef \<and>
   outcome (select_client RdErr 4 {3, 4}) = Exit (-1) \<and>
   outcome (select_client (RdData (replicate BUFSIZ CHR ''a'')) 4 {3, 4}) = Undef"
  by (rule select_unchecked) (simp_all add: select_start_def NUL_def)

end
