(* ===== verification/EpollServer.thy ===== *)
theory EpollServer
  imports Echo
begin

text \<open>
  \<^verbatim>\<open>NetCode/IO/_epoll/epoll_LT.c\<close>: the level-triggered epoll echo server, one \<open>read\<close> of at most
  5 bytes per ready event.  The epoll instance is the set of registered descriptors; closing a descriptor takes it out of
  the set (as documented for a descriptor without duplicates), and a \<open>EPOLL_CTL_DEL\<close> of a
  descriptor that is not registered fails without effect, its result being ignored.
\<close>

section \<open>The level-triggered server\<close>

record lt_state =
  lt_lfd :: fd
  lt_epfd :: fd
  interest :: "fd set"

text \<open>One element of \<open>epevs\<close>, with the result of the call its handling makes.\<close>

record epoll_in =
  ep_fd :: fd
  ep_accept :: int
  ep_read :: rdres

definition close_fd :: "fd \<Rightarrow> fd set \<Rightarrow> fd set comp" where
  "close_fd fd s = thenc (emit (Cl fd)) (ret (s - {fd}))"

definition epoll_add :: "fd \<Rightarrow> fd \<Rightarrow> fd set \<Rightarrow> fd set comp" where
  "epoll_add epfd fd s = thenc (emit (Call ''epoll_ctl_add'' [epfd, fd])) (ret (insert fd s))"

definition epoll_del :: "fd \<Rightarrow> fd \<Rightarrow> fd set \<Rightarrow> fd set comp" where
  "epoll_del epfd fd s = thenc (emit (Call ''epoll_ctl_del'' [epfd, fd])) (ret (s - {fd}))"

definition lt_event :: "epoll_in \<Rightarrow> lt_state \<Rightarrow> lt_state comp" where
  "lt_event e s =
     (let curfd = ep_fd e in
      if lt_lfd s = ep_fd e then
        thenc (emit (Call ''accept'' [lt_lfd s]))
       (thenc (syserr (ep_accept e) ''accept'')
       (bindc (epoll_add (lt_epfd s) (ep_accept e) (interest s)) (\<lambda>is.
        ret (s\<lparr>interest := is\<rparr>))))
      else
        (case ep_read e of
           RdErr \<Rightarrow> thenc (syserr (-1) ''read'') (ret s)
         | RdData d \<Rightarrow>
             (let buf = fill (zeros 5) d in
              if length d = 0 then
                thenc (emit (Out (''clident closed..'' @ NL)))
               (bindc (close_fd curfd (interest s)) (\<lambda>is.
                bindc (epoll_del (lt_epfd s) curfd is) (\<lambda>is'.
                ret (s\<lparr>interest := is'\<rparr>))))
              else
                bindc (cstr buf) (\<lambda>t.
                thenc (emit (Out (''read buf = '' @ t @ '' '' @ NL)))
               (thenc (reply curfd buf)
               (ret s))))))"

fun lt_events :: "epoll_in list \<Rightarrow> lt_state \<Rightarrow> lt_state comp" where
  "lt_events [] s = ret s"
| "lt_events (e # es) s = bindc (lt_event e s) (\<lambda>t. lt_events es t)"

text \<open>A round: \<open>None\<close> is a failing \<open>epoll_wait\<close>, \<open>Some es\<close> the elements it stored.\<close>

definition lt_round :: "epoll_in list option \<Rightarrow> lt_state \<Rightarrow> lt_state comp" where
  "lt_round r s =
     (case r of
        None \<Rightarrow> thenc (syserr (-1) ''epoll_wait'') (ret s)
      | Some es \<Rightarrow>
          thenc (emit (Out (''ret= '' @ show_int (int (length es)) @ '' '' @ NL))) (lt_events es s))"

definition lt_main :: "int \<Rightarrow> int \<Rightarrow> int \<Rightarrow> fd \<Rightarrow> epoll_in list option list \<Rightarrow> lt_state comp" where
  "lt_main sock bnd lst epfd rs =
     bindc (tcp_listen sock bnd lst) (\<lambda>l.
     bindc (epoll_add epfd l {}) (\<lambda>is.
     rounds lt_round \<lparr>lt_lfd = l, lt_epfd = epfd, interest = is\<rparr> rs))"

definition lt_clients :: "lt_state \<Rightarrow> fd set" where
  "lt_clients s = interest s - {lt_lfd s}"

definition lt_inv :: "lt_state \<Rightarrow> bool" where
  "lt_inv s \<longleftrightarrow> lt_lfd s \<in> interest s"

text \<open>
  The contract of a round: \<open>epoll_wait\<close> returns registered descriptors, each once, and a new
  connection gets a descriptor that is not in use; the clients' messages fit the 5-byte buffer
  (fewer than 5 bytes, or a NUL among the 5).
\<close>

definition ev_ok :: "fd \<Rightarrow> fd set \<Rightarrow> epoll_in \<Rightarrow> bool" where
  "ev_ok l fds e \<longleftrightarrow>
     (if ep_fd e = l then ep_accept e \<noteq> -1 \<and> ep_accept e \<notin> fds
      else (\<exists>d. ep_read e = RdData d \<and> fits 5 d))"

definition lt_ok :: "epoll_in list option \<Rightarrow> lt_state \<Rightarrow> bool" where
  "lt_ok r s = (case r of None \<Rightarrow> False
     | Some es \<Rightarrow> distinct (map ep_fd es) \<and> set (map ep_fd es) \<subseteq> interest s \<and>
         (\<forall>e\<in>set es. ev_ok (lt_lfd s) (interest s) e))"

lemma ev_ok_mono: "ev_ok l A e \<Longrightarrow> B \<subseteq> A \<Longrightarrow> ev_ok l B e"
  by (auto simp: ev_ok_def)

definition ep_data :: "epoll_in \<Rightarrow> string" where
  "ep_data e = (case ep_read e of RdErr \<Rightarrow> [] | RdData d \<Rightarrow> d)"

definition ep_joined :: "fd \<Rightarrow> epoll_in list \<Rightarrow> fd set" where
  "ep_joined l es = {ep_accept e |e. e \<in> set es \<and> ep_fd e = l}"

definition ep_served :: "fd \<Rightarrow> epoll_in list \<Rightarrow> (fd \<times> string) list" where
  "ep_served l es = map (\<lambda>e. (ep_fd e, ep_data e)) (filter (\<lambda>e. ep_fd e \<noteq> l) es)"

definition lt_joined :: "epoll_in list option \<Rightarrow> lt_state \<Rightarrow> fd set" where
  "lt_joined r s = (case r of None \<Rightarrow> {} | Some es \<Rightarrow> ep_joined (lt_lfd s) es)"

definition lt_served :: "epoll_in list option \<Rightarrow> lt_state \<Rightarrow> (fd \<times> string) list" where
  "lt_served r s = (case r of None \<Rightarrow> [] | Some es \<Rightarrow> ep_served (lt_lfd s) es)"

lemma ep_joined_simps [simp]:
  "ep_joined l [] = {}"
  "ep_joined l (e # es) = (if ep_fd e = l then insert (ep_accept e) (ep_joined l es) else ep_joined l es)"
  by (auto simp: ep_joined_def)

lemma ep_served_simps [simp]:
  "ep_served l [] = []"
  "ep_served l (e # es) = (if ep_fd e = l then ep_served l es else (ep_fd e, ep_data e) # ep_served l es)"
  by (auto simp: ep_served_def)

lemma lt_event_accept:
  "ep_fd e = lt_lfd s \<Longrightarrow> ep_accept e \<noteq> -1 \<Longrightarrow>
     \<exists>es. lt_event e s = (es, Done (s\<lparr>interest := insert (ep_accept e) (interest s)\<rparr>)) \<and> io es = []"
  by (simp add: lt_event_def Let_def epoll_add_def effect_simps)

lemma lt_event_client:
  "ep_fd e \<noteq> lt_lfd s \<Longrightarrow> ep_read e = RdData d \<Longrightarrow> fits 5 d \<Longrightarrow>
     \<exists>es. lt_event e s = (es, Done (s\<lparr>interest := interest s - leaving [(ep_fd e, d)]\<rparr>)) \<and>
          io es = answer (ep_fd e, d)"
  by (cases "d = []")
     (auto simp: lt_event_def Let_def close_fd_def epoll_del_def answer_def effect_simps)

text \<open>
  Handling the elements one after the other: the descriptors accepted on the way are new, so they
  are none of those that leave.
\<close>

lemma lt_events_spec:
  assumes "\<forall>e\<in>set es. ev_ok (lt_lfd s) (ep_fd ` set es) e"
    and "distinct (map ep_fd es)"
  shows "\<exists>tr. lt_events es s =
      (tr, Done (s\<lparr>interest := (interest s \<union> ep_joined (lt_lfd s) es) - leaving (ep_served (lt_lfd s) es)\<rparr>))
    \<and> io tr = answers (ep_served (lt_lfd s) es)"
  using assms
proof (induction es arbitrary: s)
  case Nil
  then show ?case by (simp add: effect_simps)
next
  case (Cons e es)
  let ?l = "lt_lfd s"
  have rest: "\<forall>x\<in>set es. ev_ok ?l (ep_fd ` set es) x"
    using Cons.prems(1) ev_ok_mono [of ?l "ep_fd ` set (e # es)" _ "ep_fd ` set es"] by auto
  have dist: "distinct (map ep_fd es)" and e: "ev_ok ?l (ep_fd ` set (e # es)) e"
    using Cons.prems by simp_all
  have no_leave: "leaving (ep_served ?l es) \<subseteq> ep_fd ` set es"
    by (auto simp: leaving_def ep_served_def)
  have IH: "\<exists>tr. lt_events es u =
      (tr, Done (u\<lparr>interest := (interest u \<union> ep_joined ?l es) - leaving (ep_served ?l es)\<rparr>)) \<and>
      io tr = answers (ep_served ?l es)" if "lt_lfd u = ?l" for u
    using Cons.IH [of u] rest dist that by simp
  show ?case
  proof (cases "ep_fd e = ?l")
    case True
    define u where "u = s\<lparr>interest := insert (ep_accept e) (interest s)\<rparr>"
    from e True lt_event_accept [OF True] obtain tr1 where
      tr1: "lt_event e s = (tr1, Done u)" "io tr1 = []"
      unfolding u_def by (auto simp: ev_ok_def)
    from IH [of u] obtain tr2 where tr2: "lt_events es u =
         (tr2, Done (u\<lparr>interest := (interest u \<union> ep_joined ?l es) - leaving (ep_served ?l es)\<rparr>))"
      "io tr2 = answers (ep_served ?l es)"
      by (auto simp: u_def)
    from tr1 tr2 True show ?thesis by (simp add: bindc_Done u_def)
  next
    case False
    with e obtain d where d: "ep_read e = RdData d" "fits 5 d" by (auto simp: ev_ok_def)
    define u where "u = s\<lparr>interest := interest s - leaving [(ep_fd e, d)]\<rparr>"
    from lt_event_client [OF False d] obtain tr1 where
      tr1: "lt_event e s = (tr1, Done u)" "io tr1 = answer (ep_fd e, d)"
      unfolding u_def by auto
    from IH [of u] obtain tr2 where tr2: "lt_events es u =
         (tr2, Done (u\<lparr>interest := (interest u \<union> ep_joined ?l es) - leaving (ep_served ?l es)\<rparr>))"
      "io tr2 = answers (ep_served ?l es)"
      by (auto simp: u_def)
    have "ep_fd e \<notin> ep_joined ?l es"
      using Cons.prems(1) by (auto simp: ep_joined_def ev_ok_def)
    then have "(interest u \<union> ep_joined ?l es) - leaving (ep_served ?l es) =
        (interest s \<union> ep_joined ?l (e # es)) - leaving (ep_served ?l (e # es))"
      using False d by (auto simp: u_def ep_data_def)
    with tr1 tr2 False d show ?thesis
      by (simp add: bindc_Done u_def ep_data_def answer_def)
  qed
qed

lemma lt_round_spec:
  assumes "lt_inv s" "lt_ok r s"
  shows "\<exists>es t. lt_round r s = (es, Done t) \<and> lt_inv t \<and> io es = answers (lt_served r s) \<and>
           lt_clients t = (lt_clients s \<union> lt_joined r s) - leaving (lt_served r s)"
proof -
  from assms(2) obtain es where r: "r = Some es" "distinct (map ep_fd es)"
    "set (map ep_fd es) \<subseteq> interest s" "\<forall>e\<in>set es. ev_ok (lt_lfd s) (interest s) e"
    by (auto simp: lt_ok_def split: option.splits)
  then have "\<forall>e\<in>set es. ev_ok (lt_lfd s) (ep_fd ` set es) e"
    using ev_ok_mono by fastforce
  from lt_events_spec [OF this r(2)] obtain tr where tr: "lt_events es s =
      (tr, Done (s\<lparr>interest := (interest s \<union> ep_joined (lt_lfd s) es) - leaving (ep_served (lt_lfd s) es)\<rparr>))"
    "io tr = answers (ep_served (lt_lfd s) es)" by blast
  have "lt_lfd s \<notin> leaving (ep_served (lt_lfd s) es)"
    by (auto simp: leaving_def ep_served_def)
  moreover have "lt_lfd s \<notin> ep_joined (lt_lfd s) es"
    using r(4) assms(1) by (auto simp: ep_joined_def ev_ok_def lt_inv_def)
  ultimately show ?thesis
    using tr r(1) assms(1)
    by (auto simp: lt_round_def bindc_Done prim_effects lt_inv_def lt_clients_def lt_served_def
        lt_joined_def)
qed

interpretation lt: echo_mux lt_round lt_clients lt_inv lt_ok lt_joined lt_served
  by unfold_locales (use lt_round_spec in fastforce)+

section \<open>Properties\<close>

definition lt_start :: "fd \<Rightarrow> fd \<Rightarrow> lt_state" where
  "lt_start l ep = \<lparr>lt_lfd = l, lt_epfd = ep, interest = {l}\<rparr>"

lemma lt_start_inv: "lt_inv (lt_start l ep)"
  by (simp add: lt_inv_def lt_start_def)

lemma lt_main_start:
  assumes "sock \<noteq> -1" "bnd \<noteq> -1" "lst \<noteq> -1"
  shows "lt_main sock bnd lst ep rs =
      bindc ([Call ''bind'' [sock, 9527], Call ''listen'' [sock, 128], Call ''epoll_ctl_add'' [ep, sock]], Done ())
        (\<lambda>_. rounds lt_round (lt_start sock ep) rs)"
proof -
  have "tcp_listen sock bnd lst = ([Call ''bind'' [sock, 9527], Call ''listen'' [sock, 128]], Done sock)"
    using assms by (simp add: tcp_listen_Done)
  then show ?thesis by (simp add: lt_main_def epoll_add_def lt_start_def effect_simps)
qed

text \<open>No round changes the listening descriptor.\<close>

lemma lt_event_lfd: "lt_event e s = (es, Done t) \<Longrightarrow> lt_lfd t = lt_lfd s \<and> lt_epfd t = lt_epfd s"
  by (auto simp: lt_event_def Let_def bindc_eq_Done prim_effects split: if_splits rdres.splits)

lemma lt_events_lfd: "lt_events xs s = (es, Done t) \<Longrightarrow> lt_lfd t = lt_lfd s"
proof (induction xs arbitrary: s es)
  case (Cons e xs)
  from Cons.prems obtain es1 u es2 where "lt_event e s = (es1, Done u)" "lt_events xs u = (es2, Done t)"
    by (auto elim: bindc_DoneE)
  with Cons.IH lt_event_lfd show ?case by metis
qed (simp add: prim_effects)

lemma lt_round_lfd: "lt_round r s = (es, Done t) \<Longrightarrow> lt_lfd t = lt_lfd s"
  by (auto simp: lt_round_def bindc_eq_Done prim_effects dest: lt_events_lfd split: option.splits)

lemma rounds_lt_lfd: "rounds lt_round s rs = (es, Done t) \<Longrightarrow> lt_lfd t = lt_lfd s"
  using rounds_keep [of lt_round lt_lfd] lt_round_lfd by blast

text \<open>Any of the calls whose result is checked ends the process when it fails.\<close>

definition lt_fails :: "fd \<Rightarrow> epoll_in list option \<Rightarrow> bool" where
  "lt_fails l r \<longleftrightarrow> (case r of None \<Rightarrow> True | Some [] \<Rightarrow> False
     | Some (e # es) \<Rightarrow> if ep_fd e = l then ep_accept e = -1 else ep_read e = RdErr)"

lemma lt_round_fails: "lt_fails (lt_lfd s) r \<Longrightarrow> outcome (lt_round r s) = Exit (-1)"
  by (auto simp: lt_fails_def lt_round_def lt_event_def Let_def effect_simps split: option.splits list.splits if_splits)


definition lt_demo :: "epoll_in list option list" where
  "lt_demo =
     [Some [\<lparr>ep_fd = 3, ep_accept = 5, ep_read = RdErr\<rparr>],
      Some [\<lparr>ep_fd = 3, ep_accept = 6, ep_read = RdErr\<rparr>, \<lparr>ep_fd = 5, ep_accept = -1, ep_read = RdData ''hey''\<rparr>],
      Some [\<lparr>ep_fd = 5, ep_accept = -1, ep_read = RdData []\<rparr>, \<lparr>ep_fd = 6, ep_accept = -1, ep_read = RdData ''yo''\<rparr>]]"

lemmas lt_eval =
  lt_round_def lt_event_def close_fd_def epoll_add_def epoll_del_def lt_ok_def ev_ok_def lt_served_def
  ep_data_def lt_start_def fits_def Let_def effect_simps

lemma lt_demo_ok: "all_ok lt_round lt_ok (lt_start 3 4) lt_demo"
  by (simp add: lt_demo_def lt_eval)


text \<open>
  The 5-byte buffer is zeroed but may be filled: when a client has sent five bytes without
  a NUL, \<open>printf("%s", buf)\<close> and \<open>strlen(buf)\<close> run past the end of the array.
\<close>

theorem lt_overrun:
  assumes "ep_fd e \<noteq> lt_lfd s" "ep_read e = RdData d" "length d = 5" "NUL \<notin> set d"
  shows "outcome (lt_event e s) = Undef"
proof -
  have "\<not> fits 5 d" "d \<noteq> []" using assms(3,4) by (auto simp: fits_def)
  then have "cstr (fill (zeros 5) d) = undef" using assms(3) by (simp add: cstr_overrun)
  with assms \<open>d \<noteq> []\<close> show ?thesis by (simp add: lt_event_def Let_def effect_simps)
qed

theorem lt_overrun_witness:
  "outcome (lt_event \<lparr>ep_fd = 5, ep_accept = -1, ep_read = RdData ''hello''\<rparr> (lt_start 3 4)) = Undef"
  by (rule lt_overrun [where d = "''hello''"]) (simp_all add: lt_start_def NUL_def)

end
