(* ===== verification/PollServer.thy ===== *)
theory PollServer
  imports Echo Slots
begin

text \<open>
  \<^verbatim>\<open>NetCode/IO/_poll/poll.c\<close>: the echo server over \<open>poll\<close>.  The state is the table \<open>fds\<close> of 1024
  entries (a function on the indices below 1024) and \<open>nfds\<close>; the source fills \<open>fd\<close> and \<open>events\<close>
  but not \<open>revents\<close>, whose first content is the parameter \<open>garbage\<close>.  Only the POLLIN bit of
  \<open>events\<close> and \<open>revents\<close> is ever used.
\<close>

definition TABLE :: nat where
  "TABLE = 1024"

record pollfd =
  pfd :: int
  want_in :: bool
  got_in :: bool

record poll_state =
  p_lfd :: fd
  fds :: "nat \<Rightarrow> pollfd"
  nfds :: int

record poll_in =
  p_ret :: int
  p_revs :: "nat \<Rightarrow> bool"
  p_accept :: int
  p_read :: "fd \<Rightarrow> rdres"

definition poll_init :: "fd \<Rightarrow> (nat \<Rightarrow> bool) \<Rightarrow> poll_state" where
  "poll_init l garbage =
     \<lparr>p_lfd = l,
      fds = (\<lambda>i. \<lparr>pfd = -1, want_in = True, got_in = garbage i\<rparr>)
              (0 := \<lparr>pfd = l, want_in = True, got_in = garbage 0\<rparr>),
      nfds = 0\<rparr>"

text \<open>
  The call \<open>poll(fds, nfds + 1, -1)\<close> writes the first \<open>nfds + 1\<close> entries; an entry with a
  negative descriptor gets no events.
\<close>

definition poll_call :: "poll_in \<Rightarrow> poll_state \<Rightarrow> poll_state" where
  "poll_call i s =
     s\<lparr>fds := (\<lambda>k. if int k < nfds s + 1
                   then (fds s k)\<lparr>got_in := 0 \<le> pfd (fds s k) \<and> want_in (fds s k) \<and> p_revs i k\<rparr>
                   else fds s k)\<rparr>"

function free_slot :: "(nat \<Rightarrow> pollfd) \<Rightarrow> nat \<Rightarrow> nat option" where
  "free_slot t i =
     (if i < TABLE then (if pfd (t i) = -1 then Some i else free_slot t (Suc i)) else None)"
  by pat_completeness auto
termination
  by (relation "measure (\<lambda>(t, i). TABLE - i)") auto

declare free_slot.simps [simp del]

definition set_slot :: "nat \<Rightarrow> int \<Rightarrow> (nat \<Rightarrow> pollfd) \<Rightarrow> (nat \<Rightarrow> pollfd)" where
  "set_slot j c t = t(j := (t j)\<lparr>pfd := c\<rparr>)"

definition add_client :: "int \<Rightarrow> (nat \<Rightarrow> pollfd) \<Rightarrow> (nat \<Rightarrow> pollfd)" where
  "add_client cfd t =
     (case free_slot t 1 of
        None \<Rightarrow> t
      | Some j \<Rightarrow> t(j := (t j)\<lparr>pfd := cfd, want_in := True\<rparr>))"

definition poll_accept :: "poll_in \<Rightarrow> poll_state \<Rightarrow> poll_state comp" where
  "poll_accept i s =
     (let cfd = p_accept i in
      thenc (emit (Call ''accept'' [p_lfd s]))
     (ret (s\<lparr>fds := add_client cfd (fds s), nfds := (if cfd > cfd then nfds s else cfd)\<rparr>)))"

text \<open>\<open>read\<close> on a negative descriptor fails.\<close>

definition poll_client :: "poll_in \<Rightarrow> nat \<Rightarrow> poll_state \<Rightarrow> poll_state comp" where
  "poll_client i k s =
     (let fd = pfd (fds s k) in
      case (if fd < 0 then RdErr else p_read i fd) of
        RdErr \<Rightarrow> thenc (syserr (-1) ''read'') (ret s)
      | RdData d \<Rightarrow>
          (let buf = fill (zeros BUFSIZ) d in
           if length d = 0 then
             thenc (emit (Out (''client closed...'' @ NL)))
            (thenc (emit (Cl fd))
            (ret (s\<lparr>fds := set_slot k (-1) (fds s)\<rparr>)))
           else
             bindc (cstr buf) (\<lambda>t.
             thenc (emit (Out (''recv data: '' @ t @ NL)))
            (thenc (reply fd buf)
            (ret s)))))"

fun poll_scan :: "poll_in \<Rightarrow> nat list \<Rightarrow> poll_state \<Rightarrow> poll_state comp" where
  "poll_scan i [] s = ret s"
| "poll_scan i (k # ks) s =
     (if k \<ge> TABLE then undef
      else bindc (if got_in (fds s k) then poll_client i k s else ret s) (\<lambda>t. poll_scan i ks t))"

definition slots_upto :: "int \<Rightarrow> nat list" where
  "slots_upto n = map nat [1..n]"

definition poll_round :: "poll_in \<Rightarrow> poll_state \<Rightarrow> poll_state comp" where
  "poll_round i s0 =
     (let s = poll_call i s0 in
      if p_ret i = 0 then ret s
      else if p_ret i > 0 then
        bindc (if got_in (fds s 0) then poll_accept i s else ret s) (\<lambda>s1.
        poll_scan i (slots_upto (nfds s1)) s1)
      else ret s)"

definition poll_main :: "int \<Rightarrow> int \<Rightarrow> int \<Rightarrow> (nat \<Rightarrow> bool) \<Rightarrow> poll_in list \<Rightarrow> poll_state comp" where
  "poll_main sock bnd lst garbage is =
     bindc (tcp_listen sock bnd lst) (\<lambda>l. rounds poll_round (poll_init l garbage) is)"

section \<open>The table\<close>

definition powner :: "(nat \<Rightarrow> pollfd) \<Rightarrow> nat \<Rightarrow> int option" where
  "powner t j = (if 1 \<le> j \<and> j < TABLE \<and> pfd (t j) \<noteq> -1 then Some (pfd (t j)) else None)"

lemma free_slot_Some:
  "free_slot t i = Some j \<Longrightarrow> i \<le> j \<and> j < TABLE \<and> pfd (t j) = -1 \<and> (\<forall>k. i \<le> k \<and> k < j \<longrightarrow> pfd (t k) \<noteq> -1)"
proof (induction t i rule: free_slot.induct)
  case (1 t i)
  show ?case
  proof (cases "i < TABLE \<and> pfd (t i) \<noteq> -1")
    case True
    with 1 have "Suc i \<le> j \<and> j < TABLE \<and> pfd (t j) = -1 \<and> (\<forall>k. Suc i \<le> k \<and> k < j \<longrightarrow> pfd (t k) \<noteq> -1)"
      by (simp add: free_slot.simps [of t i])
    with True show ?thesis by (metis Suc_leD Suc_leI le_neq_implies_less)
  next
    case False
    with "1.prems" show ?thesis by (auto simp: free_slot.simps [of t i] split: if_splits)
  qed
qed

lemma free_slot_None: "free_slot t i = None \<Longrightarrow> i \<le> k \<Longrightarrow> k < TABLE \<Longrightarrow> pfd (t k) \<noteq> -1"
proof (induction t i rule: free_slot.induct)
  case (1 t i)
  show ?case
  proof (cases "k = i")
    case True
    with 1 show ?thesis by (auto simp: free_slot.simps [of t i] split: if_splits)
  next
    case False
    with 1 show ?thesis by (auto simp: free_slot.simps [of t i] split: if_splits)
  qed
qed

interpretation ptab: slot_table powner "\<lambda>t. free_slot t 1" add_client "\<lambda>j. set_slot j (-1)"
proof unfold_locales
  fix t :: "nat \<Rightarrow> pollfd" and j c
  show "free_slot t 1 = Some j \<Longrightarrow> powner t j = None"
    by (auto simp: powner_def dest: free_slot_Some)
  show "0 \<le> c \<Longrightarrow> free_slot t 1 = Some j \<Longrightarrow> powner (add_client c t) = (powner t)(j \<mapsto> c)"
    by (auto simp: powner_def add_client_def fun_eq_iff dest: free_slot_Some)
  show "free_slot t 1 = None \<Longrightarrow> powner (add_client c t) = powner t"
    by (simp add: add_client_def)
  show "powner (set_slot j (-1) t) = (powner t)(j := None)"
    by (auto simp: powner_def set_slot_def fun_eq_iff)
qed

section \<open>The scan\<close>

definition slot_data :: "poll_in \<Rightarrow> pollfd \<Rightarrow> string" where
  "slot_data i e = (case p_read i (pfd e) of RdErr \<Rightarrow> [] | RdData d \<Rightarrow> d)"

definition slot_ok :: "poll_in \<Rightarrow> pollfd \<Rightarrow> bool" where
  "slot_ok i e \<longleftrightarrow> 0 \<le> pfd e \<and> (\<exists>d. p_read i (pfd e) = RdData d \<and> fits BUFSIZ d)"

definition slots_served :: "poll_in \<Rightarrow> nat list \<Rightarrow> (nat \<Rightarrow> pollfd) \<Rightarrow> (fd \<times> string) list" where
  "slots_served i ks t = map (\<lambda>k. (pfd (t k), slot_data i (t k))) (filter (\<lambda>k. got_in (t k)) ks)"

definition drop_closed :: "poll_in \<Rightarrow> nat list \<Rightarrow> (nat \<Rightarrow> pollfd) \<Rightarrow> (nat \<Rightarrow> pollfd)" where
  "drop_closed i ks t =
     (\<lambda>k. if k \<in> set ks \<and> got_in (t k) \<and> slot_data i (t k) = [] then (t k)\<lparr>pfd := -1\<rparr> else t k)"

lemma poll_client_ok:
  assumes "slot_ok i (fds s k)"
  shows "\<exists>es. poll_client i k s =
      (es, Done (s\<lparr>fds := (if slot_data i (fds s k) = [] then set_slot k (-1) (fds s) else fds s)\<rparr>))
    \<and> io es = answer (pfd (fds s k), slot_data i (fds s k))"
proof -
  from assms obtain d where d: "0 \<le> pfd (fds s k)" "p_read i (pfd (fds s k)) = RdData d" "fits BUFSIZ d"
    by (auto simp: slot_ok_def)
  then show ?thesis
    by (cases "d = []") (simp_all add: poll_client_def Let_def slot_data_def answer_def effect_simps)
qed

lemma poll_scan_spec:
  assumes "distinct ks" "\<forall>k\<in>set ks. k < TABLE" "\<forall>k\<in>set ks. got_in (fds s k) \<longrightarrow> slot_ok i (fds s k)"
  shows "\<exists>es. poll_scan i ks s = (es, Done (s\<lparr>fds := drop_closed i ks (fds s)\<rparr>)) \<and>
           io es = answers (slots_served i ks (fds s))"
  using assms
proof (induction ks arbitrary: s)
  case Nil
  then show ?case by (simp add: effect_simps drop_closed_def slots_served_def)
next
  case (Cons k ks)
  show ?case
  proof (cases "got_in (fds s k)")
    case False
    with Cons.IH [of s] Cons.prems obtain es where
      "poll_scan i ks s = (es, Done (s\<lparr>fds := drop_closed i ks (fds s)\<rparr>))"
      "io es = answers (slots_served i ks (fds s))" by auto
    moreover have "drop_closed i (k # ks) (fds s) = drop_closed i ks (fds s)"
      using False by (auto simp: drop_closed_def)
    ultimately show ?thesis using False Cons.prems(2) by (simp add: slots_served_def)
  next
    case True
    define u where "u = s\<lparr>fds := (if slot_data i (fds s k) = [] then set_slot k (-1) (fds s) else fds s)\<rparr>"
    from True Cons.prems(3) poll_client_ok [of i s k] obtain es1 where es1:
      "poll_client i k s = (es1, Done u)" "io es1 = answer (pfd (fds s k), slot_data i (fds s k))"
      unfolding u_def by auto
    have same: "fds u j = fds s j" if "j \<in> set ks" for j
      using that Cons.prems(1) by (auto simp: u_def set_slot_def)
    with Cons.IH [of u] Cons.prems obtain es2 where es2:
      "poll_scan i ks u = (es2, Done (u\<lparr>fds := drop_closed i ks (fds u)\<rparr>))"
      "io es2 = answers (slots_served i ks (fds u))" by auto
    have served: "slots_served i ks (fds u) = slots_served i ks (fds s)"
      using same by (auto simp: slots_served_def cong: map_cong filter_cong)
    have "drop_closed i ks (fds u) = drop_closed i (k # ks) (fds s)"
      using True Cons.prems(1) by (auto simp: drop_closed_def u_def set_slot_def fun_eq_iff)
    then have "u\<lparr>fds := drop_closed i ks (fds u)\<rparr> = s\<lparr>fds := drop_closed i (k # ks) (fds s)\<rparr>"
      by (simp add: u_def)
    moreover have "slots_served i (k # ks) (fds s) =
        (pfd (fds s k), slot_data i (fds s k)) # slots_served i ks (fds s)"
      using True by (simp add: slots_served_def)
    ultimately show ?thesis
      using es1 es2 served True Cons.prems(2) by (simp add: bindc_Done answers_Cons)
  qed
qed

text \<open>Who is in the table after a scan.\<close>

lemma powner_drop_closed:
  "powner (drop_closed i ks t) j =
     (if j \<in> set ks \<and> got_in (t j) \<and> slot_data i (t j) = [] then None else powner t j)"
  by (auto simp: powner_def drop_closed_def)

lemma powner_poll_call [simp]: "powner (fds (poll_call i s)) = powner (fds s)"
  by (auto simp: powner_def poll_call_def fun_eq_iff)

lemma got_in_poll_call: "got_in (fds (poll_call i s) k) \<Longrightarrow> int k < nfds s + 1 \<Longrightarrow> 0 \<le> pfd (fds s k)"
  by (auto simp: poll_call_def)

lemma pfd_poll_call [simp]: "pfd (fds (poll_call i s) k) = pfd (fds s k)"
  by (simp add: poll_call_def)

lemma nfds_poll_call [simp]: "nfds (poll_call i s) = nfds s" "p_lfd (poll_call i s) = p_lfd s"
  by (simp_all add: poll_call_def)

section \<open>Properties\<close>

definition poll_ok :: "poll_in \<Rightarrow> poll_state \<Rightarrow> bool" where
  "poll_ok i s \<longleftrightarrow> p_ret i > 0 \<and> (\<forall>k < TABLE. p_revs i k \<and> 0 \<le> pfd (fds s k) \<longrightarrow> slot_ok i (fds s k))"

lemma slots_upto_mem [simp]: "k \<in> set (slots_upto n) \<longleftrightarrow> 1 \<le> k \<and> int k \<le> n"
  by (auto simp: slots_upto_def image_iff intro!: bexI [of _ "int k"])

lemma distinct_slots_upto [simp]: "distinct (slots_upto n)"
  by (auto simp: slots_upto_def distinct_map inj_on_def)

lemma slots_upto_bounds: "n < int TABLE \<Longrightarrow> k \<in> set (slots_upto n) \<Longrightarrow> 1 \<le> k \<and> k < TABLE \<and> int k < n + 1"
  by simp

text \<open>
  A round of the poll server without a new connection, in which the kernel keeps the contract
  of \<open>poll\<close> and the clients' messages fit the buffer: the process goes on; every client in the first
  \<open>nfds\<close> entries that has sent something is answered, once, in the order of the table; the entries
  of those that closed are freed and all other entries stay as they are.
\<close>

theorem poll_round_served:
  assumes "poll_ok i s" "nfds s < int TABLE" "\<not> got_in (fds (poll_call i s) 0)"
  shows "\<exists>es t. poll_round i s = (es, Done t) \<and>
    io es = answers (slots_served i (slots_upto (nfds s)) (fds (poll_call i s))) \<and>
    (\<forall>j. powner (fds t) j =
       (if j \<in> set (slots_upto (nfds s)) \<and> got_in (fds (poll_call i s) j) \<and> slot_data i (fds s j) = []
        then None else powner (fds s) j))"
proof -
  let ?s = "poll_call i s"
  let ?ks = "slots_upto (nfds s)"
  have data: "slot_data i (fds ?s k) = slot_data i (fds s k)" for k
    by (simp add: slot_data_def)
  have "\<forall>k\<in>set ?ks. got_in (fds ?s k) \<longrightarrow> slot_ok i (fds ?s k)"
  proof (intro ballI impI)
    fix k assume k: "k \<in> set ?ks" "got_in (fds ?s k)"
    then have "int k < nfds s + 1" "k < TABLE"
      using slots_upto_bounds [OF assms(2) k(1)] by simp_all
    with k assms(1) have "slot_ok i (fds s k)"
      by (auto simp: poll_ok_def poll_call_def split: if_splits)
    then show "slot_ok i (fds ?s k)" by (simp add: slot_ok_def)
  qed
  moreover have "distinct ?ks" "\<forall>k\<in>set ?ks. k < TABLE"
    using slots_upto_bounds [OF assms(2)] by simp_all
  ultimately obtain es where
    "poll_scan i ?ks ?s = (es, Done (?s\<lparr>fds := drop_closed i ?ks (fds ?s)\<rparr>))"
    "io es = answers (slots_served i ?ks (fds ?s))"
    using poll_scan_spec [of ?ks ?s i] by blast
  with assms(1,3) show ?thesis
    by (simp add: poll_round_def poll_ok_def Let_def powner_drop_closed data)
qed

definition poll_two :: poll_state where
  "poll_two =
     \<lparr>p_lfd = 3,
      fds = (\<lambda>i. \<lparr>pfd = (if i = 0 then 3 else if i = 1 then 4 else -1), want_in = True, got_in = False\<rparr>),
      nfds = 2\<rparr>"

definition poll_talk :: "nat \<Rightarrow> poll_in" where
  "poll_talk n = \<lparr>p_ret = 1, p_revs = (\<lambda>k. k = n), p_accept = -1, p_read = (\<lambda>_. RdData ''hi'')\<rparr>"

theorem poll_round_served_witness:
  "\<exists>es t. poll_round (poll_talk 1) poll_two = (es, Done t) \<and> io es = [Wr 4 (''hi'' @ [NUL])]"
proof -
  have "answers (slots_served (poll_talk 1) (slots_upto (nfds poll_two)) (fds (poll_call (poll_talk 1) poll_two))) =
      [Wr 4 (''hi'' @ [NUL])]"
    by code_simp
  moreover have "poll_ok (poll_talk 1) poll_two" "nfds poll_two < int TABLE"
    "\<not> got_in (fds (poll_call (poll_talk 1) poll_two) 0)"
    by (simp_all add: poll_two_def poll_talk_def poll_ok_def slot_ok_def fits_def BUFSIZ_def TABLE_def
        poll_call_def)
  ultimately show ?thesis using poll_round_served by fastforce
qed

text \<open>
  New connections and the table: with a descriptor that is not yet in it, accepting keeps
  every connected client in its slot and no descriptor is in two slots; but \<open>nfds\<close>, the last index
  that \<open>poll\<close> and the scan look at, becomes the new descriptor whatever it was before
  (the source compares \<open>cfd > cfd\<close>).
\<close>

theorem poll_accept_table:
  assumes "0 \<le> p_accept i" "p_accept i \<notin> ran (powner (fds s))" "inj_owner (powner (fds s))"
  shows "\<exists>t. poll_accept i s = ([Call ''accept'' [p_lfd s]], Done t) \<and>
    inj_owner (powner (fds t)) \<and> nfds t = p_accept i \<and>
    (\<forall>j c. powner (fds s) j = Some c \<longrightarrow> powner (fds t) j = Some c) \<and>
    ran (powner (fds t)) \<subseteq> insert (p_accept i) (ran (powner (fds s)))"
  using assms ptab.alloc_inj [of "p_accept i" "fds s"] ptab.alloc_keeps [of "p_accept i" "fds s"]
    ptab.alloc_ran [of "p_accept i" "fds s"]
  by (simp add: poll_accept_def Let_def effect_simps)

definition poll_connect :: "int \<Rightarrow> poll_in" where
  "poll_connect c = \<lparr>p_ret = 1, p_revs = (\<lambda>k. k = 0), p_accept = c, p_read = (\<lambda>_. RdErr)\<rparr>"

lemma powner_init: "powner (fds (poll_init l g)) = Map.empty"
  by (auto simp: powner_def poll_init_def)

theorem poll_accept_table_witness:
  "\<exists>t. poll_accept (poll_connect 4) (poll_init 3 (\<lambda>_. False)) = ([Call ''accept'' [3]], Done t) \<and>
       inj_owner (powner (fds t)) \<and> nfds t = 4"
proof -
  have "inj_owner Map.empty" by (simp add: inj_owner_def)
  then show ?thesis
    using poll_accept_table [of "poll_connect 4" "poll_init 3 (\<lambda>_. False)"]
    by (auto simp: powner_init poll_connect_def) (simp add: poll_init_def)
qed

text \<open>What a scan does, whatever the environment answers, to a client in none of its slots.\<close>

lemma poll_client_other:
  assumes "pfd (fds s k) \<noteq> c"
  shows "sent_to c (events (poll_client i k s)) = []" "Cl c \<notin> set (events (poll_client i k s))"
    and "outcome (poll_client i k s) = Done t \<Longrightarrow>
      nfds t = nfds s \<and> (\<forall>j. j \<noteq> k \<longrightarrow> fds t j = fds s j) \<and>
      (pfd (fds t k) = pfd (fds s k) \<or> pfd (fds t k) = -1)"
  using assms
  by (auto simp: poll_client_def Let_def effect_simps cstr_def reply_def set_slot_def
      split: if_splits rdres.splits option.splits)

lemma poll_scan_other:
  assumes "\<forall>k\<in>set ks. pfd (fds s k) \<noteq> c" "c \<noteq> -1"
  shows "sent_to c (events (poll_scan i ks s)) = [] \<and> Cl c \<notin> set (events (poll_scan i ks s)) \<and>
    (\<forall>t. outcome (poll_scan i ks s) = Done t \<longrightarrow>
       nfds t = nfds s \<and> (\<forall>j. j \<notin> set ks \<longrightarrow> fds t j = fds s j) \<and>
       (\<forall>j. pfd (fds t j) = pfd (fds s j) \<or> pfd (fds t j) = -1))"
  using assms(1)
proof (induction ks arbitrary: s)
  case Nil
  then show ?case by (simp add: effect_simps)
next
  case (Cons k ks)
  define m where "m = (if got_in (fds s k) then poll_client i k s else ret s)"
  have scan: "poll_scan i (k # ks) s = (if k \<ge> TABLE then undef else bindc m (\<lambda>t. poll_scan i ks t))"
    by (simp add: m_def)
  obtain es r where mr: "m = (es, r)" by fastforce
  have es: "sent_to c es = []" "Cl c \<notin> set es"
    using poll_client_other(1,2) [of s k c i] Cons.prems mr
    by (auto simp: m_def ret_def split: if_splits)
  have t: "nfds t = nfds s \<and> (\<forall>j. j \<noteq> k \<longrightarrow> fds t j = fds s j) \<and>
      (\<forall>j. pfd (fds t j) = pfd (fds s j) \<or> pfd (fds t j) = -1)" if "r = Done t" for t
    using poll_client_other(3) [of s k c i t] Cons.prems mr that
    by (auto simp: m_def ret_def split: if_splits)
  show ?case
  proof (cases r)
    case (Done t)
    note t = t [OF Done]
    then have "\<forall>k\<in>set ks. pfd (fds t k) \<noteq> c"
      using Cons.prems assms(2) by (metis list.set_intros(2))
    note IH = Cons.IH [OF this]
    have "nfds v = nfds s \<and> (\<forall>j. j \<notin> set (k # ks) \<longrightarrow> fds v j = fds s j) \<and>
        (\<forall>j. pfd (fds v j) = pfd (fds s j) \<or> pfd (fds v j) = -1)"
      if "outcome (poll_scan i ks t) = Done v" for v
      using IH that t by (auto) metis
    with es mr IH Done show ?thesis unfolding scan by (simp add: bindc_Done undef_def)
  qed (use mr es in \<open>simp_all add: scan bindc_stop undef_def del: poll_scan.simps\<close>)
qed

text \<open>A scan over the first \<open>nfds\<close> entries, seen from a client beyond them.\<close>

lemma poll_scan_beyond:
  assumes "powner (fds s) j = Some c" "inj_owner (powner (fds s))" "nfds s < int j"
  shows "sent_to c (events (poll_scan i (slots_upto (nfds s)) s)) = [] \<and>
    Cl c \<notin> set (events (poll_scan i (slots_upto (nfds s)) s)) \<and>
    (\<forall>t. outcome (poll_scan i (slots_upto (nfds s)) s) = Done t \<longrightarrow>
       nfds t = nfds s \<and> powner (fds t) j = Some c \<and> inj_owner (powner (fds t)))"
proof -
  have c: "c \<noteq> -1" "j < TABLE" "1 \<le> j"
    using assms(1) by (auto simp: powner_def split: if_splits)
  have "\<forall>k\<in>set (slots_upto (nfds s)). pfd (fds s k) \<noteq> c"
  proof
    fix k assume "k \<in> set (slots_upto (nfds s))"
    then have k: "1 \<le> k" "int k < int j" using assms(3) by simp_all
    show "pfd (fds s k) \<noteq> c"
    proof
      assume "pfd (fds s k) = c"
      with k c have "powner (fds s) k = Some c" by (simp add: powner_def)
      from inj_ownerD [OF assms(2) this assms(1)] k show False by simp
    qed
  qed
  note other = poll_scan_other [OF this c(1), of i]
  have jn: "j \<notin> set (slots_upto (nfds s))" using assms(3) by simp
  have "powner (fds t) j = Some c \<and> inj_owner (powner (fds t))"
    if "outcome (poll_scan i (slots_upto (nfds s)) s) = Done t" for t
  proof
    from that other jn have t: "fds t j = fds s j" "\<And>k. pfd (fds t k) = pfd (fds s k) \<or> pfd (fds t k) = -1"
      by blast+
    from t(1) assms(1) show "powner (fds t) j = Some c" by (simp add: powner_def split: if_splits)
    have "powner (fds t) k = Some d \<Longrightarrow> powner (fds s) k = Some d" for k d
      using t(2) [of k] by (auto simp: powner_def split: if_splits)
    then show "inj_owner (powner (fds t))"
      using assms(2) unfolding inj_owner_def by metis
  qed
  with other show ?thesis by blast
qed

text \<open>
  A client whose slot lies beyond \<open>nfds\<close> is starved: as long as nobody connects, the server,
  whatever the kernel reports and the other clients do, sends it nothing and does not notice that it
  closes; it stays in the table.
\<close>

theorem poll_starved:
  assumes "powner (fds s) j = Some c" "inj_owner (powner (fds s))" "0 \<le> nfds s" "nfds s < int j"
    and "\<forall>i\<in>set is. \<not> p_revs i 0"
  shows "sent_to c (events (rounds poll_round s is)) = [] \<and>
    Cl c \<notin> set (events (rounds poll_round s is)) \<and>
    (\<forall>t. outcome (rounds poll_round s is) = Done t \<longrightarrow> powner (fds t) j = Some c)"
  using assms
proof (induction "is" arbitrary: s)
  case Nil
  then show ?case by (simp add: effect_simps)
next
  case (Cons i "is")
  let ?s = "poll_call i s"
  have s': "powner (fds ?s) j = Some c" "inj_owner (powner (fds ?s))" "nfds ?s < int j"
    using Cons.prems by simp_all
  have "\<not> got_in (fds ?s 0)"
    using Cons.prems(3,5) by (simp add: poll_call_def)
  then have round: "poll_round i s = (if p_ret i > 0 then poll_scan i (slots_upto (nfds ?s)) ?s else ret ?s)"
    by (simp add: poll_round_def Let_def)
  have step: "sent_to c (events (poll_round i s)) = [] \<and> Cl c \<notin> set (events (poll_round i s)) \<and>
    (\<forall>t. outcome (poll_round i s) = Done t \<longrightarrow>
       nfds t = nfds s \<and> powner (fds t) j = Some c \<and> inj_owner (powner (fds t)))"
    using poll_scan_beyond [OF s', of i] s' by (simp add: round ret_def)
  obtain es r where er: "poll_round i s = (es, r)" by fastforce
  show ?case
  proof (cases r)
    case (Done t)
    with step er Cons.prems have t: "nfds t = nfds s" "powner (fds t) j = Some c" "inj_owner (powner (fds t))"
      by simp_all
    from Cons.IH [OF t(2,3)] t(1) Cons.prems step er Done show ?thesis by (simp add: bindc_Done)
  qed (use er step in \<open>simp_all add: bindc_stop\<close>)
qed

definition starved_state :: poll_state where
  "starved_state =
     \<lparr>p_lfd = 3,
      fds = (\<lambda>i. \<lparr>pfd = (if i = 0 then 3 else if i = 1 then 4 else if i = 5 then 8 else -1),
                 want_in = True, got_in = False\<rparr>),
      nfds = 4\<rparr>"

lemma powner_starved: "powner (fds starved_state) = [1 \<mapsto> 4, 5 \<mapsto> 8]"
  by (auto simp: powner_def starved_state_def TABLE_def fun_eq_iff)

theorem poll_starved_witness:
  "sent_to 8 (events (rounds poll_round starved_state [poll_talk 1, poll_talk 5])) = []"
proof -
  have "inj_owner [1 \<mapsto> 4, 5 \<mapsto> 8]" by (simp add: inj_owner_def)
  then show ?thesis
    using poll_starved [of starved_state 5 8 "[poll_talk 1, poll_talk 5]"]
    by (simp add: powner_starved poll_talk_def) (simp add: starved_state_def)
qed

definition poll_hangup :: "nat \<Rightarrow> poll_in" where
  "poll_hangup n = \<lparr>p_ret = 1, p_revs = (\<lambda>k. k = n), p_accept = -1, p_read = (\<lambda>_. RdData [])\<rparr>"

definition starving_run :: "poll_in list" where
  "starving_run = map poll_connect [4, 5, 6, 7, 8] @ [poll_hangup 1, poll_connect 4]"

text \<open>
  Starvation happens in a run of the server from its start with a clean table: five
  clients connect on descriptors 4 to 8, the first one closes, and the next connection gets
  descriptor 4 again.  Then \<open>nfds\<close> is 4 and the client on descriptor 8, in slot 5, is connected but
  out of the range that is looked at.
\<close>

theorem poll_starvation_reachable:
  "case poll_main 3 0 0 (\<lambda>_. False) starving_run of
     (es, Done t) \<Rightarrow> nfds t = 4 \<and> powner (fds t) 5 = Some 8
   | _ \<Rightarrow> False"
  by code_simp

text \<open>
  The \<open>revents\<close> fields are not initialised.  If the memory of slot 2 happens to hold the
  POLLIN bit, the first connection (on a descriptor from 2 on) makes the server scan that slot, read
  from descriptor -1, and exit.
\<close>

theorem poll_uninitialised_revents:
  assumes "garbage 2" "\<not> garbage 1" "2 \<le> p_accept i" "p_ret i > 0" "p_revs i 0" "0 \<le> l"
  shows "outcome (poll_round i (poll_init l garbage)) = Exit (-1)"
proof -
  let ?s1 = "(poll_call i (poll_init l garbage))\<lparr>fds :=
      add_client (p_accept i) (fds (poll_call i (poll_init l garbage))), nfds := p_accept i\<rparr>"
  have free: "free_slot (fds (poll_call i (poll_init l garbage))) 1 = Some 1"
    by (simp add: free_slot.simps poll_init_def TABLE_def)
  have got: "got_in (fds (poll_call i (poll_init l garbage)) 0)"
    using assms by (simp add: poll_call_def poll_init_def)
  have entries: "\<not> got_in (fds ?s1 1)" "got_in (fds ?s1 2)" "pfd (fds ?s1 2) = -1"
    using assms free by (simp_all add: add_client_def poll_call_def poll_init_def)
  have "slots_upto (p_accept i) = 1 # 2 # map nat [3..p_accept i]"
    using assms(3) by (simp add: slots_upto_def upto_rec1)
  with entries have "outcome (poll_scan i (slots_upto (nfds ?s1)) ?s1) = Exit (-1)"
    by (simp add: TABLE_def poll_client_def Let_def effect_simps)
  moreover have "poll_accept i (poll_call i (poll_init l garbage)) = ([Call ''accept'' [l]], Done ?s1)"
    by (simp add: poll_accept_def Let_def effect_simps poll_init_def)
  ultimately show ?thesis
    using assms got by (simp add: poll_round_def Let_def bindc_Done)
qed

theorem poll_uninitialised_revents_witness:
  "outcome (poll_round (poll_connect 4) (poll_init 3 (\<lambda>k. k = 2))) = Exit (-1)"
  by (rule poll_uninitialised_revents) (simp_all add: poll_connect_def)

end
