(* ===== verification/PollRounds.thy ===== *)
theory PollRounds
  imports PollServer
begin

text \<open>
  The poll server over whole runs: from a table whose \<open>revents\<close> fields start clear it keeps the contract
  \<open>echo_mux\<close>, like the servers over \<open>select\<close> and \<open>epoll\<close>.  A round serves the entries up to \<open>nfds\<close> after
  the new connection, if there is one, has been placed; an entry beyond the range that \<open>poll\<close> was given may
  be among them, with the report of an earlier round.
\<close>

section \<open>One round\<close>

definition poll_clients :: "poll_state \<Rightarrow> fd set" where
  "poll_clients s = ran (powner (fds s))"

lemma slot_ok_code [code]:
  "slot_ok i e \<longleftrightarrow> 0 \<le> pfd e \<and> (case p_read i (pfd e) of RdErr \<Rightarrow> False | RdData d \<Rightarrow> fits BUFSIZ d)"
  by (auto simp: slot_ok_def split: rdres.splits)

text \<open>The index up to which a round looks.\<close>

definition poll_last :: "poll_in \<Rightarrow> poll_state \<Rightarrow> int" where
  "poll_last i s = (if got_in (fds (poll_call i s) 0) then p_accept i else nfds s)"

definition poll_served :: "poll_in \<Rightarrow> poll_state \<Rightarrow> (fd \<times> string) list" where
  "poll_served i s =
     (if p_ret i = 0 then [] else slots_served i (slots_upto (poll_last i s)) (fds (poll_call i s)))"

definition poll_joined :: "poll_in \<Rightarrow> poll_state \<Rightarrow> fd set" where
  "poll_joined i s =
     (if p_ret i \<noteq> 0 \<and> got_in (fds (poll_call i s) 0) \<and> free_slot (fds s) 1 \<noteq> None then {p_accept i} else {})"

text \<open>No entry marked free beyond the range of \<open>poll\<close> carries a report: nothing would clear it.\<close>

definition poll_inv :: "poll_state \<Rightarrow> bool" where
  "poll_inv s \<longleftrightarrow> inj_owner (powner (fds s)) \<and> nfds s < int TABLE \<and>
     (\<forall>k. 1 \<le> k \<and> nfds s < int k \<and> got_in (fds s k) \<longrightarrow> pfd (fds s k) \<noteq> -1)"

text \<open>
  What the calls document: \<open>poll\<close> with no timeout reports something, \<open>accept\<close> returns a descriptor that
  is not in use, below the 1024 a process may have; and a descriptor that was reported, in this round or
  in one since when it has not been read, has a message, which is to fit the buffer.
\<close>

definition poll_contract :: "poll_in \<Rightarrow> poll_state \<Rightarrow> bool" where
  "poll_contract i s \<longleftrightarrow> 0 \<le> p_ret i \<and>
     (p_ret i = 0 \<longrightarrow> (\<forall>k < TABLE. \<not> p_revs i k)) \<and>
     (got_in (fds (poll_call i s) 0) \<longrightarrow>
        0 \<le> p_accept i \<and> p_accept i < int TABLE \<and> p_accept i \<notin> poll_clients s) \<and>
     (\<forall>k\<in>set (slots_upto (poll_last i s)). got_in (fds (poll_call i s) k) \<longrightarrow> slot_ok i (fds s k))"

lemma free_slot_cong:
  assumes "\<forall>k. pfd (t k) = pfd (u k)"
  shows "free_slot t i = free_slot u i"
  using assms
proof (induction t i rule: free_slot.induct)
  case (1 t i)
  then show ?case by (subst (1 2) free_slot.simps) simp
qed

lemma free_slot_call [simp]: "free_slot (fds (poll_call i s)) k = free_slot (fds s) k"
  by (rule free_slot_cong) simp

lemma slot_data_pfd: "pfd e = pfd e' \<Longrightarrow> slot_data i e = slot_data i e'"
  by (simp add: slot_data_def)

lemma slot_ok_pfd: "pfd e = pfd e' \<Longrightarrow> slot_ok i e = slot_ok i e'"
  by (simp add: slot_ok_def)

text \<open>The entry a new connection is placed in has no report.\<close>

lemma placed_quiet:
  assumes "poll_inv s" "free_slot (fds s) 1 = Some j"
  shows "\<not> got_in (fds (poll_call i s) j)"
proof -
  have "1 \<le> j" "pfd (fds s j) = -1" using free_slot_Some [OF assms(2)] by simp_all
  with assms(1) show ?thesis by (auto simp: poll_inv_def poll_call_def)
qed

text \<open>The table after the branch for a new connection.\<close>

definition after_accept :: "poll_in \<Rightarrow> poll_state \<Rightarrow> poll_state" where
  "after_accept i s =
     (let u = poll_call i s in
      if got_in (fds u 0) then u\<lparr>fds := add_client (p_accept i) (fds u), nfds := p_accept i\<rparr> else u)"

lemma poll_round_scan:
  assumes "0 < p_ret i"
  shows "\<exists>es. poll_round i s =
    bindc (es, Done (after_accept i s)) (\<lambda>u. poll_scan i (slots_upto (poll_last i s)) u) \<and> io es = []"
proof -
  have last: "nfds (after_accept i s) = poll_last i s"
    by (simp add: after_accept_def poll_last_def Let_def)
  show ?thesis
  proof (cases "got_in (fds (poll_call i s) 0)")
    case True
    with assms last show ?thesis
      by (intro exI [of _ "[Call ''accept'' [p_lfd s]]"])
        (simp add: poll_round_def poll_accept_def after_accept_def Let_def effect_simps)
  next
    case False
    with assms last show ?thesis
      by (intro exI [of _ "[]"]) (simp add: poll_round_def after_accept_def Let_def effect_simps)
  qed
qed

lemma after_accept_entry:
  assumes "poll_inv s" "1 \<le> k"
  shows "got_in (fds (after_accept i s) k) = got_in (fds (poll_call i s) k)"
    and "got_in (fds (poll_call i s) k) \<Longrightarrow> pfd (fds (after_accept i s) k) = pfd (fds s k)"
  using placed_quiet [OF assms(1), of _ i]
  by (auto simp: after_accept_def add_client_def Let_def split: option.splits)

lemma after_accept_served:
  assumes "poll_inv s"
  shows "slots_served i (slots_upto n) (fds (after_accept i s)) = slots_served i (slots_upto n) (fds (poll_call i s))"
proof -
  have "filter (\<lambda>k. got_in (fds (after_accept i s) k)) (slots_upto n) = filter (\<lambda>k. got_in (fds (poll_call i s) k)) (slots_upto n)"
    by (intro filter_cong) (simp_all add: after_accept_entry(1) [OF assms])
  moreover have "pfd (fds (after_accept i s) k) = pfd (fds (poll_call i s) k)"
    if "1 \<le> k" "got_in (fds (poll_call i s) k)" for k
    using after_accept_entry(2) [OF assms that] by simp
  ultimately show ?thesis
    by (auto simp: slots_served_def intro!: slot_data_pfd)
qed

lemma after_accept_clients:
  assumes "poll_contract i s" "p_ret i \<noteq> 0"
  shows "ran (powner (fds (after_accept i s))) = poll_clients s \<union> poll_joined i s"
proof (cases "got_in (fds (poll_call i s) 0)")
  case True
  then have c: "0 \<le> p_accept i" using assms(1) by (simp add: poll_contract_def)
  show ?thesis
  proof (cases "free_slot (fds s) 1")
    case None
    with True assms(2) show ?thesis
      by (simp add: after_accept_def Let_def poll_joined_def poll_clients_def add_client_def)
  next
    case (Some j)
    then have "powner (fds (poll_call i s)) j = None" using ptab.find_free [of "fds s" j] by simp
    with True Some assms(2) c show ?thesis
      by (auto simp: after_accept_def Let_def poll_joined_def poll_clients_def ptab.alloc_owner)
  qed
qed (use assms(2) in \<open>simp add: after_accept_def Let_def poll_joined_def poll_clients_def\<close>)

lemma after_accept_inj:
  assumes "poll_inv s" "poll_contract i s"
  shows "inj_owner (powner (fds (after_accept i s)))"
  using assms ptab.alloc_inj [of "p_accept i" "fds (poll_call i s)"]
  by (auto simp: after_accept_def Let_def poll_inv_def poll_contract_def poll_clients_def)

text \<open>A scan removes from the table those that have left.\<close>

lemma clients_drop_closed:
  assumes "inj_owner (powner t)" "\<forall>k\<in>set ks. 1 \<le> k \<and> k < TABLE \<and> (got_in (t k) \<longrightarrow> 0 \<le> pfd (t k))"
  shows "ran (powner (drop_closed i ks t)) = ran (powner t) - leaving (slots_served i ks t)"
proof (intro set_eqI iffI)
  fix c assume "c \<in> ran (powner (drop_closed i ks t))"
  then obtain j where j: "powner t j = Some c" "\<not> (j \<in> set ks \<and> got_in (t j) \<and> slot_data i (t j) = [])"
    by (auto simp: ran_def powner_drop_closed split: if_splits)
  have "c \<notin> leaving (slots_served i ks t)"
  proof
    assume "c \<in> leaving (slots_served i ks t)"
    then obtain k where k: "k \<in> set ks" "got_in (t k)" "pfd (t k) = c" "slot_data i (t k) = []"
      by (auto simp: leaving_def slots_served_def)
    with assms(2) have "powner t k = Some c" by (auto simp: powner_def)
    with inj_ownerD [OF assms(1) this j(1)] j(2) k show False by simp
  qed
  with j(1) show "c \<in> ran (powner t) - leaving (slots_served i ks t)" by (auto intro: ranI)
next
  fix c assume c: "c \<in> ran (powner t) - leaving (slots_served i ks t)"
  then obtain j where j: "powner t j = Some c" by (auto simp: ran_def)
  then have "pfd (t j) = c" by (auto simp: powner_def split: if_splits)
  with c have "\<not> (j \<in> set ks \<and> got_in (t j) \<and> slot_data i (t j) = [])"
    by (force simp: leaving_def slots_served_def)
  with j show "c \<in> ran (powner (drop_closed i ks t))" by (intro ranI [of _ j]) (simp add: powner_drop_closed)
qed

lemma inj_owner_drop_closed: "inj_owner (powner t) \<Longrightarrow> inj_owner (powner (drop_closed i ks t))"
  by (auto simp: inj_owner_def powner_drop_closed)

lemma poll_call_beyond: "nfds s < int k \<Longrightarrow> fds (poll_call i s) k = fds s k"
  by (simp add: poll_call_def)

lemma poll_quiet_round:
  assumes "poll_inv s" "p_ret i = 0"
  shows "poll_round i s = ([], Done (poll_call i s))" "poll_inv (poll_call i s)" "poll_clients (poll_call i s) = poll_clients s"
  using assms by (auto simp: poll_round_def poll_inv_def poll_clients_def ret_def poll_call_beyond)

text \<open>The state after a round in which something was reported, and what it has sent.\<close>

definition after_round :: "poll_in \<Rightarrow> poll_state \<Rightarrow> poll_state" where
  "after_round i s = (let u = after_accept i s in u\<lparr>fds := drop_closed i (slots_upto (poll_last i s)) (fds u)\<rparr>)"

lemma poll_last_bound: "poll_inv s \<Longrightarrow> poll_contract i s \<Longrightarrow> poll_last i s < int TABLE"
  by (auto simp: poll_last_def poll_inv_def poll_contract_def)

lemma nfds_after_round: "nfds (after_round i s) = poll_last i s"
  by (simp add: after_round_def after_accept_def poll_last_def Let_def)

lemma scanned_ok:
  assumes "poll_inv s" "poll_contract i s" "k \<in> set (slots_upto (poll_last i s))" "got_in (fds (after_accept i s) k)"
  shows "slot_ok i (fds (after_accept i s) k)"
proof -
  from assms(3) have "1 \<le> k" by simp
  note e = after_accept_entry [OF assms(1) this]
  from assms(4) e(1) have g: "got_in (fds (poll_call i s) k)" by simp
  with assms(2,3) have "slot_ok i (fds s k)" by (simp add: poll_contract_def)
  with slot_ok_pfd [OF e(2) [OF g]] show ?thesis by simp
qed

lemma poll_round_after:
  assumes "poll_inv s" "poll_contract i s" "p_ret i \<noteq> 0"
  shows "\<exists>es. poll_round i s = (es, Done (after_round i s)) \<and> io es = answers (poll_served i s)"
proof -
  let ?ks = "slots_upto (poll_last i s)"
  let ?u = "after_accept i s"
  have "\<forall>k\<in>set ?ks. k < TABLE" using poll_last_bound [OF assms(1,2)] by simp
  moreover have "poll_served i s = slots_served i ?ks (fds ?u)"
    using assms(3) after_accept_served [OF assms(1)] by (simp add: poll_served_def)
  ultimately obtain es2 where "poll_scan i ?ks ?u = (es2, Done (after_round i s))" "io es2 = answers (poll_served i s)"
    using poll_scan_spec [of ?ks ?u i] scanned_ok [OF assms(1,2)]
    unfolding after_round_def Let_def by (metis distinct_slots_upto)
  moreover obtain es1 where "poll_round i s = bindc (es1, Done ?u) (\<lambda>u. poll_scan i ?ks u)" "io es1 = []"
    using poll_round_scan [of i s] assms(2,3) by (auto simp: poll_contract_def)
  ultimately show ?thesis by (simp add: bindc_Done)
qed

text \<open>An entry beyond the range of the round that carries a report had it before.\<close>

lemma after_round_beyond:
  assumes "poll_inv s" "1 \<le> k" "poll_last i s < int k" "got_in (fds (after_round i s) k)"
  shows "pfd (fds (after_round i s) k) = pfd (fds s k) \<and> got_in (fds (poll_call i s) k) \<and> pfd (fds s k) \<noteq> -1"
proof -
  have out: "fds (after_round i s) k = fds (after_accept i s) k"
    using assms(3) by (simp add: after_round_def drop_closed_def Let_def)
  with assms(4) after_accept_entry(1) [OF assms(1,2)] have g: "got_in (fds (poll_call i s) k)" by simp
  have "pfd (fds s k) \<noteq> -1"
  proof (cases "nfds s < int k")
    case True
    with g assms(1,2) show ?thesis by (auto simp: poll_call_beyond poll_inv_def)
  next
    case False
    with g got_in_poll_call [of i s k] show ?thesis by simp
  qed
  with out g after_accept_entry(2) [OF assms(1,2) g] show ?thesis by simp
qed

lemma after_round_inv:
  assumes "poll_inv s" "poll_contract i s"
  shows "poll_inv (after_round i s)"
proof -
  have "inj_owner (powner (fds (after_round i s)))"
    using after_accept_inj [OF assms] by (simp add: after_round_def Let_def inj_owner_drop_closed)
  moreover have "\<forall>k. 1 \<le> k \<and> poll_last i s < int k \<and> got_in (fds (after_round i s) k) \<longrightarrow> pfd (fds (after_round i s) k) \<noteq> -1"
    using after_round_beyond [OF assms(1)] by metis
  ultimately show ?thesis
    using poll_last_bound [OF assms] by (simp add: poll_inv_def nfds_after_round)
qed

lemma after_round_clients:
  assumes "poll_inv s" "poll_contract i s" "p_ret i \<noteq> 0"
  shows "poll_clients (after_round i s) = (poll_clients s \<union> poll_joined i s) - leaving (poll_served i s)"
proof -
  let ?ks = "slots_upto (poll_last i s)"
  have "\<forall>k\<in>set ?ks. 1 \<le> k \<and> k < TABLE" using poll_last_bound [OF assms(1,2)] by simp
  with scanned_ok [OF assms(1,2)]
  have "ran (powner (fds (after_round i s))) =
      ran (powner (fds (after_accept i s))) - leaving (slots_served i ?ks (fds (after_accept i s)))"
    using clients_drop_closed [OF after_accept_inj [OF assms(1,2)], of ?ks i]
    by (auto simp: after_round_def Let_def slot_ok_def)
  with after_accept_clients [OF assms(2,3)] after_accept_served [OF assms(1)] assms(3) show ?thesis
    by (simp add: poll_clients_def poll_served_def)
qed

lemma poll_round_spec:
  assumes "poll_inv s" "poll_contract i s"
  shows "\<exists>es t. poll_round i s = (es, Done t) \<and> poll_inv t \<and> io es = answers (poll_served i s) \<and>
           poll_clients t = (poll_clients s \<union> poll_joined i s) - leaving (poll_served i s)"
proof (cases "p_ret i = 0")
  case True
  with poll_quiet_round [OF assms(1)] show ?thesis by (simp add: poll_served_def poll_joined_def)
next
  case False
  with poll_round_after [OF assms] after_round_inv [OF assms] after_round_clients [OF assms] show ?thesis
    by blast
qed

interpretation pol: echo_mux poll_round poll_clients poll_inv poll_contract poll_joined poll_served
  by unfold_locales (use poll_round_spec in fastforce)+

lemma poll_start_inv:
  assumes "\<forall>k. 1 \<le> k \<longrightarrow> \<not> garbage k"
  shows "poll_inv (poll_init l garbage)"
  using assms by (simp add: poll_inv_def powner_init inj_owner_def) (simp add: poll_init_def TABLE_def)

text \<open>A run followed through the states after its rounds, without what the rounds send.\<close>

definition round_fits :: "poll_in \<Rightarrow> fd list \<Rightarrow> poll_state \<Rightarrow> bool" where
  "round_fits i cs s \<longleftrightarrow> 0 < p_ret i \<and>
     (got_in (fds (poll_call i s) 0) \<longrightarrow> 0 \<le> p_accept i \<and> p_accept i < int TABLE \<and> p_accept i \<notin> set cs) \<and>
     list_all (\<lambda>k. got_in (fds (poll_call i s) k) \<longrightarrow> slot_ok i (fds s k)) (slots_upto (poll_last i s))"

definition joins :: "poll_in \<Rightarrow> poll_state \<Rightarrow> fd list" where
  "joins i s = (if got_in (fds (poll_call i s) 0) \<and> free_slot (fds s) 1 \<noteq> None then [p_accept i] else [])"

fun run_ok :: "fd list \<Rightarrow> poll_state \<Rightarrow> poll_in list \<Rightarrow> bool" where
  "run_ok cs s [] = True"
| "run_ok cs s (i # is) =
     (round_fits i cs s \<and>
      run_ok (filter (\<lambda>c. (c, []) \<notin> set (poll_served i s)) (cs @ joins i s)) (after_round i s) is)"

fun run_served :: "poll_state \<Rightarrow> poll_in list \<Rightarrow> (fd \<times> string) list" where
  "run_served s [] = []"
| "run_served s (i # is) = poll_served i s @ run_served (after_round i s) is"

lemma run_ok_all:
  assumes "poll_inv s" "poll_clients s = set cs" "run_ok cs s is"
  shows "all_ok poll_round poll_contract s is \<and> all_served poll_round poll_served s is = run_served s is"
  using assms
proof (induction "is" arbitrary: s cs)
  case (Cons i "is")
  then have i: "poll_contract i s" "p_ret i \<noteq> 0"
    by (auto simp: round_fits_def poll_contract_def list_all_iff)
  from poll_round_after [OF Cons.prems(1) i] obtain es where es: "poll_round i s = (es, Done (after_round i s))" by blast
  have "poll_clients (after_round i s) = set (filter (\<lambda>c. (c, []) \<notin> set (poll_served i s)) (cs @ joins i s))"
    using after_round_clients [OF Cons.prems(1) i] Cons.prems(2) i(2)
    by (auto simp: leaving_def joins_def poll_joined_def)
  from Cons.IH [OF after_round_inv [OF Cons.prems(1) i(1)] this] Cons.prems(3) i es show ?case by simp
qed simp

text \<open>A table written out: what is in the entries listed, all others free and quiet.\<close>

definition tab :: "fd \<Rightarrow> (nat \<times> int \<times> bool) list \<Rightarrow> int \<Rightarrow> poll_state" where
  "tab l xs n =
     \<lparr>p_lfd = l,
      fds = (\<lambda>k. case map_of xs k of None \<Rightarrow> \<lparr>pfd = -1, want_in = True, got_in = False\<rparr>
                                   | Some (c, b) \<Rightarrow> \<lparr>pfd = c, want_in = True, got_in = b\<rparr>),
      nfds = n\<rparr>"

lemma poll_init_tab: "poll_init l (\<lambda>_. False) = tab l [(0, l, False)] 0"
  by (simp add: poll_init_def tab_def fun_eq_iff)

lemma tab_simps [simp]:
  "nfds (tab l xs n) = n" "p_lfd (tab l xs n) = l"
  "pfd (fds (tab l xs n) k) = (case map_of xs k of None \<Rightarrow> -1 | Some (c, b) \<Rightarrow> c)"
  "got_in (fds (tab l xs n) k) = (case map_of xs k of None \<Rightarrow> False | Some (c, b) \<Rightarrow> b)"
  by (simp_all add: tab_def split: option.splits)

definition tab_call :: "poll_in \<Rightarrow> int \<Rightarrow> nat \<Rightarrow> int \<times> bool \<Rightarrow> int \<times> bool" where
  "tab_call i n k = (\<lambda>(c, b). (c, if int k \<le> n then 0 \<le> c \<and> p_revs i k else b))"

definition tab_close :: "poll_in \<Rightarrow> int \<Rightarrow> nat \<Rightarrow> int \<times> bool \<Rightarrow> int \<times> bool" where
  "tab_close i n k = (\<lambda>(c, b). (if 1 \<le> k \<and> int k \<le> n \<and> b \<and> data_of (p_read i c) = [] then -1 else c, b))"

definition on_rows :: "(nat \<Rightarrow> 'v \<Rightarrow> 'v) \<Rightarrow> (nat \<times> 'v) list \<Rightarrow> (nat \<times> 'v) list" where
  "on_rows f = map (\<lambda>(k, v). (k, f k v))"

lemma map_of_on_rows [simp]: "map_of (on_rows f xs) k = map_option (f k) (map_of xs k)"
  by (induction xs) (auto simp: on_rows_def)

lemma poll_call_tab: "poll_call i (tab l xs n) = tab l (on_rows (tab_call i n) xs) n"
  by (auto simp: poll_call_def tab_def tab_call_def fun_eq_iff split: option.splits)

lemma drop_closed_tab:
  "drop_closed i (slots_upto n) (fds (tab l xs m)) = fds (tab l (on_rows (tab_close i n) xs) m)"
  by (auto simp: drop_closed_def tab_def tab_close_def slot_data_def data_of_def fun_eq_iff split: option.splits)

lemma after_round_tab:
  assumes "ys = on_rows (tab_call i n) xs" "map_of ys 0 = Some (l, False)"
  shows "after_round i (tab l xs n) = tab l (on_rows (tab_close i n) ys) n"
proof -
  have call: "poll_call i (tab l xs n) = tab l ys n" by (simp add: poll_call_tab assms(1))
  have "\<not> got_in (fds (tab l ys n) 0)" by (simp add: assms(2))
  then have "after_accept i (tab l xs n) = tab l ys n" "poll_last i (tab l xs n) = n"
    by (simp_all only: after_accept_def poll_last_def call Let_def if_False tab_simps)
  then show ?thesis
    by (simp only: after_round_def Let_def drop_closed_tab) (simp add: tab_def)
qed

lemma after_round_tab_accept:
  assumes "ys = on_rows (tab_call i n) xs" "map_of ys 0 = Some (l, True)" "free_slot (fds (tab l ys n)) 1 = Some j"
    and "c = p_accept i" "b = (case map_of ys j of None \<Rightarrow> False | Some (d, b) \<Rightarrow> b)"
  shows "after_round i (tab l xs n) = tab l (on_rows (tab_close i c) ((j, c, b) # ys)) c"
proof -
  have call: "poll_call i (tab l xs n) = tab l ys n" by (simp add: poll_call_tab assms(1))
  have new: "(tab l ys n)\<lparr>fds := add_client c (fds (tab l ys n)), nfds := c\<rparr> = tab l ((j, c, b) # ys) c"
    using assms(3,5) by (auto simp: add_client_def tab_def fun_eq_iff split: option.splits)
  have "got_in (fds (tab l ys n) 0)" by (simp add: assms(2))
  then have "after_accept i (tab l xs n) = tab l ((j, c, b) # ys) c" "poll_last i (tab l xs n) = c"
    using new by (simp_all only: after_accept_def poll_last_def call Let_def if_True assms(4))
  then show ?thesis
    by (simp only: after_round_def Let_def drop_closed_tab) (simp add: tab_def)
qed

section \<open>What is read has been reported\<close>

text \<open>
  \<open>poll_reported\<close> are the descriptors the call of \<open>poll\<close> reports in a round.  \<open>backed R\<close> says of a run that every
  descriptor a round reads from has been reported in it, or was among \<open>R\<close> or reported since, and has not been read
  since it was.
\<close>

definition poll_reported :: "poll_in \<Rightarrow> poll_state \<Rightarrow> fd set" where
  "poll_reported i s =
     {pfd (fds s k) |k. 1 \<le> k \<and> k < TABLE \<and> int k \<le> nfds s \<and> got_in (fds (poll_call i s) k)}"

fun backed :: "fd set \<Rightarrow> poll_state \<Rightarrow> poll_in list \<Rightarrow> bool" where
  "backed R s [] = True"
| "backed R s (i # is) =
     (let now = R \<union> poll_reported i s; rd = fst ` set (poll_served i s) in
      rd \<subseteq> now \<and> (case poll_round i s of (es, Done t) \<Rightarrow> backed (now - rd) t is | _ \<Rightarrow> True))"

definition unread :: "poll_state \<Rightarrow> fd set" where
  "unread s = {pfd (fds s k) |k. 1 \<le> k \<and> k < TABLE \<and> nfds s < int k \<and> got_in (fds s k)}"

lemma got_reported:
  assumes "1 \<le> k" "k < TABLE" "got_in (fds (poll_call i s) k)"
  shows "pfd (fds s k) \<in> unread s \<union> poll_reported i s"
proof (cases "nfds s < int k")
  case True
  with assms have "pfd (fds s k) \<in> unread s"
    unfolding unread_def by (auto simp: poll_call_beyond)
  then show ?thesis ..
next
  case False
  with assms have "pfd (fds s k) \<in> poll_reported i s"
    unfolding poll_reported_def by auto
  then show ?thesis ..
qed

lemma served_reported:
  assumes "poll_inv s" "poll_contract i s"
  shows "fst ` set (poll_served i s) \<subseteq> unread s \<union> poll_reported i s"
proof
  fix c assume "c \<in> fst ` set (poll_served i s)"
  then obtain k where k: "k \<in> set (slots_upto (poll_last i s))" "got_in (fds (poll_call i s) k)" "c = pfd (fds s k)"
    by (auto simp: poll_served_def slots_served_def split: if_splits)
  with poll_last_bound [OF assms] have "1 \<le> k" "k < TABLE" by simp_all
  from got_reported [OF this k(2)] k(3) show "c \<in> unread s \<union> poll_reported i s" by simp
qed

lemma unread_after:
  assumes "poll_inv s" "poll_contract i s" "poll_round i s = (es, Done t)"
  shows "unread t \<subseteq> unread s \<union> poll_reported i s - fst ` set (poll_served i s)"
proof (cases "p_ret i = 0")
  case True
  with poll_quiet_round(1) [OF assms(1)] assms(3) have "t = poll_call i s" by simp
  with True show ?thesis by (auto simp: unread_def poll_served_def poll_call_beyond)
next
  case False
  with poll_round_after [OF assms(1,2)] assms(3) have t: "t = after_round i s" by auto
  show ?thesis
  proof
    fix c assume "c \<in> unread t"
    then obtain k where k: "1 \<le> k" "k < TABLE" "poll_last i s < int k" "got_in (fds (after_round i s) k)"
      "c = pfd (fds (after_round i s) k)"
      by (auto simp: unread_def t nfds_after_round)
    from after_round_beyond [OF assms(1) k(1,3,4)] k(5)
    have e: "c = pfd (fds s k)" "got_in (fds (poll_call i s) k)" "c \<noteq> -1" by simp_all
    have "c \<notin> fst ` set (poll_served i s)"
    proof
      assume "c \<in> fst ` set (poll_served i s)"
      then obtain j where j: "1 \<le> j" "int j \<le> poll_last i s" "c = pfd (fds s j)"
        by (auto simp: poll_served_def slots_served_def split: if_splits)
      with poll_last_bound [OF assms(1,2)] e k have "powner (fds s) j = Some c" "powner (fds s) k = Some c"
        by (auto simp: powner_def)
      with assms(1) have "j = k" by (auto simp: poll_inv_def dest: inj_ownerD)
      with j(2) k(3) show False by simp
    qed
    with got_reported [OF k(1,2) e(2)] e(1) show "c \<in> unread s \<union> poll_reported i s - fst ` set (poll_served i s)" by simp
  qed
qed

lemma runs_backed:
  assumes "poll_inv s" "all_ok poll_round poll_contract s is" "unread s \<subseteq> R"
  shows "backed R s is"
  using assms
proof (induction "is" arbitrary: s R)
  case (Cons i "is")
  then have ok: "poll_contract i s" by simp
  note inv = Cons.prems(1)
  from pol.round_total [OF inv ok] obtain es t where t: "poll_round i s = (es, Done t)" by blast
  have "unread t \<subseteq> R \<union> poll_reported i s - fst ` set (poll_served i s)"
    using unread_after [OF inv ok t] Cons.prems(3) by blast
  then have "backed (R \<union> poll_reported i s - fst ` set (poll_served i s)) t is"
    using Cons.IH [OF pol.round_inv [OF inv ok t]] Cons.prems(2) t by simp
  with served_reported [OF inv ok] Cons.prems(3) t show ?case by (auto simp: Let_def)
qed simp

section \<open>Properties\<close>

lemma poll_main_start:
  assumes "0 \<le> l" "bnd \<noteq> -1" "lst \<noteq> -1"
  shows "poll_main l bnd lst garbage is =
    bindc ([Call ''bind'' [l, 9527], Call ''listen'' [l, 128]], Done ()) (\<lambda>_. rounds poll_round (poll_init l garbage) is)"
proof -
  have "tcp_listen l bnd lst = ([Call ''bind'' [l, 9527], Call ''listen'' [l, 128]], Done l)"
    using assms by (simp add: tcp_listen_Done)
  then show ?thesis by (simp add: poll_main_def effect_simps)
qed

text \<open>The first report the scan comes to is of a descriptor whose \<open>read\<close> fails.\<close>

definition poll_read_fails :: "poll_in \<Rightarrow> poll_state \<Rightarrow> bool" where
  "poll_read_fails i s \<longleftrightarrow> 0 < p_ret i \<and> \<not> got_in (fds (poll_call i s) 0) \<and>
     (\<exists>k\<in>set (slots_upto (nfds s)). got_in (fds (poll_call i s) k) \<and> p_read i (pfd (fds s k)) = RdErr \<and>
        (\<forall>j\<in>set (slots_upto (nfds s)). j < k \<longrightarrow> \<not> got_in (fds (poll_call i s) j)))"

lemma poll_scan_skip:
  "\<forall>k\<in>set ks. k < TABLE \<and> \<not> got_in (fds s k) \<Longrightarrow> poll_scan i (ks @ js) s = poll_scan i js s"
  by (induction ks) (simp_all add: effect_simps)

lemma slots_upto_split:
  assumes "k \<in> set (slots_upto n)"
  shows "\<exists>ks js. slots_upto n = ks @ k # js \<and> (\<forall>j\<in>set ks. j < k)"
proof -
  have k: "1 \<le> int k" "int k \<le> n" using assms by auto
  have "slots_upto n = map nat [1..int k - 1] @ k # map nat [int k + 1..n]"
    unfolding slots_upto_def upto_split3 [OF k] by simp
  moreover have "\<forall>j\<in>set (map nat [1..int k - 1]). j < k" by auto
  ultimately show ?thesis by blast
qed

lemma poll_read_exits:
  assumes "poll_inv s" "poll_read_fails i s"
  shows "outcome (poll_round i s) = Exit (-1)"
proof -
  let ?s = "poll_call i s"
  from assms(2) obtain k where ret: "0 < p_ret i" "\<not> got_in (fds ?s 0)" and k: "k \<in> set (slots_upto (nfds s))"
    "got_in (fds ?s k)" "p_read i (pfd (fds s k)) = RdErr"
    "\<forall>j\<in>set (slots_upto (nfds s)). j < k \<longrightarrow> \<not> got_in (fds ?s j)"
    unfolding poll_read_fails_def by blast
  obtain ks js where split: "slots_upto (nfds s) = ks @ k # js" "\<forall>j\<in>set ks. j < k"
    using slots_upto_split [OF k(1)] by blast
  have small: "j < TABLE" if "j \<in> set (slots_upto (nfds s))" for j
    using that assms(1) by (auto simp: poll_inv_def)
  have "\<forall>j\<in>set ks. j < TABLE \<and> \<not> got_in (fds ?s j)"
    using small k(4) split by auto
  then have "poll_scan i (slots_upto (nfds s)) ?s = poll_scan i (k # js) ?s"
    unfolding split(1) by (rule poll_scan_skip)
  moreover have "outcome (poll_scan i (k # js) ?s) = Exit (-1)"
    using k small [OF k(1)] by (simp add: poll_client_def Let_def effect_simps)
  ultimately show ?thesis using ret by (simp add: poll_round_def Let_def)
qed

text \<open>
  Claim C4. The poll server, started on descriptor \<open>l\<close> with \<open>revents\<close> fields that happen to be clear, over
  any number of rounds in which \<open>poll\<close>, \<open>accept\<close> and \<open>read\<close> succeed as documented and every message fits the
  buffer (\<open>poll_contract\<close>): the process goes on; in the table are exactly the clients that were placed in it and
  have not been read as gone; every client has been sent exactly the texts that were read from it, in order, each with its NUL, and
  the server reads from no descriptor but one that \<open>poll\<close> has reported and that has not been read since, so
  that no \<open>read\<close> can block; in spite of the reports it leaves behind in entries beyond \<open>nfds\<close>.  When after such
  rounds the first \<open>read\<close> of a round fails, the process exits with -1; a failing \<open>poll\<close> it does not notice.
\<close>

theorem poll_main_echo:
  assumes "0 \<le> l" "bnd \<noteq> -1" "lst \<noteq> -1" "\<forall>k. 1 \<le> k \<longrightarrow> \<not> garbage k"
    and "all_ok poll_round poll_contract (poll_init l garbage) is"
  shows "\<exists>es t. poll_main l bnd lst garbage is = (es, Done t) \<and>
    poll_clients t = members poll_round poll_joined poll_served {} (poll_init l garbage) is \<and>
    (\<forall>fd. sent_to fd es = echo_of fd (all_served poll_round poll_served (poll_init l garbage) is)) \<and>
    backed {} (poll_init l garbage) is \<and>
    (poll_read_fails i t \<longrightarrow> outcome (poll_main l bnd lst garbage (is @ [i])) = Exit (-1)) \<and>
    (p_ret i = -1 \<longrightarrow> outcome (poll_main l bnd lst garbage (is @ [i])) = Done (poll_call i t))"
proof -
  note inv = poll_start_inv [OF assms(4), of l]
  from pol.rounds_total [OF inv assms(5)] obtain es t where
    r: "rounds poll_round (poll_init l garbage) is = (es, Done t)" "poll_inv t" by blast
  note start = poll_main_start [OF assms(1-3)]
  have "poll_main l bnd lst garbage is = (Call ''bind'' [l, 9527] # Call ''listen'' [l, 128] # es, Done t)"
    using r by (simp add: start effect_simps)
  moreover have "outcome (poll_main l bnd lst garbage (is @ [i])) = outcome (poll_round i t)"
    using r by (simp add: start rounds_snoc effect_simps)
  moreover have "p_ret i = -1 \<Longrightarrow> outcome (poll_round i t) = Done (poll_call i t)"
    by (simp add: poll_round_def ret_def)
  moreover have "poll_clients t = members poll_round poll_joined poll_served {} (poll_init l garbage) is"
    using pol.rounds_clients [OF inv assms(5) r(1)] by (simp add: poll_clients_def powner_init)
  moreover have "unread (poll_init l garbage) \<subseteq> {}"
    using assms(4) by (auto simp: unread_def poll_init_def)
  ultimately show ?thesis
    using r pol.rounds_echo [OF inv assms(5)] runs_backed [OF inv assms(5)] poll_read_exits [of t i] by simp
qed

text \<open>
  A daemon without standard streams listens on descriptor 0.  Two clients connect on descriptors 1 and 2 and
  the first one leaves.  Then a new one gets descriptor 1 in the same round in which client 2 says hi, which
  the server leaves unread, as \<open>nfds\<close> drops to 1; the next connection, on descriptor 3, brings entry 2 back
  into the range, with its old report.
\<close>

definition late_data :: poll_in where
  "late_data = \<lparr>p_ret = 2, p_revs = (\<lambda>k. k = 0 \<or> k = 2), p_accept = 1, p_read = (\<lambda>_. RdErr)\<rparr>"

definition late_accept :: poll_in where
  "late_accept = \<lparr>p_ret = 1, p_revs = (\<lambda>k. k = 0), p_accept = 3, p_read = (\<lambda>_. RdData ''hi'')\<rparr>"

definition late_leave :: poll_in where
  "late_leave = poll_hangup 1"

definition late_reply :: "poll_in list" where
  "late_reply = [poll_connect 1, poll_connect 2, late_leave, late_data, late_accept]"

lemmas tab_eval =
  on_rows_def tab_call_def tab_close_def data_of_def free_slot.simps TABLE_def poll_connect_def poll_hangup_def
  late_data_def late_accept_def late_leave_def

lemmas tab_round_eval =
  tab_eval poll_call_tab round_fits_def joins_def poll_served_def slots_served_def poll_last_def slots_upto_def
  upto_rec1 slot_data_def slot_ok_def fits_def BUFSIZ_def

definition tab1 where "tab1 = tab 0 [(1, 1, False), (0, 0, True)] 1"
definition tab2 where "tab2 = tab 0 [(2, 2, False), (1, 1, False), (0, 0, True)] 2"
definition tab3 where "tab3 = tab 0 [(2, 2, False), (1, -1, True), (0, 0, False)] 2"
definition tab4 where "tab4 = tab 0 [(1, 1, False), (2, 2, True), (1, -1, False), (0, 0, True)] 1"

lemma late_states:
  "after_round (poll_connect 1) (tab 0 [(0, 0, False)] 0) = tab1"
  "after_round (poll_connect 2) tab1 = tab2"
  "after_round late_leave tab2 = tab3"
  "after_round late_data tab3 = tab4"
  unfolding tab1_def tab2_def tab3_def tab4_def
  by (subst after_round_tab_accept [where j = 1, OF refl _ _ refl refl], simp_all add: tab_eval,
      subst after_round_tab_accept [where j = 2, OF refl _ _ refl refl], simp_all add: tab_eval,
      subst after_round_tab [OF refl], simp_all add: tab_eval,
      subst after_round_tab_accept [where j = 1, OF refl _ _ refl refl], simp_all add: tab_eval)

lemma late_reply_run:
  "run_ok [] (tab 0 [(0, 0, False)] 0) late_reply"
  "run_served (tab 0 [(0, 0, False)] 0) late_reply = [(1, []), (2, ''hi'')]"
proof -
  have 1: "round_fits (poll_connect 1) [] (tab 0 [(0, 0, False)] 0)"
    "joins (poll_connect 1) (tab 0 [(0, 0, False)] 0) = [1]"
    "poll_served (poll_connect 1) (tab 0 [(0, 0, False)] 0) = []"
    by (simp_all add: tab_round_eval)
  have 2: "round_fits (poll_connect 2) [1] tab1" "joins (poll_connect 2) tab1 = [2]" "poll_served (poll_connect 2) tab1 = []"
    by (simp_all add: tab_round_eval tab1_def)
  have 3: "round_fits late_leave [1, 2] tab2" "joins late_leave tab2 = []" "poll_served late_leave tab2 = [(1, [])]"
    by (simp_all add: tab_round_eval tab2_def)
  have 4: "round_fits late_data [2] tab3" "joins late_data tab3 = [1]" "poll_served late_data tab3 = []"
    by (simp_all add: tab_round_eval tab3_def)
  have 5: "round_fits late_accept [2, 1] tab4" "poll_served late_accept tab4 = [(2, ''hi'')]"
    by (simp_all add: tab_round_eval tab4_def)
  show "run_ok [] (tab 0 [(0, 0, False)] 0) late_reply"
    "run_served (tab 0 [(0, 0, False)] 0) late_reply = [(1, []), (2, ''hi'')]"
    by (simp_all add: late_reply_def late_states 1 2 3 4 5)
qed

theorem poll_main_echo_witness:
  "\<exists>es t. poll_main 0 0 0 (\<lambda>_. False) late_reply = (es, Done t) \<and> sent_to 2 es = ''hi'' @ [NUL]"
proof -
  have ok: "all_ok poll_round poll_contract (poll_init 0 (\<lambda>_. False)) late_reply"
    and sv: "all_served poll_round poll_served (poll_init 0 (\<lambda>_. False)) late_reply = [(1, []), (2, ''hi'')]"
    using run_ok_all [OF poll_start_inv, of "\<lambda>_. False" 0 "[]" late_reply] late_reply_run
    by (simp_all add: poll_clients_def powner_init flip: poll_init_tab)
  have "echo_of 2 [(1, []), (2, ''hi'')] = ''hi'' @ [NUL]"
    by (simp add: echo_of_def text_of_def NUL_def)
  with poll_main_echo [OF _ _ _ _ ok, of 0 0 late_accept] sv show ?thesis by auto
qed

end
