(* ===== verification/Multiplexers.thy ===== *)
theory Multiplexers
  imports SelectServer EpollServer PollRounds
begin

text \<open>
  The servers over \<open>select\<close>, \<open>epoll\<close> and \<open>poll\<close> side by side.  A workload says, turn by turn, who connects and
  what the clients send, whatever system call reports it; an abstract server, which has no tables,
  masks or event lists, says what each client gets and who is connected afterwards.  The locale
  \<open>mux_refines\<close> is the refinement: a server that can be fed every turn does as the abstract one.
\<close>

section \<open>Workloads and the abstract server\<close>

text \<open>A turn: a new connection, if there is one, and what is there to read, an empty text for the end.\<close>

record turn =
  t_join :: "fd option"
  t_talk :: "(fd \<times> string) list"

definition speak :: "fd \<Rightarrow> string \<Rightarrow> turn" where
  "speak fd m = \<lparr>t_join = None, t_talk = [(fd, m)]\<rparr>"

definition after_turn :: "fd set \<Rightarrow> turn \<Rightarrow> fd set" where
  "after_turn C w = (C \<union> set_option (t_join w)) - leaving (t_talk w)"

fun live :: "fd set \<Rightarrow> turn list \<Rightarrow> fd set" where
  "live C [] = C"
| "live C (w # ws) = live (after_turn C w) ws"

definition owed :: "fd \<Rightarrow> turn list \<Rightarrow> string" where
  "owed fd ws = concat (map (\<lambda>w. echo_of fd (t_talk w)) ws)"

text \<open>
  Connected clients talk, each at most once a turn and fewer than \<open>n\<close> bytes, and a new descriptor is not in use.
  All three servers can take fewer than five bytes.
\<close>

definition turn_sized :: "nat \<Rightarrow> fd \<Rightarrow> fd set \<Rightarrow> turn \<Rightarrow> bool" where
  "turn_sized n l C w \<longleftrightarrow> distinct (map fst (t_talk w)) \<and> fst ` set (t_talk w) \<subseteq> C \<and>
     (\<forall>x\<in>set (t_talk w). length (snd x) < n) \<and>
     (\<forall>c\<in>set_option (t_join w). 0 \<le> c \<and> l < c \<and> c < 1024 \<and> c \<notin> C)"

abbreviation turn_ok :: "fd \<Rightarrow> fd set \<Rightarrow> turn \<Rightarrow> bool" where
  "turn_ok \<equiv> turn_sized 5"

lemma turn_sized_mono: "turn_sized m l C w \<Longrightarrow> m \<le> n \<Longrightarrow> turn_sized n l C w"
  unfolding turn_sized_def using order_less_le_trans by blast

fun work_ok :: "(fd set \<Rightarrow> turn \<Rightarrow> bool) \<Rightarrow> fd set \<Rightarrow> turn list \<Rightarrow> bool" where
  "work_ok ok C [] = True"
| "work_ok ok C (w # ws) = (ok C w \<and> work_ok ok (after_turn C w) ws)"

lemma work_ok_mono: "(\<And>C w. p C w \<Longrightarrow> q C w) \<Longrightarrow> work_ok p C ws \<Longrightarrow> work_ok q C ws"
  by (induction ws arbitrary: C) auto

text \<open>The inputs of a server's rounds, from the workload.\<close>

fun inputs :: "('i \<Rightarrow> 's \<Rightarrow> 's comp) \<Rightarrow> (turn \<Rightarrow> 's \<Rightarrow> 'i) \<Rightarrow> 's \<Rightarrow> turn list \<Rightarrow> 'i list" where
  "inputs step feed s [] = []"
| "inputs step feed s (w # ws) =
     feed w s # (case step (feed w s) s of (es, Done t) \<Rightarrow> inputs step feed t ws | _ \<Rightarrow> [])"

section \<open>Refinement\<close>

text \<open>Within one turn the order in which the clients are served does not matter to any of them.\<close>

lemma echo_of_distinct:
  assumes "distinct (map fst xs)"
  shows "echo_of fd xs = (case map_of xs fd of None \<Rightarrow> [] | Some d \<Rightarrow> if d = [] then [] else text_of d @ [NUL])"
  using assms
proof (induction xs)
  case (Cons x xs)
  have "echo_of fd (x # xs) = (if fst x = fd \<and> snd x \<noteq> [] then text_of (snd x) @ [NUL] else []) @ echo_of fd xs"
    by (cases x) (simp add: echo_of_def)
  moreover have "fst x = fd \<Longrightarrow> map_of xs fd = None"
    using Cons.prems by (auto simp: map_of_eq_None_iff)
  ultimately show ?case using Cons.IH Cons.prems by (cases x; cases "fst x = fd") simp_all
qed (simp add: echo_of_def)

lemma echo_of_same:
  "distinct (map fst xs) \<Longrightarrow> distinct (map fst ys) \<Longrightarrow> set xs = set ys \<Longrightarrow> echo_of fd xs = echo_of fd ys"
  using map_of_inject_set [of xs ys] by (simp add: echo_of_distinct)

lemma leaving_same: "set xs = set ys \<Longrightarrow> leaving xs = leaving ys"
  by (simp add: leaving_def)

lemma echo_of_append: "echo_of fd (xs @ ys) = echo_of fd xs @ echo_of fd ys"
  by (simp add: echo_of_def)

locale mux_refines = echo_mux step clients inv ok joined served
  for step :: "'i \<Rightarrow> 's \<Rightarrow> 's comp" and clients inv ok joined served +
  fixes feed :: "turn \<Rightarrow> 's \<Rightarrow> 'i"
    and fit :: "'s \<Rightarrow> bool"
    and able :: "fd set \<Rightarrow> turn \<Rightarrow> bool"
  assumes able_distinct: "able C w \<Longrightarrow> distinct (map fst (t_talk w))"
    and feed_ok: "inv s \<Longrightarrow> fit s \<Longrightarrow> able (clients s) w \<Longrightarrow> ok (feed w s) s"
    and feed_joined: "inv s \<Longrightarrow> fit s \<Longrightarrow> able (clients s) w \<Longrightarrow> joined (feed w s) s = set_option (t_join w)"
    and feed_served: "inv s \<Longrightarrow> fit s \<Longrightarrow> able (clients s) w \<Longrightarrow>
      distinct (map fst (served (feed w s) s)) \<and> set (served (feed w s) s) = set (t_talk w)"
    and feed_fit: "inv s \<Longrightarrow> fit s \<Longrightarrow> able (clients s) w \<Longrightarrow> step (feed w s) s = (es, Done t) \<Longrightarrow> fit t"
begin

lemma turn_refines:
  assumes "inv s" "fit s" "able (clients s) w"
  shows "\<exists>es t. step (feed w s) s = (es, Done t) \<and> inv t \<and> fit t \<and> clients t = after_turn (clients s) w"
proof -
  note ok = feed_ok [OF assms]
  from round_total [OF assms(1) ok] obtain es t where t: "step (feed w s) s = (es, Done t)" by blast
  have "clients t = after_turn (clients s) w"
    using round_clients [OF assms(1) ok t] feed_joined [OF assms] leaving_same [of "served (feed w s) s" "t_talk w"]
      feed_served [OF assms]
    by (simp add: after_turn_def)
  with t round_inv [OF assms(1) ok t] feed_fit [OF assms t] show ?thesis by blast
qed

lemma turn_sent:
  assumes "inv s" "fit s" "able (clients s) w" "step (feed w s) s = (es, Done t)"
  shows "sent_to fd es = echo_of fd (t_talk w)"
proof -
  note here = assms(1-3)
  have "sent_to fd es = echo_of fd (served (feed w s) s)"
    using round_io [OF assms(1) feed_ok [OF here] assms(4)] sent_to_io [of fd es] by (simp add: sent_to_answers)
  also have "\<dots> = echo_of fd (t_talk w)"
    using feed_served [OF here] able_distinct [OF assms(3)] by (intro echo_of_same) simp_all
  finally show ?thesis .
qed

lemma inputs_ok: "inv s \<Longrightarrow> fit s \<Longrightarrow> work_ok able (clients s) ws \<Longrightarrow> all_ok step ok s (inputs step feed s ws)"
proof (induction ws arbitrary: s)
  case (Cons w ws)
  then have w: "able (clients s) w" by simp
  from turn_refines [OF Cons.prems(1,2) w] obtain es t where
    "step (feed w s) s = (es, Done t)" "inv t" "fit t" "clients t = after_turn (clients s) w" by blast
  with Cons feed_ok [OF Cons.prems(1,2) w] show ?case by simp
qed simp

lemma work_refines:
  assumes "inv s" "fit s" "work_ok able (clients s) ws"
  shows "\<exists>es t. rounds step s (inputs step feed s ws) = (es, Done t) \<and>
           clients t = live (clients s) ws \<and> (\<forall>fd. sent_to fd es = owed fd ws)"
  using assms
proof (induction ws arbitrary: s)
  case Nil
  then show ?case by (simp add: effect_simps owed_def)
next
  case (Cons w ws)
  then have w: "able (clients s) w" by simp
  note here = Cons.prems(1,2) w
  from turn_refines [OF here] obtain es t where t:
    "step (feed w s) s = (es, Done t)" "inv t" "fit t" "clients t = after_turn (clients s) w" by blast
  with Cons.IH [of t] Cons.prems(3) obtain fs u where u: "rounds step t (inputs step feed t ws) = (fs, Done u)"
    "clients u = live (clients t) ws" "\<forall>fd. sent_to fd fs = owed fd ws" by auto
  with t u turn_sent [OF here t(1)] show ?case by (simp add: bindc_Done owed_def)
qed

text \<open>A turn in which one client says something and nobody comes.\<close>

lemma speak_answered:
  assumes "inv s" "fit s" "able (clients s) (speak fd m)" "m \<noteq> []"
  shows "\<exists>es t. step (feed (speak fd m) s) s = (es, Done t) \<and> inv t \<and> fit t \<and> clients t = clients s \<and>
           sent_to fd es = text_of m @ [NUL] \<and> Cl fd \<notin> set es"
proof -
  note here = assms(1-3)
  from turn_refines [OF here] obtain es t where t:
    "step (feed (speak fd m) s) s = (es, Done t)" "inv t" "fit t" "clients t = after_turn (clients s) (speak fd m)" by blast
  have "set (served (feed (speak fd m) s) s) = {(fd, m)}" using feed_served [OF here] by (simp add: speak_def)
  moreover have "io es = answers (served (feed (speak fd m) s) s)"
    by (rule round_io [OF assms(1) feed_ok [OF here] t(1)])
  ultimately have "Cl fd \<notin> set (io es)" using assms(4) by (auto simp: answers_def answer_def)
  then have "Cl fd \<notin> set es" by simp
  moreover have "sent_to fd es = text_of m @ [NUL]"
    using turn_sent [OF here t(1)] assms(4) by (simp add: speak_def echo_of_def)
  moreover have "after_turn (clients s) (speak fd m) = clients s"
    using assms(4) by (simp add: after_turn_def speak_def)
  ultimately show ?thesis using t by metis
qed

end

section \<open>The three servers\<close>

definition sel_feed :: "turn \<Rightarrow> select_state \<Rightarrow> select_in" where
  "sel_feed w s =
     \<lparr>sel_ret = 1,
      sel_temp = fst ` set (t_talk w) \<union> (if t_join w = None then {} else {lfd s}),
      sel_accept = (case t_join w of None \<Rightarrow> -1 | Some c \<Rightarrow> c),
      sel_read = (\<lambda>fd. case map_of (t_talk w) fd of None \<Rightarrow> RdErr | Some d \<Rightarrow> RdData d)\<rparr>"

definition lt_feed :: "turn \<Rightarrow> lt_state \<Rightarrow> epoll_in list option" where
  "lt_feed w s =
     Some ((case t_join w of None \<Rightarrow> [] | Some c \<Rightarrow> [\<lparr>ep_fd = lt_lfd s, ep_accept = c, ep_read = RdErr\<rparr>]) @
           map (\<lambda>(fd, d). \<lparr>ep_fd = fd, ep_accept = -1, ep_read = RdData d\<rparr>) (t_talk w))"

lemma short_fits: "length d < n \<Longrightarrow> fits n d"
  by (simp add: fits_def)

text \<open>What is read from a descriptor that talks.\<close>

lemma talk_data:
  assumes "distinct (map fst (t_talk w))" "(fd, d) \<in> set (t_talk w)"
  shows "map_of (t_talk w) fd = Some d"
  using assms by simp

interpretation selw: mux_refines select_round select_clients select_inv select_ok select_joined select_served
  sel_feed "\<lambda>s. lfd s = l" "turn_sized BUFSIZ l" for l
proof unfold_locales
  fix s C w es t
  show "turn_sized BUFSIZ l C w \<Longrightarrow> distinct (map fst (t_talk w))" by (simp add: turn_sized_def)
  show "select_round (sel_feed w s) s = (es, Done t) \<Longrightarrow> lfd s = l \<Longrightarrow> lfd t = l"
    by (simp add: select_round_lfd)
  assume s: "select_inv s" "lfd s = l" "turn_sized BUFSIZ l (select_clients s) w"
  have talk: "map_of (t_talk w) fd = Some d" "length d < BUFSIZ" "fd \<in> readsset s" "fd \<noteq> l"
    if "(fd, d) \<in> set (t_talk w)" for fd d
    using s(2,3) that by (fastforce simp: turn_sized_def select_clients_def)+
  have quiet: "l \<notin> fst ` set (t_talk w)"
    using s(2,3) by (auto simp: turn_sized_def select_clients_def)
  have l: "lfd s \<in> sel_temp (sel_feed w s) \<longleftrightarrow> t_join w \<noteq> None"
    using quiet s(2) by (simp add: sel_feed_def)
  have ready: "fd \<noteq> l \<Longrightarrow> fd \<in> sel_temp (sel_feed w s) \<longleftrightarrow> fd \<in> fst ` set (t_talk w)" for fd
    using s(2) by (auto simp: sel_feed_def)
  show "select_joined (sel_feed w s) s = set_option (t_join w)"
    using l by (auto simp: select_joined_def sel_feed_def)
  show "select_ok (sel_feed w s) s"
    unfolding select_ok_def
  proof (intro conjI)
    show "sel_temp (sel_feed w s) \<subseteq> readsset s"
      using talk(3) s(1) by (auto simp: sel_feed_def select_inv_def)
    show "lfd s \<in> sel_temp (sel_feed w s) \<longrightarrow> lfd s < sel_accept (sel_feed w s) \<and>
        sel_accept (sel_feed w s) < FD_SETSIZE \<and> sel_accept (sel_feed w s) \<notin> readsset s"
      using l s(2,3) by (auto simp: sel_feed_def turn_sized_def FD_SETSIZE_def select_clients_def)
    show "\<forall>fd\<in>sel_temp (sel_feed w s). fd \<noteq> lfd s \<longrightarrow> (\<exists>d. sel_read (sel_feed w s) fd = RdData d \<and> fits BUFSIZ d)"
    proof (intro ballI impI)
      fix fd assume "fd \<in> sel_temp (sel_feed w s)" "fd \<noteq> lfd s"
      then obtain d where "(fd, d) \<in> set (t_talk w)" using ready s(2) by auto
      from talk(1,2) [OF this] show "\<exists>d. sel_read (sel_feed w s) fd = RdData d \<and> fits BUFSIZ d"
        by (simp add: sel_feed_def short_fits)
    qed
  qed (simp_all add: sel_feed_def)
  have range: "fd \<in> set [lfd s + 1..maxfd s] \<and> fd \<in> sel_temp (sel_feed w s) \<longleftrightarrow> fd \<in> fst ` set (t_talk w)" for fd
  proof
    assume "fd \<in> set [lfd s + 1..maxfd s] \<and> fd \<in> sel_temp (sel_feed w s)"
    then show "fd \<in> fst ` set (t_talk w)" using ready [of fd] s(2) by auto
  next
    assume fd: "fd \<in> fst ` set (t_talk w)"
    then have "fd \<in> readsset s" "fd \<noteq> l" using talk(3) quiet by auto
    with fd ready [of fd] s(1,2) show "fd \<in> set [lfd s + 1..maxfd s] \<and> fd \<in> sel_temp (sel_feed w s)"
      by (auto simp: select_inv_def order.order_iff_strict)
  qed
  have read: "data_of (sel_read (sel_feed w s) fd) = d" if "(fd, d) \<in> set (t_talk w)" for fd d
    using talk(1) [OF that] by (simp add: sel_feed_def data_of_def)
  have "(fd, d) \<in> set (select_served (sel_feed w s) s) \<longleftrightarrow> (fd, d) \<in> set (t_talk w)" for fd d
  proof -
    have "(fd, d) \<in> set (select_served (sel_feed w s) s) \<longleftrightarrow>
        fd \<in> fst ` set (t_talk w) \<and> d = data_of (sel_read (sel_feed w s) fd)"
      using range [of fd] by (auto simp: select_served_def)
    also have "\<dots> \<longleftrightarrow> (fd, d) \<in> set (t_talk w)" using read by force
    finally show ?thesis .
  qed
  moreover have "map fst (select_served (sel_feed w s) s) = filter (\<lambda>fd. fd \<in> sel_temp (sel_feed w s)) [lfd s + 1..maxfd s]"
    by (simp add: select_served_def comp_def)
  ultimately show "distinct (map fst (select_served (sel_feed w s) s)) \<and> set (select_served (sel_feed w s) s) = set (t_talk w)"
    by auto
qed

interpretation ltw: mux_refines lt_round lt_clients lt_inv lt_ok lt_joined lt_served
  lt_feed "\<lambda>s. lt_lfd s = l" "turn_ok l" for l
proof unfold_locales
  fix s C w es t
  show "turn_ok l C w \<Longrightarrow> distinct (map fst (t_talk w))" by (simp add: turn_sized_def)
  show "lt_round (lt_feed w s) s = (es, Done t) \<Longrightarrow> lt_lfd s = l \<Longrightarrow> lt_lfd t = l"
    by (simp add: lt_round_lfd)
  assume s: "lt_inv s" "lt_lfd s = l" "turn_ok l (lt_clients s) w"
  have talk: "fd \<in> interest s" "fd \<noteq> l" "length d < 5" if "(fd, d) \<in> set (t_talk w)" for fd d
    using s(2,3) that by (fastforce simp: turn_sized_def lt_clients_def)+
  have join: "0 \<le> c" "l < c" "c \<notin> interest s" if "t_join w = Some c" for c
    using s(2,3) that by (auto simp: turn_sized_def lt_clients_def)
  define es where "es = map (\<lambda>(fd, d). \<lparr>ep_fd = fd, ep_accept = -1, ep_read = RdData d\<rparr>) (t_talk w)"
  define js where "js = (case t_join w of None \<Rightarrow> [] | Some c \<Rightarrow> [\<lparr>ep_fd = l, ep_accept = c, ep_read = RdErr\<rparr>])"
  have feed: "lt_feed w s = Some (js @ es)"
    by (simp only: lt_feed_def es_def js_def s(2))
  have fds: "map ep_fd es = map fst (t_talk w)"
    by (simp add: es_def comp_def case_prod_beta)
  have fds_js: "ep_fd ` set js \<subseteq> {l}" "distinct (map ep_fd js)"
    by (auto simp: js_def split: option.splits)
  have quiet: "l \<notin> ep_fd ` set es"
    using s(2,3) arg_cong [OF fds, of set] by (auto simp: turn_sized_def lt_clients_def)
  have "filter (\<lambda>e. ep_fd e \<noteq> l) es = es" using quiet by (auto intro!: filter_True)
  then have "ep_served l es = t_talk w"
    by (simp add: ep_served_def) (simp add: es_def ep_data_def comp_def case_prod_beta)
  moreover have "ep_served l js = []" "ep_joined l js = set_option (t_join w)"
    by (cases "t_join w"; simp add: js_def)+
  moreover have "ep_joined l es = {}" using quiet by (auto simp: ep_joined_def)
  ultimately have parts: "ep_served l (js @ es) = t_talk w" "ep_joined l (js @ es) = set_option (t_join w)"
    by (auto simp: ep_served_def ep_joined_def)
  show "lt_joined (lt_feed w s) s = set_option (t_join w)"
    using parts(2) s(2) by (simp add: lt_joined_def feed)
  show "distinct (map fst (lt_served (lt_feed w s) s)) \<and> set (lt_served (lt_feed w s) s) = set (t_talk w)"
    using parts(1) s(2,3) by (simp add: lt_served_def feed turn_sized_def)
  have "\<forall>e\<in>set js. ev_ok l (interest s) e"
    using join by (cases "t_join w") (auto simp: js_def ev_ok_def)
  moreover have "\<forall>e\<in>set es. ev_ok l (interest s) e"
  proof
    fix e assume "e \<in> set es"
    then obtain fd d where e: "(fd, d) \<in> set (t_talk w)" "e = \<lparr>ep_fd = fd, ep_accept = -1, ep_read = RdData d\<rparr>"
      by (auto simp: es_def)
    from talk(2,3) [OF e(1)] e(2) show "ev_ok l (interest s) e" by (simp add: ev_ok_def short_fits)
  qed
  moreover have "distinct (map ep_fd (js @ es))"
  proof -
    have "ep_fd ` set js \<inter> ep_fd ` set es = {}" using fds_js(1) quiet by blast
    moreover have "distinct (map ep_fd es)" using fds s(3) by (simp add: turn_sized_def)
    ultimately show ?thesis using fds_js(2) by simp
  qed
  moreover have "set (map ep_fd (js @ es)) \<subseteq> interest s"
    using fds_js(1) arg_cong [OF fds, of set] talk(1) s(1,2) by (auto simp: lt_inv_def)
  ultimately show "lt_ok (lt_feed w s) s"
    using s(2) by (auto simp: lt_ok_def feed)
qed

section \<open>The poll server, while descriptors rise\<close>

text \<open>
  \<open>poll.c\<close> sees every client as long as a new descriptor is above those of the clients that are
  connected: then each client's entry has an index of at most its descriptor, and \<open>nfds\<close> is not below.
\<close>

definition rising :: "fd \<Rightarrow> fd set \<Rightarrow> turn \<Rightarrow> bool" where
  "rising l C w \<longleftrightarrow> turn_sized BUFSIZ l C w \<and> (\<forall>c\<in>set_option (t_join w). \<forall>x\<in>C. x < c)"

definition poll_feed :: "turn \<Rightarrow> poll_state \<Rightarrow> poll_in" where
  "poll_feed w s =
     \<lparr>p_ret = 1,
      p_revs = (\<lambda>k. if k = 0 then t_join w \<noteq> None else pfd (fds s k) \<in> fst ` set (t_talk w)),
      p_accept = (case t_join w of None \<Rightarrow> -1 | Some c \<Rightarrow> c),
      p_read = (\<lambda>fd. case map_of (t_talk w) fd of None \<Rightarrow> RdErr | Some d \<Rightarrow> RdData d)\<rparr>"

definition poll_fit :: "fd \<Rightarrow> poll_state \<Rightarrow> bool" where
  "poll_fit l s \<longleftrightarrow> 0 \<le> l \<and> pfd (fds s 0) = l \<and> 0 \<le> nfds s \<and> (\<forall>k. want_in (fds s k)) \<and>
     (\<forall>k. nfds s < int k \<longrightarrow> \<not> got_in (fds s k)) \<and>
     (\<forall>j d. powner (fds s) j = Some d \<longrightarrow> int j \<le> d \<and> d \<le> nfds s)"

lemma powner_bounds: "powner t j = Some d \<Longrightarrow> 1 \<le> j \<and> j < TABLE \<and> pfd (t j) = d \<and> d \<noteq> -1"
  by (auto simp: powner_def split: if_splits)

definition poll_ready :: "fd \<Rightarrow> poll_state \<Rightarrow> turn \<Rightarrow> bool" where
  "poll_ready l s w \<longleftrightarrow> poll_inv s \<and> poll_fit l s \<and> rising l (poll_clients s) w"

lemma talker:
  assumes "poll_ready l s w" "(fd, d) \<in> set (t_talk w)"
  shows "\<exists>k. powner (fds s) k = Some fd \<and> int k \<le> fd \<and> fd \<le> nfds s"
    and "map_of (t_talk w) fd = Some d" and "length d < BUFSIZ"
proof -
  have ok: "distinct (map fst (t_talk w))" "fst ` set (t_talk w) \<subseteq> poll_clients s" "\<forall>x\<in>set (t_talk w). length (snd x) < BUFSIZ"
    using assms(1) by (simp_all add: poll_ready_def rising_def turn_sized_def)
  from ok(2) assms(2) have "fd \<in> ran (powner (fds s))" by (force simp: poll_clients_def)
  then obtain k where "powner (fds s) k = Some fd" by (auto simp: ran_def)
  with assms(1) show "\<exists>k. powner (fds s) k = Some fd \<and> int k \<le> fd \<and> fd \<le> nfds s"
    by (auto simp: poll_ready_def poll_fit_def)
  show "map_of (t_talk w) fd = Some d" using ok(1) assms(2) by simp
  show "length d < BUFSIZ" using ok(3) assms(2) by auto
qed

lemma newcomer:
  assumes "poll_ready l s w" "t_join w = Some c"
  shows "0 < c" "c < int TABLE" "c \<notin> poll_clients s" "powner (fds s) j = Some d \<Longrightarrow> d < c"
  using assms by (auto simp: poll_ready_def rising_def turn_sized_def poll_fit_def TABLE_def poll_clients_def intro: ranI)

lemma got_listening: "poll_ready l s w \<Longrightarrow> got_in (fds (poll_call (poll_feed w s) s) 0) \<longleftrightarrow> t_join w \<noteq> None"
  by (simp add: poll_call_def poll_feed_def poll_ready_def poll_fit_def)

lemma last_is:
  "poll_ready l s w \<Longrightarrow> poll_last (poll_feed w s) s = (case t_join w of None \<Rightarrow> nfds s | Some c \<Rightarrow> c)"
  using got_listening [of l s w] by (auto simp: poll_last_def poll_feed_def)

lemma got_client:
  assumes "poll_ready l s w" "1 \<le> k"
  shows "got_in (fds (poll_call (poll_feed w s) s) k) \<longleftrightarrow>
    pfd (fds s k) \<in> fst ` set (t_talk w) \<and> powner (fds s) k = Some (pfd (fds s k))"
proof
  have n: "nfds s < int TABLE" using assms(1) by (simp add: poll_ready_def poll_inv_def)
  have quiet: "\<not> got_in (fds s k)" if "nfds s < int k" using assms(1) that by (simp add: poll_ready_def poll_fit_def)
  assume g: "got_in (fds (poll_call (poll_feed w s) s) k)"
  then have k: "int k \<le> nfds s" using quiet poll_call_beyond [of s k "poll_feed w s"] by fastforce
  with g assms(2) n show "pfd (fds s k) \<in> fst ` set (t_talk w) \<and> powner (fds s) k = Some (pfd (fds s k))"
    by (auto simp: poll_call_def poll_feed_def powner_def)
next
  assume t: "pfd (fds s k) \<in> fst ` set (t_talk w) \<and> powner (fds s) k = Some (pfd (fds s k))"
  with assms(1) have "int k \<le> pfd (fds s k)" "pfd (fds s k) \<le> nfds s" "want_in (fds s k)"
    by (auto simp: poll_ready_def poll_fit_def)
  with t assms(2) show "got_in (fds (poll_call (poll_feed w s) s) k)" by (simp add: poll_call_def poll_feed_def)
qed

text \<open>A client's entry is within the range of the scan, whether or not somebody connects.\<close>

lemma in_range:
  assumes "poll_ready l s w" "powner (fds s) k = Some d"
  shows "int k \<le> d" "d \<le> poll_last (poll_feed w s) s"
proof -
  from assms have "int k \<le> d" "d \<le> nfds s" by (auto simp: poll_ready_def poll_fit_def)
  then show "int k \<le> d" "d \<le> poll_last (poll_feed w s) s"
    using last_is [OF assms(1)] newcomer(4) [OF assms(1) _ assms(2)] by (auto split: option.splits)
qed

lemma poll_feed_contract:
  assumes "poll_ready l s w"
  shows "poll_contract (poll_feed w s) s"
  unfolding poll_contract_def
proof (intro conjI impI ballI)
  assume "got_in (fds (poll_call (poll_feed w s) s) 0)"
  with got_listening [OF assms] obtain c where c: "t_join w = Some c" by auto
  from newcomer(1-3) [OF assms c] c show "0 \<le> p_accept (poll_feed w s)" "p_accept (poll_feed w s) < int TABLE"
    "p_accept (poll_feed w s) \<notin> poll_clients s"
    by (simp_all add: poll_feed_def)
next
  fix k assume k: "k \<in> set (slots_upto (poll_last (poll_feed w s) s))" "got_in (fds (poll_call (poll_feed w s) s) k)"
  then have "1 \<le> k" by simp
  from got_client [OF assms this] k(2) have t: "pfd (fds s k) \<in> fst ` set (t_talk w)" "powner (fds s) k = Some (pfd (fds s k))"
    by simp_all
  then obtain d where d: "(pfd (fds s k), d) \<in> set (t_talk w)" by auto
  have "0 \<le> pfd (fds s k)" using in_range(1) [OF assms t(2)] by simp
  with talker(2,3) [OF assms d] show "slot_ok (poll_feed w s) (fds s k)"
    by (simp add: slot_ok_def poll_feed_def short_fits)
qed (simp_all add: poll_feed_def)

lemma poll_feed_served:
  assumes "poll_ready l s w"
  shows "distinct (map fst (poll_served (poll_feed w s) s)) \<and> set (poll_served (poll_feed w s) s) = set (t_talk w)"
proof
  let ?i = "poll_feed w s"
  let ?ks = "filter (\<lambda>k. got_in (fds (poll_call ?i s) k)) (slots_upto (poll_last ?i s))"
  have served: "poll_served ?i s = map (\<lambda>k. (pfd (fds s k), slot_data ?i (fds s k))) ?ks"
    by (simp add: poll_served_def slots_served_def slot_data_def) (simp add: poll_feed_def)
  have mem: "k \<in> set ?ks \<longleftrightarrow> pfd (fds s k) \<in> fst ` set (t_talk w) \<and> powner (fds s) k = Some (pfd (fds s k))" for k
  proof
    assume "k \<in> set ?ks"
    then show "pfd (fds s k) \<in> fst ` set (t_talk w) \<and> powner (fds s) k = Some (pfd (fds s k))"
      using got_client [OF assms, of k] by simp
  next
    assume t: "pfd (fds s k) \<in> fst ` set (t_talk w) \<and> powner (fds s) k = Some (pfd (fds s k))"
    then have "1 \<le> k" "int k \<le> poll_last ?i s"
      using powner_bounds [of "fds s" k "pfd (fds s k)"] in_range [OF assms, of k "pfd (fds s k)"] by auto
    with t got_client [OF assms, of k] show "k \<in> set ?ks" by simp
  qed
  have data: "slot_data ?i (fds s k) = d" if "(pfd (fds s k), d) \<in> set (t_talk w)" for k d
    using talker(2) [OF assms that] by (simp add: slot_data_def poll_feed_def)
  have "inj_on (\<lambda>k. pfd (fds s k)) (set ?ks)"
    using assms mem by (intro inj_onI) (metis inj_ownerD poll_ready_def poll_inv_def)
  then show "distinct (map fst (poll_served ?i s))"
    by (simp add: served comp_def distinct_map)
  have "(fd, d) \<in> set (poll_served ?i s) \<longleftrightarrow> (fd, d) \<in> set (t_talk w)" for fd d
  proof
    assume "(fd, d) \<in> set (poll_served ?i s)"
    then obtain k where "k \<in> set ?ks" "fd = pfd (fds s k)" "d = slot_data ?i (fds s k)" by (auto simp: served)
    with mem [of k] data [of k] show "(fd, d) \<in> set (t_talk w)" by force
  next
    assume t: "(fd, d) \<in> set (t_talk w)"
    from talker(1) [OF assms t] obtain k where k: "powner (fds s) k = Some fd" by blast
    then have fd: "pfd (fds s k) = fd" using powner_bounds by blast
    with t k have "k \<in> set ?ks" unfolding mem by force
    with fd data [of k d] t show "(fd, d) \<in> set (poll_served ?i s)" unfolding served by force
  qed
  then show "set (poll_served ?i s) = set (t_talk w)" by auto
qed

lemma newcomer_placed:
  assumes "poll_ready l s w" "t_join w = Some c"
  shows "\<exists>j. free_slot (fds s) 1 = Some j \<and> int j \<le> c"
proof (cases "free_slot (fds s) 1")
  case None
  have "pfd (fds s 1023) \<noteq> -1" by (rule free_slot_None [OF None]) (simp_all add: TABLE_def)
  then have "powner (fds s) 1023 = Some (pfd (fds s 1023))" by (simp add: powner_def TABLE_def)
  with in_range(1) [OF assms(1) this] newcomer(2,4) [OF assms] show ?thesis by (fastforce simp: TABLE_def)
next
  case (Some j)
  note free = free_slot_Some [OF Some]
  have "int j \<le> c"
  proof (cases "j = 1")
    case False
    then have b: "1 \<le> j - 1" "j - 1 < j" "j - 1 < TABLE" using free by auto
    then have "pfd (fds s (j - 1)) \<noteq> -1" using free by blast
    then have o: "powner (fds s) (j - 1) = Some (pfd (fds s (j - 1)))" using b by (simp add: powner_def)
    from in_range(1) [OF assms(1) o] newcomer(4) [OF assms o] False free show ?thesis by simp
  qed (use newcomer(1) [OF assms] in simp)
  with Some show ?thesis by blast
qed

lemma poll_feed_joined:
  assumes "poll_ready l s w"
  shows "poll_joined (poll_feed w s) s = set_option (t_join w)"
proof (cases "t_join w")
  case None
  with got_listening [OF assms] show ?thesis by (simp add: poll_joined_def)
next
  case (Some c)
  with got_listening [OF assms] newcomer_placed [OF assms Some] show ?thesis
    by (auto simp: poll_joined_def) (simp_all add: poll_feed_def)
qed

lemma after_round_fit:
  assumes "poll_ready l s w"
  shows "poll_fit l (after_round (poll_feed w s) s)"
proof -
  let ?i = "poll_feed w s"
  let ?t = "after_round ?i s"
  have inv: "poll_inv s" and fit: "poll_fit l s" using assms by (simp_all add: poll_ready_def)
  have first: "pfd (fds (after_accept ?i s) 0) = l"
    using fit placed_quiet [OF inv, of _ ?i] free_slot_Some [of "fds s" 1]
    by (auto simp: after_accept_def Let_def add_client_def poll_fit_def split: option.splits)
  have want: "want_in (fds (after_accept ?i s) k)" for k
    using fit by (auto simp: after_accept_def Let_def add_client_def poll_fit_def poll_call_def split: option.splits)
  have n: "0 \<le> poll_last ?i s"
    using last_is [OF assms] newcomer(1) [OF assms] fit by (auto simp: poll_fit_def split: option.splits)
  have quiet: "\<not> got_in (fds ?t k)" if k: "poll_last ?i s < int k" for k
  proof
    assume g: "got_in (fds ?t k)"
    have "1 \<le> k" using k n by simp
    from after_round_beyond [OF inv this k g] got_client [OF assms this]
    have "powner (fds s) k = Some (pfd (fds s k))" by simp
    from in_range [OF assms this] k show False by simp
  qed
  have range: "int j \<le> d \<and> d \<le> poll_last ?i s" if d: "powner (fds ?t) j = Some d" for j d
  proof -
    from d have a: "powner (fds (after_accept ?i s)) j = Some d"
      by (auto simp: after_round_def Let_def powner_drop_closed split: if_splits)
    show ?thesis
    proof (cases "t_join w")
      case None
      with a got_listening [OF assms] have "powner (fds s) j = Some d" by (simp add: after_accept_def Let_def)
      from in_range [OF assms this] show ?thesis by simp
    next
      case (Some c)
      then obtain f where f: "free_slot (fds s) 1 = Some f" "int f \<le> c" using newcomer_placed [OF assms] by blast
      have c: "p_accept ?i = c" "0 \<le> c" "poll_last ?i s = c"
        using Some newcomer(1) [OF assms Some] last_is [OF assms] by (simp_all add: poll_feed_def)
      then have "powner (fds (after_accept ?i s)) = (powner (fds s))(f \<mapsto> c)"
        using got_listening [OF assms] Some ptab.alloc_owner [of c "fds (poll_call ?i s)" f] f(1)
        by (simp add: after_accept_def Let_def)
      with a have "j = f \<and> d = c \<or> powner (fds s) j = Some d" by (auto split: if_splits)
      with f(2) c in_range [OF assms, of j d] show ?thesis by auto
    qed
  qed
  have "pfd (fds ?t 0) = l" "want_in (fds ?t k)" for k
    using first want by (simp_all add: after_round_def Let_def drop_closed_def)
  moreover have "0 \<le> l" using fit by (simp add: poll_fit_def)
  ultimately show ?thesis
    using n quiet range unfolding poll_fit_def nfds_after_round by blast
qed

interpretation polw: mux_refines poll_round poll_clients poll_inv poll_contract poll_joined poll_served
  poll_feed "poll_fit l" "rising l" for l
proof unfold_locales
  fix s C w es t
  show "rising l C w \<Longrightarrow> distinct (map fst (t_talk w))" by (simp add: rising_def turn_sized_def)
  assume "poll_inv s" "poll_fit l s" "rising l (poll_clients s) w"
  then have r: "poll_ready l s w" by (simp add: poll_ready_def)
  show "poll_contract (poll_feed w s) s" by (rule poll_feed_contract [OF r])
  show "poll_joined (poll_feed w s) s = set_option (t_join w)" by (rule poll_feed_joined [OF r])
  show "distinct (map fst (poll_served (poll_feed w s) s)) \<and> set (poll_served (poll_feed w s) s) = set (t_talk w)"
    by (rule poll_feed_served [OF r])
  assume t: "poll_round (poll_feed w s) s = (es, Done t)"
  have "p_ret (poll_feed w s) \<noteq> 0" by (simp add: poll_feed_def)
  from poll_round_after [OF _ poll_feed_contract [OF r] this] r t have "t = after_round (poll_feed w s) s"
    by (auto simp: poll_ready_def)
  with after_round_fit [OF r] show "poll_fit l t" by simp
qed

section \<open>Properties\<close>

lemma poll_init_fit: "0 \<le> l \<Longrightarrow> \<forall>k. 1 \<le> k \<longrightarrow> \<not> garbage k \<Longrightarrow> poll_fit l (poll_init l garbage)"
  using powner_init [of l garbage] by (simp add: poll_fit_def) (simp add: poll_init_def)

lemma select_main_runs:
  assumes "0 \<le> l" "l < FD_SETSIZE" "bnd \<noteq> -1" "lst \<noteq> -1" "work_ok (turn_ok l) {} ws"
  shows "\<exists>es t. select_main l bnd lst (inputs select_round sel_feed (select_start l) ws) = (es, Done t) \<and>
           select_clients t = live {} ws \<and> (\<forall>fd. sent_to fd es = owed fd ws)"
proof -
  have "select_clients (select_start l) = {}" "lfd (select_start l) = l"
    by (simp_all add: select_clients_def select_start_def)
  moreover have "work_ok (turn_sized BUFSIZ l) {} ws"
    using assms(5) by (rule work_ok_mono [rotated]) (simp add: turn_sized_mono BUFSIZ_def)
  ultimately show ?thesis
    using selw.work_refines [OF select_start_inv [OF assms(1,2)], of l ws]
    by (auto simp: select_main_start [OF assms(1-4)] bindc_Done)
qed

lemma lt_main_runs:
  assumes "l \<noteq> -1" "bnd \<noteq> -1" "lst \<noteq> -1" "work_ok (turn_ok l) {} ws"
  shows "\<exists>es t. lt_main l bnd lst ep (inputs lt_round lt_feed (lt_start l ep) ws) = (es, Done t) \<and>
           lt_clients t = live {} ws \<and> (\<forall>fd. sent_to fd es = owed fd ws)"
proof -
  have "lt_clients (lt_start l ep) = {}" "lt_lfd (lt_start l ep) = l"
    by (simp_all add: lt_clients_def lt_start_def)
  with ltw.work_refines [OF lt_start_inv, of l ep l ws] assms(4) show ?thesis
    by (auto simp: lt_main_start [OF assms(1-3)] bindc_Done)
qed

text \<open>
  Claim C3. The servers over \<open>select\<close>, \<open>epoll\<close> and \<open>poll\<close> are one server to their clients.  For every workload in
  which connected clients send texts of fewer than five bytes or leave, and new connections get
  descriptors not in use, \<^verbatim>\<open>select.c\<close> and \<^verbatim>\<open>epoll_LT.c\<close>, fed with it by their system calls, do as the
  abstract server: they go on, have the same clients at the end and have sent every client the same bytes.
  \<^verbatim>\<open>poll.c\<close> does so too as long as each new descriptor is above those of the clients connected.
\<close>

theorem mux_equivalent:
  assumes "0 \<le> l" "l < FD_SETSIZE" "bnd \<noteq> -1" "lst \<noteq> -1" "\<forall>k. 1 \<le> k \<longrightarrow> \<not> garbage k"
    and "work_ok (turn_ok l) {} ws"
  shows "(\<exists>es t. select_main l bnd lst (inputs select_round sel_feed (select_start l) ws) = (es, Done t) \<and>
            select_clients t = live {} ws \<and> (\<forall>fd. sent_to fd es = owed fd ws)) \<and>
    (\<exists>es t. lt_main l bnd lst ep (inputs lt_round lt_feed (lt_start l ep) ws) = (es, Done t) \<and>
            lt_clients t = live {} ws \<and> (\<forall>fd. sent_to fd es = owed fd ws)) \<and>
    (work_ok (rising l) {} ws \<longrightarrow>
      (\<exists>es t. poll_main l bnd lst garbage (inputs poll_round poll_feed (poll_init l garbage) ws) = (es, Done t) \<and>
            poll_clients t = live {} ws \<and> (\<forall>fd. sent_to fd es = owed fd ws)))"
proof (intro conjI impI)
  show "\<exists>es t. select_main l bnd lst (inputs select_round sel_feed (select_start l) ws) = (es, Done t) \<and>
      select_clients t = live {} ws \<and> (\<forall>fd. sent_to fd es = owed fd ws)"
    by (rule select_main_runs [OF assms(1-4,6)])
  have "l \<noteq> -1" using assms(1) by simp
  then show "\<exists>es t. lt_main l bnd lst ep (inputs lt_round lt_feed (lt_start l ep) ws) = (es, Done t) \<and>
      lt_clients t = live {} ws \<and> (\<forall>fd. sent_to fd es = owed fd ws)"
    by (rule lt_main_runs [OF _ assms(3,4,6)])
  assume "work_ok (rising l) {} ws"
  moreover have "poll_clients (poll_init l garbage) = {}" by (simp add: poll_clients_def powner_init)
  ultimately show "\<exists>es t. poll_main l bnd lst garbage (inputs poll_round poll_feed (poll_init l garbage) ws) = (es, Done t) \<and>
      poll_clients t = live {} ws \<and> (\<forall>fd. sent_to fd es = owed fd ws)"
    using polw.work_refines [OF poll_start_inv [OF assms(5)] poll_init_fit [OF assms(1,5)], of ws]
    by (auto simp: poll_main_start [OF assms(1,3,4)] bindc_Done)
qed

text \<open>Two clients come, one says hi, then leaves while the other says yo.\<close>

definition demo_work :: "turn list" where
  "demo_work =
     [\<lparr>t_join = Some 5, t_talk = []\<rparr>, \<lparr>t_join = Some 6, t_talk = [(5, ''hi'')]\<rparr>,
      \<lparr>t_join = None, t_talk = [(6, ''yo''), (5, [])]\<rparr>]"

lemma demo_work_ok: "work_ok (rising 3) {} demo_work"
  by (auto simp: demo_work_def rising_def turn_sized_def after_turn_def BUFSIZ_def)

theorem mux_equivalent_witness:
  "\<exists>es1 es2 es3 t1 t2 t3.
     select_main 3 0 0 (inputs select_round sel_feed (select_start 3) demo_work) = (es1, Done t1) \<and>
     lt_main 3 0 0 4 (inputs lt_round lt_feed (lt_start 3 4) demo_work) = (es2, Done t2) \<and>
     poll_main 3 0 0 (\<lambda>_. False) (inputs poll_round poll_feed (poll_init 3 (\<lambda>_. False)) demo_work) = (es3, Done t3) \<and>
     map (sent_to 5) [es1, es2, es3] = replicate 3 (''hi'' @ [NUL]) \<and> poll_clients t3 = {6}"
proof -
  have ok: "work_ok (turn_ok 3) {} demo_work"
    by (auto simp: demo_work_def turn_sized_def after_turn_def)
  have "owed 5 demo_work = ''hi'' @ [NUL]"
    by (simp add: owed_def demo_work_def echo_of_def text_of_def NUL_def)
  moreover have "live {} demo_work = {6}"
    by (auto simp: demo_work_def after_turn_def)
  ultimately show ?thesis
    using mux_equivalent [OF _ _ _ _ _ ok, of 0 0 "\<lambda>_. False" 4] demo_work_ok
    by (auto simp: FD_SETSIZE_def numeral_3_eq_3)
qed

text \<open>
  How TCP cuts a client's bytes into the reads of the turns does not matter to a client that sends no NUL: leaving out
  the NULs that end the answers, it gets back exactly its bytes.  A NUL matters: what follows it in the same
  read is lost, so two messages that arrive together get one answer.
\<close>

definition typed :: "fd \<Rightarrow> turn list \<Rightarrow> string" where
  "typed fd ws = concat (map (\<lambda>w. concat (map snd (filter (\<lambda>x. fst x = fd) (t_talk w)))) ws)"

lemma echo_of_bytes:
  assumes "\<forall>x\<in>set xs. fst x = fd \<longrightarrow> NUL \<notin> set (snd x)"
  shows "filter (\<lambda>c. c \<noteq> NUL) (echo_of fd xs) = concat (map snd (filter (\<lambda>x. fst x = fd) xs))"
  using assms
proof (induction xs)
  case (Cons x xs)
  have "echo_of fd (x # xs) = (if fst x = fd \<and> snd x \<noteq> [] then text_of (snd x) @ [NUL] else []) @ echo_of fd xs"
    by (cases x) (simp add: echo_of_def)
  moreover have "filter (\<lambda>c. c \<noteq> NUL) (snd x) = snd x" if "NUL \<notin> set (snd x)"
    using that by (auto intro!: filter_True)
  ultimately show ?case using Cons by (auto simp: text_of_no_NUL)
qed (simp add: echo_of_def)

lemma owed_bytes:
  assumes "\<forall>w\<in>set ws. \<forall>x\<in>set (t_talk w). fst x = fd \<longrightarrow> NUL \<notin> set (snd x)"
  shows "filter (\<lambda>c. c \<noteq> NUL) (owed fd ws) = typed fd ws"
  using assms by (induction ws) (simp_all add: owed_def typed_def echo_of_bytes)

theorem stream_kept:
  assumes "0 \<le> l" "l < FD_SETSIZE" "bnd \<noteq> -1" "lst \<noteq> -1" "work_ok (turn_ok l) {} ws"
    and "\<forall>w\<in>set ws. \<forall>x\<in>set (t_talk w). fst x = fd \<longrightarrow> NUL \<notin> set (snd x)"
  shows "filter (\<lambda>c. c \<noteq> NUL) (sent_to fd (events (select_main l bnd lst (inputs select_round sel_feed (select_start l) ws))))
      = typed fd ws \<and>
    filter (\<lambda>c. c \<noteq> NUL) (sent_to fd (events (lt_main l bnd lst ep (inputs lt_round lt_feed (lt_start l ep) ws)))) = typed fd ws"
proof
  have "l \<noteq> -1" using assms(1) by simp
  from lt_main_runs [OF this assms(3-5), of ep] owed_bytes [OF assms(6)]
  show "filter (\<lambda>c. c \<noteq> NUL) (sent_to fd (events (lt_main l bnd lst ep (inputs lt_round lt_feed (lt_start l ep) ws)))) = typed fd ws"
    by auto
  from select_main_runs [OF assms(1-5)] owed_bytes [OF assms(6)]
  show "filter (\<lambda>c. c \<noteq> NUL) (sent_to fd (events (select_main l bnd lst (inputs select_round sel_feed (select_start l) ws)))) = typed fd ws"
    by auto
qed

text \<open>\<open>hello\<close> in two pieces; and one read that holds two messages, of which the second is lost.\<close>

definition pieces :: "turn list" where
  "pieces = [\<lparr>t_join = Some 5, t_talk = []\<rparr>, \<lparr>t_join = None, t_talk = [(5, ''hel'')]\<rparr>, \<lparr>t_join = None, t_talk = [(5, ''lo'')]\<rparr>]"

lemma stream_kept_witness:
  "filter (\<lambda>c. c \<noteq> NUL) (sent_to 5 (events (select_main 3 0 0 (inputs select_round sel_feed (select_start 3) pieces)))) = ''hello''"
proof -
  have "work_ok (turn_ok 3) {} pieces"
    by (auto simp: pieces_def turn_sized_def after_turn_def)
  moreover have "\<forall>w\<in>set pieces. \<forall>x\<in>set (t_talk w). fst x = 5 \<longrightarrow> NUL \<notin> set (snd x)"
    by (simp add: pieces_def NUL_def)
  moreover have "typed 5 pieces = ''hello''" by (simp add: typed_def pieces_def)
  ultimately show ?thesis using stream_kept [of 3 0 0 pieces 5] by (simp add: FD_SETSIZE_def)
qed

lemma second_message_lost:
  "owed 5 [\<lparr>t_join = None, t_talk = [(5, ''a'' @ [NUL] @ ''b'')]\<rparr>] = ''a'' @ [NUL]"
  by (simp add: owed_def echo_of_def text_of_def NUL_def)

end
