(* ===== verification/EpollET.thy ===== *)
theory EpollET
  imports Fcntl
begin

text \<open>
  \<^verbatim>\<open>NetCode/IO/_epoll/epoll_ET.c\<close>: the edge-triggered epoll server.  For every ready client it
  reads until \<open>read\<close> no longer returns bytes, which needs a non-blocking descriptor; the flag is
  set with \<open>F_SETFD\<close>.  A socket is its flags, the bytes received and not yet read, and the state
  of the peer; a \<open>read\<close> with nothing to read returns 0 when the peer has closed, fails when the
  connection is broken, and with an open peer fails (\<open>EAGAIN\<close>) or blocks.
\<close>

datatype peer = Open | Closed | Broken

record sock = descr +
  pending :: string
  peer :: peer

definition sock_read :: "nat \<Rightarrow> sock \<Rightarrow> (rdres \<times> sock) comp" where
  "sock_read n k =
     (if pending k \<noteq> [] then
        ret (RdData (take n (pending k)), k\<lparr>pending := drop n (pending k)\<rparr>)
      else
        (case peer k of
           Closed \<Rightarrow> ret (RdData [], k)
         | Broken \<Rightarrow> ret (RdErr, k)
         | Open \<Rightarrow> (if nonblocking k then ret (RdErr, k) else block)))"

lemma bindc_cong [fundef_cong]:
  "m = m' \<Longrightarrow> (\<And>es a. m' = (es, Done a) \<Longrightarrow> f a = g a) \<Longrightarrow> bindc m f = bindc m' g"
  by (auto simp: bindc_def split: prod.split outcome.split)

lemma sock_read_shrinks:
  "sock_read (Suc n) k = (es, Done (RdData d, k')) \<Longrightarrow> d \<noteq> [] \<Longrightarrow>
     length (pending k') < length (pending k)"
  by (auto simp: sock_read_def effect_simps split: if_splits peer.splits)

text \<open>The inner loop: \<open>while ((len = read(curfd, buf, 5)) > 0)\<close>; the result is the last \<open>len\<close>.\<close>

function et_drain :: "fd \<Rightarrow> sock \<Rightarrow> (int \<times> sock) comp" where
  "et_drain fd k =
     bindc (sock_read 5 k) (\<lambda>x.
       case x of
         (RdErr, k') \<Rightarrow> ret (-1, k')
       | (RdData d, k') \<Rightarrow>
           (if d \<noteq> [] then
              thenc (emit (Wr 1 d))
             (thenc (emit (Wr fd d))
             (et_drain fd k'))
            else ret (0, k')))"
  by pat_completeness auto
termination
  by (relation "measure (\<lambda>(fd, k). length (pending k))")
     (auto dest!: sock_read_shrinks [of 4, simplified])

declare et_drain.simps [simp del]

definition EAGAIN :: int where
  "EAGAIN = 11"

text \<open>After the loop. The condition in the source is the assignment \<open>errno = EAGAIN\<close>.\<close>

definition et_after :: "int \<Rightarrow> unit comp" where
  "et_after len =
     thenc (emit (Out NL))
    (if len = -1 then
       (let errno = EAGAIN in
        if errno \<noteq> 0 then emit (Out (''data over...'' @ NL))
        else thenc (emit (Perror ''read'')) (exit_with 1))
     else if len = 0 then emit (Out (''client closed...'' @ NL))
     else ret ())"

record et_state =
  et_lfd :: fd
  et_epfd :: fd
  socks :: "fd \<Rightarrow> sock option"

text \<open>
  One ready event, with what the environment adds: the result of \<open>accept\<close>, the bytes that have
  arrived on the descriptor and the state of its peer.
\<close>

record et_in =
  in_fd :: fd
  in_accept :: int
  in_data :: string
  in_peer :: peer

definition new_sock :: sock where
  "new_sock = \<lparr>status = O_RDWR, fdflags = 0, pending = [], peer = Open\<rparr>"

definition arrive :: "et_in \<Rightarrow> sock \<Rightarrow> sock" where
  "arrive e k = k\<lparr>pending := pending k @ in_data e, peer := in_peer e\<rparr>"

definition et_setup :: "sock \<Rightarrow> sock" where
  "et_setup k = (let flag = F_GETFL k; flag = flag OR O_NONBLOCK in F_SETFD flag k)"

definition et_event :: "et_in \<Rightarrow> et_state \<Rightarrow> et_state comp" where
  "et_event e s =
     (if et_lfd s = in_fd e then
        (let cfd = in_accept e in
         thenc (emit (Call ''accept'' [et_lfd s]))
        (thenc (syserr cfd ''accept'')
        (thenc (emit (Call ''epoll_ctl_add'' [et_epfd s, cfd]))
        (ret (s\<lparr>socks := (socks s)(cfd := Some (et_setup new_sock))\<rparr>)))))
      else
        (case socks s (in_fd e) of
           None \<Rightarrow> thenc (et_after (-1)) (ret s)
         | Some k \<Rightarrow>
             bindc (et_drain (in_fd e) (arrive e k)) (\<lambda>(len, k').
             thenc (et_after len)
            (ret (s\<lparr>socks := (socks s)(in_fd e := Some k')\<rparr>)))))"

fun et_events :: "et_in list \<Rightarrow> et_state \<Rightarrow> et_state comp" where
  "et_events [] s = ret s"
| "et_events (e # es) s = bindc (et_event e s) (\<lambda>t. et_events es t)"

definition et_round :: "et_in list option \<Rightarrow> et_state \<Rightarrow> et_state comp" where
  "et_round r s =
     (case r of
        None \<Rightarrow> thenc (syserr (-1) ''epoll_wait'') (ret s)
      | Some es \<Rightarrow>
          thenc (emit (Out (''ret= '' @ show_int (int (length es)) @ '' '' @ NL))) (et_events es s))"

definition et_main :: "int \<Rightarrow> int \<Rightarrow> int \<Rightarrow> fd \<Rightarrow> et_in list option list \<Rightarrow> et_state comp" where
  "et_main sock bnd lst epfd rs =
     bindc (tcp_listen sock bnd lst) (\<lambda>l.
     thenc (emit (Call ''epoll_ctl_add'' [epfd, l]))
    (rounds et_round \<lparr>et_lfd = l, et_epfd = epfd, socks = Map.empty\<rparr> rs))"

section \<open>What the loop does\<close>

text \<open>Reading in pieces of five: what is left to read decides, at the end the peer does.\<close>

lemma et_drain_unfold:
  "pending k \<noteq> [] \<Longrightarrow>
     et_drain fd k =
       (Wr 1 (take 5 (pending k)) # Wr fd (take 5 (pending k)) #
          events (et_drain fd (k\<lparr>pending := drop 5 (pending k)\<rparr>)),
        outcome (et_drain fd (k\<lparr>pending := drop 5 (pending k)\<rparr>)))"
  "pending k = [] \<Longrightarrow>
     et_drain fd k =
       ([], case peer k of
              Closed \<Rightarrow> Done (0, k)
            | Broken \<Rightarrow> Done (-1, k)
            | Open \<Rightarrow> if nonblocking k then Done (-1, k) else Block)"
  by (subst et_drain.simps, auto simp: sock_read_def effect_simps split: peer.split)+

lemma et_drain_induct [case_names empty more]:
  assumes "\<And>k. pending k = [] \<Longrightarrow> P k"
    and "\<And>k. pending k \<noteq> [] \<Longrightarrow> P (k\<lparr>pending := drop 5 (pending k)\<rparr>) \<Longrightarrow> P k"
  shows "P (k::sock)"
proof (induction "length (pending k)" arbitrary: k rule: less_induct)
  case less
  show ?case
  proof (cases "pending k = []")
    case False
    then have "length (pending (k\<lparr>pending := drop 5 (pending k)\<rparr>)) < length (pending k)"
      by simp
    with False show ?thesis using assms(2) less by blast
  qed (rule assms(1))
qed

lemma et_drain_sent:
  "fd \<noteq> 1 \<Longrightarrow> sent_to fd (events (et_drain fd k)) = pending k"
  "fd \<noteq> 1 \<Longrightarrow> sent_to 1 (events (et_drain fd k)) = pending k"
  by (induction k rule: et_drain_induct) (auto simp: et_drain_unfold)

lemma et_drain_outcome:
  "outcome (et_drain fd k) =
     (case peer k of
        Closed \<Rightarrow> Done (0, k\<lparr>pending := []\<rparr>)
      | Broken \<Rightarrow> Done (-1, k\<lparr>pending := []\<rparr>)
      | Open \<Rightarrow> if nonblocking k then Done (-1, k\<lparr>pending := []\<rparr>) else Block)"
proof (induction k rule: et_drain_induct)
  case (empty k)
  then have "k\<lparr>pending := []\<rparr> = k" by simp
  with empty show ?case by (simp add: et_drain_unfold split: peer.split)
next
  case (more k)
  then show ?case by (cases k) (simp add: et_drain_unfold nonblocking_def split: peer.split)
qed

lemma et_drain_no_close: "Cl fd' \<notin> set (events (et_drain fd k))"
  by (induction k rule: et_drain_induct) (auto simp: et_drain_unfold)

lemma et_after_Done:
  obtains es where "et_after len = (es, Done ())" "\<And>fd. sent_to fd es = []"
    "\<And>fd. Cl fd \<notin> set es" "Perror ''read'' \<notin> set es"
  by (simp add: et_after_def Let_def EAGAIN_def effect_simps)

lemma et_event_sent:
  assumes "in_fd e \<noteq> et_lfd s" "in_fd e \<noteq> 1" "socks s (in_fd e) = Some k"
  shows "sent_to (in_fd e) (events (et_event e s)) = pending k @ in_data e \<and>
    sent_to 1 (events (et_event e s)) = pending k @ in_data e"
proof -
  obtain es r where d: "et_drain (in_fd e) (arrive e k) = (es, r)" by fastforce
  with et_drain_sent [OF assms(2), of "arrive e k"] have
    sent: "sent_to (in_fd e) es = pending k @ in_data e" "sent_to 1 es = pending k @ in_data e"
    by (simp_all add: arrive_def)
  show ?thesis
  proof (cases r)
    case (Done x)
    obtain len k' where x: "x = (len, k')" by (cases x)
    obtain es' where after: "et_after len = (es', Done ())" "\<And>fd. sent_to fd es' = []"
    "\<And>fd. Cl fd \<notin> set es'" "Perror ''read'' \<notin> set es'"
    by (rule et_after_Done [of len]) (rule that; assumption)
    with d assms sent Done x show ?thesis
      by (simp add: et_event_def bindc_Done prim_effects)
  qed (use d assms sent in \<open>simp_all add: et_event_def bindc_stop\<close>)
qed

text \<open>
  How the handling of an event ends: on a non-blocking descriptor, or when the peer is gone, with everything read; on a
  blocking one whose peer is silent, never.
\<close>

lemma et_event_outcome:
  assumes "in_fd e \<noteq> et_lfd s" "socks s (in_fd e) = Some k"
  shows "outcome (et_event e s) =
    (if in_peer e = Open \<and> \<not> nonblocking k then Block
     else Done (s\<lparr>socks := (socks s)(in_fd e \<mapsto> (arrive e k)\<lparr>pending := []\<rparr>)\<rparr>))"
proof -
  obtain es r where d: "et_drain (in_fd e) (arrive e k) = (es, r)" by fastforce
  have r: "r = (case in_peer e of Closed \<Rightarrow> Done (0, (arrive e k)\<lparr>pending := []\<rparr>)
      | Broken \<Rightarrow> Done (-1, (arrive e k)\<lparr>pending := []\<rparr>)
      | Open \<Rightarrow> if nonblocking k then Done (-1, (arrive e k)\<lparr>pending := []\<rparr>) else Block)"
    using et_drain_outcome [of "in_fd e" "arrive e k"] d by (simp add: arrive_def nonblocking_def)
  show ?thesis
  proof (cases "in_peer e = Open \<and> \<not> nonblocking k")
    case False
    then obtain len where "r = Done (len, (arrive e k)\<lparr>pending := []\<rparr>)"
      using r by (cases "in_peer e") auto
    moreover obtain es' where "et_after len = (es', Done ())" by (rule et_after_Done [of len])
    ultimately show ?thesis using d assms False by (simp add: et_event_def bindc_Done prim_effects)
  qed (use d r assms in \<open>simp add: et_event_def bindc_stop\<close>)
qed

lemma et_event_no_close:
  assumes "in_fd e \<noteq> et_lfd s" "socks s (in_fd e) = Some k"
  shows "Cl fd \<notin> set (events (et_event e s))"
proof -
  obtain es r where d: "et_drain (in_fd e) (arrive e k) = (es, r)" by fastforce
  then have no: "Cl fd \<notin> set es" using et_drain_no_close [of fd "in_fd e" "arrive e k"] by simp
  show ?thesis
  proof (cases r)
    case (Done x)
    obtain len k' where x: "x = (len, k')" by (cases x)
    obtain es' where "et_after len = (es', Done ())" "\<And>fd. sent_to fd es' = []"
      "\<And>fd. Cl fd \<notin> set es'" "Perror ''read'' \<notin> set es'"
      by (rule et_after_Done [of len]) (rule that; assumption)
    with d assms no Done x show ?thesis by (simp add: et_event_def bindc_Done prim_effects)
  qed (use d assms no in \<open>simp_all add: et_event_def bindc_stop\<close>)
qed

lemma et_event_spec:
  assumes "in_fd e \<noteq> et_lfd s" "in_fd e \<noteq> 1" "socks s (in_fd e) = Some k"
  shows "sent_to (in_fd e) (events (et_event e s)) = pending k @ in_data e \<and>
    sent_to 1 (events (et_event e s)) = pending k @ in_data e \<and>
    (\<forall>fd. Cl fd \<notin> set (events (et_event e s))) \<and>
    outcome (et_event e s) =
      (if in_peer e = Open \<and> \<not> nonblocking k then Block
       else Done (s\<lparr>socks := (socks s)(in_fd e \<mapsto> (arrive e k)\<lparr>pending := []\<rparr>)\<rparr>))"
  using et_event_sent [OF assms] et_event_outcome [OF assms(1,3)] et_event_no_close [OF assms(1,3)] by simp

section \<open>Properties\<close>

text \<open>
  Claim C15. The inner loop of the edge-triggered server echoes a client's bytes exactly: whatever has
  arrived on a connected descriptor, in whatever pieces of five it is read, all of it and
  nothing else is written back to the client, NUL bytes included, and copied to standard output, each \<open>write\<close>
  being complete, as the program assumes by ignoring its result.  If the
  descriptor is non-blocking, or the client has closed or lost the connection, the handler comes back with nothing left to read;
  if it is blocking and the client is connected and silent, the handler waits for ever.  In no case is a descriptor closed.
\<close>

theorem et_echo_exact:
  assumes "in_fd e \<noteq> et_lfd s" "in_fd e \<noteq> 1" "socks s (in_fd e) = Some k"
  shows "sent_to (in_fd e) (events (et_event e s)) = pending k @ in_data e \<and>
    sent_to 1 (events (et_event e s)) = pending k @ in_data e \<and>
    (\<forall>fd. Cl fd \<notin> set (events (et_event e s))) \<and>
    outcome (et_event e s) =
      (if in_peer e = Open \<and> \<not> nonblocking k then Block
       else Done (s\<lparr>socks := (socks s)(in_fd e \<mapsto> (arrive e k)\<lparr>pending := []\<rparr>)\<rparr>))"
  by (rule et_event_spec [OF assms])

definition et_demo_state :: et_state where
  "et_demo_state = \<lparr>et_lfd = 3, et_epfd = 4, socks = [5 \<mapsto> et_setup new_sock]\<rparr>"

theorem et_echo_exact_witness:
  "sent_to 5 (events (et_event \<lparr>in_fd = 5, in_accept = -1, in_data = ''hello world'', in_peer = Open\<rparr>
     et_demo_state)) = ''hello world'' \<and>
   outcome (et_event \<lparr>in_fd = 5, in_accept = -1, in_data = ''hello world'', in_peer = Open\<rparr> et_demo_state) = Block"
  using et_echo_exact [of "\<lparr>in_fd = 5, in_accept = -1, in_data = ''hello world'', in_peer = Open\<rparr>"
      et_demo_state "et_setup new_sock"]
  by (simp add: et_demo_state_def et_setup_def new_sock_def nonblocking_def F_SETFD_def flag_defs)

text \<open>
  Claim C24. The descriptors the server registers edge-triggered are blocking: \<open>fcntl(cfd, F_SETFD, flag)\<close>
  leaves the status flags alone.  So, after echoing what a client has sent, the server waits in
  \<open>read\<close> for that one client for as long as the client keeps its connection open and sends nothing more, and does
  not come back to \<open>epoll_wait\<close>, whatever else has been reported with it or happens on other descriptors.  It does come back when
  that client closes or loses the connection.
\<close>

theorem et_blocks_on_first_client:
  assumes "in_accept c \<noteq> -1" "in_fd c = et_lfd s" "et_event c s = (tr, Done s')"
    and "in_fd e = in_accept c" "in_accept c \<noteq> et_lfd s"
  shows "(in_peer e = Open \<longrightarrow> outcome (et_round (Some (e # es)) s') = Block) \<and>
    (in_peer e \<noteq> Open \<longrightarrow> (\<exists>t. outcome (et_round (Some [e]) s') = Done t))"
proof -
  have k: "socks s' (in_fd e) = Some (et_setup new_sock)" "et_lfd s' = et_lfd s"
    using assms(1-4) by (auto simp: et_event_def Let_def effect_simps)
  have "\<not> nonblocking (et_setup new_sock)"
    by (simp add: et_setup_def new_sock_def nonblocking_def F_SETFD_def flag_defs)
  moreover have "in_fd e \<noteq> et_lfd s'" using k(2) assms(4,5) by simp
  ultimately have out: "outcome (et_event e s') =
      (if in_peer e = Open then Block
       else Done (s'\<lparr>socks := (socks s')(in_fd e \<mapsto> (arrive e (et_setup new_sock))\<lparr>pending := []\<rparr>)\<rparr>))"
    using et_event_outcome [OF _ k(1)] by simp
  show ?thesis
    using out by (cases "et_event e s'") (auto simp: et_round_def effect_simps)
qed

theorem et_blocks_on_first_client_witness:
  "\<exists>s'. et_event \<lparr>in_fd = 3, in_accept = 5, in_data = [], in_peer = Open\<rparr>
            \<lparr>et_lfd = 3, et_epfd = 4, socks = Map.empty\<rparr> =
          ([Call ''accept'' [3], Call ''epoll_ctl_add'' [4, 5]], Done s') \<and>
        outcome (et_round (Some [\<lparr>in_fd = 5, in_accept = -1, in_data = ''hi'', in_peer = Open\<rparr>]) s') = Block"
proof -
  let ?c = "\<lparr>in_fd = 3, in_accept = 5, in_data = [], in_peer = Open\<rparr>"
  let ?s = "\<lparr>et_lfd = 3, et_epfd = 4, socks = Map.empty\<rparr> :: et_state"
  let ?e = "\<lparr>in_fd = 5, in_accept = -1, in_data = ''hi'', in_peer = Open\<rparr>"
  obtain s' where s': "et_event ?c ?s = ([Call ''accept'' [3], Call ''epoll_ctl_add'' [4, 5]], Done s')"
    by (simp add: et_event_def Let_def effect_simps)
  have "outcome (et_round (Some [?e]) s') = Block"
    using et_blocks_on_first_client [OF _ _ s', of ?e "[]"] by simp
  with s' show ?thesis by blast
qed

text \<open>With \<open>F_SETFL\<close>, as the comment beside the call intends, the loop comes back.\<close>

lemma et_drain_nonblocking:
  "outcome (et_drain fd (F_SETFL (F_GETFL k OR O_NONBLOCK) k)) \<noteq> Block"
  using nonblocking_F_SETFL [of "F_GETFL k" k] by (auto simp: et_drain_outcome split: peer.split)

text \<open>
  Errors and end of file on a client's connection.  Whatever the error, the failing \<open>read\<close> is
  taken for "all read" (the test \<open>errno = EAGAIN\<close> is an assignment, so the branch that reports the
  error and exits is dead), and a client that has closed keeps its descriptor open: no
  \<open>close\<close> is ever called, the descriptor is leaked.
\<close>

theorem et_error_and_eof:
  assumes "in_fd e \<noteq> et_lfd s" "socks s (in_fd e) = Some k" "in_peer e \<noteq> Open"
  shows "\<exists>es t. et_event e s = (es, Done t) \<and> (\<forall>fd. Cl fd \<notin> set es) \<and>
    Perror ''read'' \<notin> set es \<and> socks t (in_fd e) \<noteq> None"
proof -
  let ?k = "arrive e k"
  define len :: int where "len = (if in_peer e = Closed then 0 else -1)"
  have "peer ?k = in_peer e" by (simp add: arrive_def)
  then have "outcome (et_drain (in_fd e) ?k) = Done (len, ?k\<lparr>pending := []\<rparr>)"
    using assms(3) unfolding et_drain_outcome len_def by (cases "in_peer e") simp_all
  then obtain es where d: "et_drain (in_fd e) ?k = (es, Done (len, ?k\<lparr>pending := []\<rparr>))"
    by (metis prod.collapse)
  have no_close: "\<forall>fd. Cl fd \<notin> set es"
    using et_drain_no_close [of _ "in_fd e" ?k] d by simp
  have no_err: "Perror ''read'' \<notin> set es"
  proof -
    have "Perror ''read'' \<notin> set (events (et_drain (in_fd e) k))" for k
      by (induction k rule: et_drain_induct) (auto simp: et_drain_unfold)
    from this [of ?k] d show ?thesis by simp
  qed
  obtain es' where after: "et_after len = (es', Done ())" "\<And>fd. sent_to fd es' = []"
    "\<And>fd. Cl fd \<notin> set es'" "Perror ''read'' \<notin> set es'"
    by (rule et_after_Done [of len]) (rule that; assumption)
  have "et_event e s = (es @ es', Done (s\<lparr>socks := (socks s)(in_fd e \<mapsto> ?k\<lparr>pending := []\<rparr>)\<rparr>))"
    using d assms(1,2) after(1) by (simp add: et_event_def bindc_Done prim_effects)
  with no_close no_err after show ?thesis by (intro exI conjI) (assumption | simp)+
qed

theorem et_error_and_eof_witness:
  "\<exists>es t. et_event \<lparr>in_fd = 5, in_accept = -1, in_data = ''bye'', in_peer = Broken\<rparr> et_demo_state = (es, Done t) \<and>
     (\<forall>fd. Cl fd \<notin> set es) \<and> Perror ''read'' \<notin> set es \<and> socks t 5 \<noteq> None"
  using et_error_and_eof [of "\<lparr>in_fd = 5, in_accept = -1, in_data = ''bye'', in_peer = Broken\<rparr>"
      et_demo_state "et_setup new_sock"]
  by (simp add: et_demo_state_def)

end
