(* ===== verification/Conversations.thy ===== *)
theory Conversations
  imports Clients Multiplexers EpollET
begin

text \<open>
  The clients of the repository against its servers, end to end: what the numbering client sees of the thread and the
  process server and of \<^verbatim>\<open>select.c\<close>, \<^verbatim>\<open>poll.c\<close> and \<^verbatim>\<open>epoll_ET.c\<close>, how its first message ends \<^verbatim>\<open>epoll_LT.c\<close>,
  and what becomes of the client that sends its input when the input ends.  Each server runs its own rounds on its own state,
  which goes from turn to turn; every interpretation of \<open>answering\<close> shows that it stays one in which the client is served.
\<close>

section \<open>The turns of the servers\<close>

text \<open>A round in which one client's message is reported and nobody connects.\<close>

definition select_serve :: "fd \<Rightarrow> select_state \<Rightarrow> string \<Rightarrow> select_state comp" where
  "select_serve fd s m = select_round (sel_feed (speak fd m) s) s"

definition poll_serve :: "fd \<Rightarrow> poll_state \<Rightarrow> string \<Rightarrow> poll_state comp" where
  "poll_serve fd s m = poll_round (poll_feed (speak fd m) s) s"

text \<open>The level-triggered server reads at most five bytes of a message.\<close>

definition lt_talks :: "fd \<Rightarrow> string \<Rightarrow> epoll_in" where
  "lt_talks fd d = \<lparr>ep_fd = fd, ep_accept = -1, ep_read = RdData (take 5 d)\<rparr>"

definition lt_serve :: "fd \<Rightarrow> lt_state \<Rightarrow> string \<Rightarrow> lt_state comp" where
  "lt_serve fd s m = lt_round (Some [lt_talks fd m]) s"

text \<open>
  The edge-triggered server may stay in its inner loop, waiting in \<open>read\<close> with all that has arrived echoed.  The next message
  ends that wait, and the loop goes on with it, as it does when \<open>epoll_wait\<close> has reported the message.
\<close>

definition et_talks :: "fd \<Rightarrow> string \<Rightarrow> et_in" where
  "et_talks fd d = \<lparr>in_fd = fd, in_accept = -1, in_data = d, in_peer = Open\<rparr>"

definition et_serve :: "fd \<Rightarrow> et_state \<Rightarrow> string \<Rightarrow> et_state comp" where
  "et_serve fd s m =
     (case et_event (et_talks fd m) s of
        (es, Block) \<Rightarrow> (es, Done (s\<lparr>socks := (socks s)(fd := map_option (\<lambda>k. (arrive (et_talks fd m) k)\<lparr>pending := []\<rparr>) (socks s fd))\<rparr>))
      | r \<Rightarrow> r)"

text \<open>A client that is connected and of which everything has been read.\<close>

definition et_idle :: "fd \<Rightarrow> et_state \<Rightarrow> bool" where
  "et_idle fd s \<longleftrightarrow> fd \<noteq> et_lfd s \<and> fd \<noteq> 1 \<and> (\<exists>k. socks s fd = Some k \<and> EpollET.pending k = [])"

section \<open>They answer\<close>

lemma say_able: "fd \<in> C \<Longrightarrow> length t < BUFSIZ - 1 \<Longrightarrow> turn_sized BUFSIZ l C (speak fd (t @ [NUL])) \<and> rising l C (speak fd (t @ [NUL]))"
  by (simp add: turn_sized_def rising_def speak_def)

interpretation sela: answering "select_serve fd" fd "\<lambda>s. select_inv s \<and> fd \<in> select_clients s" "BUFSIZ - 1" "[NUL]" for fd
proof unfold_locales
  fix s t
  assume "select_inv s \<and> fd \<in> select_clients s" "NUL \<notin> set t" "length t < BUFSIZ - 1"
  with selw.speak_answered [of s "lfd s" fd "t @ [NUL]"] say_able [of fd "select_clients s" t]
  show "\<exists>es u. select_serve fd s (t @ [NUL]) = (es, Done u) \<and> (select_inv u \<and> fd \<in> select_clients u) \<and>
      sent_to fd es = t @ [NUL] \<and> Cl fd \<notin> set es"
    by (fastforce simp: select_serve_def text_of_no_NUL)
qed simp

interpretation pola: answering "poll_serve fd" fd "\<lambda>s. poll_inv s \<and> poll_fit l s \<and> fd \<in> poll_clients s" "BUFSIZ - 1" "[NUL]" for fd l
proof unfold_locales
  fix s t
  assume "poll_inv s \<and> poll_fit l s \<and> fd \<in> poll_clients s" "NUL \<notin> set t" "length t < BUFSIZ - 1"
  with polw.speak_answered [of s l fd "t @ [NUL]"] say_able [of fd "poll_clients s" t]
  show "\<exists>es u. poll_serve fd s (t @ [NUL]) = (es, Done u) \<and> (poll_inv u \<and> poll_fit l u \<and> fd \<in> poll_clients u) \<and>
      sent_to fd es = t @ [NUL] \<and> Cl fd \<notin> set es"
    by (fastforce simp: poll_serve_def text_of_no_NUL)
qed simp

interpretation lta: answering "lt_serve fd" fd "\<lambda>s. lt_inv s \<and> fd \<in> lt_clients s" 5 "[NUL]" for fd
proof unfold_locales
  fix s t
  assume s: "lt_inv s \<and> fd \<in> lt_clients s" and t: "NUL \<notin> set t" "length t < 5"
  let ?m = "t @ [NUL]"
  let ?r = "Some [lt_talks fd ?m]"
  have fits: "fits 5 ?m" "take 5 ?m = ?m" using t(2) by (simp_all add: fits_def)
  have fd: "fd \<noteq> lt_lfd s" "fd \<in> interest s" using s by (auto simp: lt_clients_def)
  have "lt_ok ?r s" using fits fd by (simp add: lt_ok_def ev_ok_def lt_talks_def)
  moreover have served: "lt_served ?r s = [(fd, ?m)]" "lt_joined ?r s = {}"
    using fits(2) fd by (simp_all add: lt_served_def lt_joined_def lt_talks_def ep_data_def)
  ultimately obtain es u where u: "lt_round ?r s = (es, Done u)" "lt_inv u" "io es = answers [(fd, ?m)]" "lt_clients u = lt_clients s"
    using lt_round_spec [of s ?r] s by auto
  have "sent_to fd es = echo_of fd [(fd, ?m)]" using u(3) sent_to_io [of fd es] by (simp only: sent_to_answers)
  moreover have "Cl fd \<notin> set (io es)" using u(3) by simp
  then have "Cl fd \<notin> set es" by simp
  ultimately show "\<exists>es u. lt_serve fd s ?m = (es, Done u) \<and> (lt_inv u \<and> fd \<in> lt_clients u) \<and> sent_to fd es = ?m \<and> Cl fd \<notin> set es"
    using u(1,2,4) s t(1) by (simp add: lt_serve_def echo_of_def text_of_no_NUL)
qed simp

interpretation eta: answering "et_serve fd" fd "et_idle fd" n "[NUL]" for fd n
proof unfold_locales
  fix s t
  assume "et_idle fd s"
  then obtain k where k: "fd \<noteq> et_lfd s" "fd \<noteq> 1" "socks s fd = Some k" "EpollET.pending k = []"
    by (auto simp: et_idle_def)
  let ?e = "et_talks fd (t @ [NUL])"
  have e: "in_fd ?e = fd" "in_peer ?e = Open" "in_data ?e = t @ [NUL]" by (simp_all add: et_talks_def)
  note what = et_event_spec [of ?e s k, unfolded e, OF k(1-3)]
  then show "\<exists>es u. et_serve fd s (t @ [NUL]) = (es, Done u) \<and> et_idle fd u \<and> sent_to fd es = t @ [NUL] \<and> Cl fd \<notin> set es"
    using k by (cases "et_event ?e s") (auto simp: et_serve_def et_idle_def split: if_splits)
qed simp

text \<open>One turn of the client that sends its input: what it says and shows when its text comes back.\<close>

definition epoll_turn_events :: "fd \<Rightarrow> string option \<Rightarrow> event list" where
  "epoll_turn_events cfd l = [Wr cfd (fgets_buf l @ [NUL]), Out (''receive server: '' @ fgets_buf l @ NL)]"

lemma fgets_buf_props:
  "length (fgets_buf l) < BUFSIZ"
  "\<forall>t. l = Some t \<longrightarrow> NUL \<notin> set t \<Longrightarrow> NUL \<notin> set (fgets_buf l)"
  by (auto simp: fgets_buf_def BUFSIZ_def split: option.split dest: in_set_takeD)

lemma epoll_client_echoed:
  assumes "\<forall>l\<in>set ls. NUL \<notin> set (fgets_buf l)"
  shows "epoll_client cfd ls (map (\<lambda>l. RdData (fgets_buf l @ [NUL])) ls) = (concat (map (epoll_turn_events cfd) ls), Block)"
  using assms
proof (induction ls)
  case (Cons l ls)
  from Cons.prems have "text_turn cfd (fgets_buf l) (RdData (fgets_buf l @ [NUL])) =
      ([Wr cfd (fgets_buf l @ [NUL]), Out (''receive server: '' @ fgets_buf l @ NL)], Done True)"
    using text_turn_echoed [OF _ _ fgets_buf_props(1), of l "fgets_buf l @ [NUL]" cfd] by simp
  with Cons show ?case by (simp add: effect_simps epoll_turn_events_def)
qed (simp add: effect_simps)

section \<open>Properties\<close>

text \<open>What is said of a server: in a conversation with it the numbering client shows what it has sent.\<close>

definition numbers_echoed :: "('s \<Rightarrow> string \<Rightarrow> 's comp) \<Rightarrow> fd \<Rightarrow> 's \<Rightarrow> int \<Rightarrow> int \<Rightarrow> nat \<Rightarrow> bool" where
  "numbers_echoed srv fd s sock conn n \<longleftrightarrow>
     io_main sock conn (replies srv fd s (numbered n)) =
       (Call ''connect'' [sock, 9527] #
          concat (map (\<lambda>k. io_turn_events sock (int k)) [0..<n]) @ [Wr sock (io_text (int n) @ [NUL])], Block)"


context answering
begin

lemma numbers:
  assumes "good s" "32 \<le> cap" "int n < 2 ^ 31" "sock \<noteq> -1" "conn \<noteq> -1"
  shows "numbers_echoed srv fd s sock conn n"
  unfolding numbers_echoed_def mains_connected(1) [OF assms(4,5)]
  using numbering [OF assms(1-3), of sock] by (simp add: effect_simps)

lemma lines_shown:
  assumes "good s" "tail = [NUL]" "sock \<noteq> -1" "conn \<noteq> -1" "\<forall>l\<in>set ls. NUL \<notin> set (fgets_buf l) \<and> length (fgets_buf l) < cap"
  shows "epoll_client_main sock conn ls (replies srv fd s (map (\<lambda>l. fgets_buf l @ [NUL]) ls)) =
    (Call ''connect'' [sock, 9527] # concat (map (epoll_turn_events sock) ls), Block)"
proof -
  have "replies srv fd s (map (\<lambda>t. t @ [NUL]) (map fgets_buf ls)) = map (\<lambda>t. RdData (t @ tail)) (map fgets_buf ls)"
    by (rule replies_texts [OF assms(1)]) (use assms(2,5) in auto)
  then have "replies srv fd s (map (\<lambda>l. fgets_buf l @ [NUL]) ls) = map (\<lambda>l. RdData (fgets_buf l @ [NUL])) ls"
    using assms(2) by (simp add: comp_def)
  with epoll_client_echoed [of ls sock] assms(5) show ?thesis
    unfolding mains_connected(2) [OF assms(3,4)] by (simp add: effect_simps)
qed

end



text \<open>The client that sends its input, against the edge-triggered server, or with lines of at most four characters against the
  level-triggered one: each line comes back and is shown.  At the end of the input the program does not stop: it sends an
  empty text again and again, and shows the answers.\<close>

theorem epoll_client_end_to_end:
  assumes "sock \<noteq> -1" "conn \<noteq> -1" "\<forall>l\<in>set ls. \<forall>t. l = Some t \<longrightarrow> NUL \<notin> set t"
  shows "(et_idle fd s \<longrightarrow>
      epoll_client_main sock conn (ls @ replicate n None)
        (replies (et_serve fd) fd s (map (\<lambda>l. fgets_buf l @ [NUL]) (ls @ replicate n None))) =
      (Call ''connect'' [sock, 9527] # concat (map (epoll_turn_events sock) ls) @
         concat (replicate n [Wr sock [NUL], Out (''receive server: '' @ NL)]), Block)) \<and>
    (lt_inv u \<longrightarrow> fd \<in> lt_clients u \<longrightarrow> (\<forall>l\<in>set ls. length (fgets_buf l) < 5) \<longrightarrow>
      epoll_client_main sock conn (ls @ replicate n None)
        (replies (lt_serve fd) fd u (map (\<lambda>l. fgets_buf l @ [NUL]) (ls @ replicate n None))) =
      (Call ''connect'' [sock, 9527] # concat (map (epoll_turn_events sock) ls) @
         concat (replicate n [Wr sock [NUL], Out (''receive server: '' @ NL)]), Block))"
proof -
  let ?ls = "ls @ replicate n None"
  have none: "fgets_buf None = []" by (simp add: fgets_buf_def)
  then have turns: "concat (map (epoll_turn_events sock) ?ls) = concat (map (epoll_turn_events sock) ls) @
      concat (replicate n [Wr sock [NUL], Out (''receive server: '' @ NL)])"
    by (simp add: epoll_turn_events_def)
  have nul: "\<forall>l\<in>set ?ls. NUL \<notin> set (fgets_buf l)"
  proof
    fix l assume "l \<in> set ?ls"
    with assms(3) show "NUL \<notin> set (fgets_buf l)" by (intro fgets_buf_props(2)) (auto split: if_splits)
  qed
  show ?thesis
  proof (intro conjI impI)
    assume "et_idle fd s"
    from eta.lines_shown [OF this _ assms(1,2), of ?ls BUFSIZ] nul fgets_buf_props(1) turns
    show "epoll_client_main sock conn ?ls (replies (et_serve fd) fd s (map (\<lambda>l. fgets_buf l @ [NUL]) ?ls)) =
      (Call ''connect'' [sock, 9527] # concat (map (epoll_turn_events sock) ls) @
         concat (replicate n [Wr sock [NUL], Out (''receive server: '' @ NL)]), Block)"
      by simp
  next
    assume u: "lt_inv u" "fd \<in> lt_clients u" "\<forall>l\<in>set ls. length (fgets_buf l) < 5"
    then have "\<forall>l\<in>set ?ls. length (fgets_buf l) < 5" using none by auto
    with lta.lines_shown [OF conjI [OF u(1,2)] _ assms(1,2), of ?ls] nul turns
    show "epoll_client_main sock conn ?ls (replies (lt_serve fd) fd u (map (\<lambda>l. fgets_buf l @ [NUL]) ?ls)) =
      (Call ''connect'' [sock, 9527] # concat (map (epoll_turn_events sock) ls) @
         concat (replicate n [Wr sock [NUL], Out (''receive server: '' @ NL)]), Block)"
      by simp
  qed
qed

definition lt_two :: lt_state where
  "lt_two = \<lparr>lt_lfd = 3, lt_epfd = 4, interest = {3, 5}\<rparr>"

lemma epoll_client_end_to_end_witness:
  "events (epoll_client_main 3 0 ([Some ''hi''] @ replicate 2 None)
      (replies (lt_serve 5) 5 lt_two (map (\<lambda>l. fgets_buf l @ [NUL]) ([Some ''hi''] @ replicate 2 None)))) =
   Call ''connect'' [3, 9527] # concat (map (epoll_turn_events 3) [Some ''hi'']) @
     concat (replicate 2 [Wr 3 [NUL], Out (''receive server: '' @ NL)])"
  using epoll_client_end_to_end [of 3 0 "[Some ''hi'']" 5 et_demo_state 2 lt_two]
  by (simp add: lt_two_def lt_inv_def lt_clients_def fgets_buf_def BUFSIZ_def NUL_def)

text \<open>The level-triggered server does not survive the clients of the repository: already the first message of the
  numbering client, and every line of five or more characters of the other one, fills its buffer without a NUL.\<close>

theorem lt_server_undone:
  assumes "fd \<noteq> lt_lfd s" "t = io_text i \<or> t = fgets_buf l \<and> 5 \<le> length t \<and> NUL \<notin> set t"
  shows "outcome (lt_event (lt_talks fd (t @ [NUL])) s) = Undef"
proof -
  have "length (take 5 (t @ [NUL])) = 5" "NUL \<notin> set (take 5 (t @ [NUL]))"
    using assms(2) by (auto simp: io_text_def NUL_def dest: in_set_takeD)
  with lt_overrun [of "lt_talks fd (t @ [NUL])" s] assms(1) show ?thesis
    by (simp add: lt_talks_def)
qed

lemma lt_server_undone_witness:
  "outcome (lt_event (lt_talks 5 (''hello'' @ [NUL])) (lt_start 3 4)) = Undef"
  using lt_server_undone [of 5 "lt_start 3 4" "''hello''" 0 "Some ''hello''"]
  by (simp add: lt_start_def fgets_buf_def BUFSIZ_def NUL_def)

end
