(* ===== verification/Tickets.thy ===== *)
theory Tickets
  imports CString Mutex
begin

text \<open>
  The ticket windows of \<^verbatim>\<open>thread_synchornization\<close>: \<^verbatim>\<open>sell_tickets.c\<close> without a lock, \<^verbatim>\<open>mutex.c\<close> with one, and
  \<^verbatim>\<open>deadLock.c\<close>, which locks twice.  Three threads run the same function on the global \<open>ticket\<close>; a
  step is one access to it, one mutex call or one \<open>printf\<close> of one thread, or one \<open>pthread_create\<close> or
  \<open>pthread_join\<close> of the main thread.  \<open>ticket--\<close> is a load and a store.  A default mutex is not
  recursive: locking one that is held, by whomever, blocks.
\<close>

section \<open>What the three programs share\<close>

datatype tk_main_pc = Create nat | Join nat | Gone

record 'p tk =
  ticket :: int
  mutex :: "nat option"
  windows :: "'p list"
  main_pc :: tk_main_pc
  sold :: "(nat \<times> int) list"

datatype tk_label = Main | Win nat

text \<open>\<open>main\<close>: three threads are created, then joined in order, then the thread exits.\<close>

definition tk_main :: "'p \<Rightarrow> 'p \<Rightarrow> 'p tk \<Rightarrow> 'p tk option" where
  "tk_main begin_pc over s =
     (case main_pc s of
        Create k \<Rightarrow> Some (s\<lparr>windows := windows s @ [begin_pc], main_pc := (if k = 2 then Join 0 else Create (Suc k))\<rparr>)
      | Join k \<Rightarrow>
          (if windows s ! k = over then Some (s\<lparr>main_pc := (if k = 2 then Gone else Join (Suc k))\<rparr>) else None)
      | Gone \<Rightarrow> None)"

definition tk_init :: "int \<Rightarrow> 'p tk" where
  "tk_init n = \<lparr>ticket = n, mutex = None, windows = [], main_pc = Create 0, sold = []\<rparr>"

definition at_pc :: "nat \<Rightarrow> 'p \<Rightarrow> 'p tk \<Rightarrow> 'p tk" where
  "at_pc i p s = s\<lparr>windows := (windows s)[i := p]\<rparr>"

definition sell :: "nat \<Rightarrow> 'p tk \<Rightarrow> 'p tk" where
  "sell i s = s\<lparr>sold := sold s @ [(i, ticket s)]\<rparr>"

text \<open>The main thread has created as many threads as it says.\<close>

definition main_ok :: "'p \<Rightarrow> 'p tk \<Rightarrow> bool" where
  "main_ok over s \<longleftrightarrow>
     (case main_pc s of
        Create k \<Rightarrow> k < 3 \<and> length (windows s) = k
      | Join k \<Rightarrow> k < 3 \<and> length (windows s) = 3 \<and> (\<forall>j < k. windows s ! j = over)
      | Gone \<Rightarrow> length (windows s) = 3 \<and> (\<forall>j < 3. windows s ! j = over))"

definition main_fuel :: "nat \<Rightarrow> tk_main_pc \<Rightarrow> nat" where
  "main_fuel c m = (case m of Create k \<Rightarrow> (3 - k) * (c + 1) + 3 | Join k \<Rightarrow> 3 - k | Gone \<Rightarrow> 0)"

lemma main_ok_init [simp]: "main_ok over (tk_init n)"
  by (simp add: main_ok_def tk_init_def)

lemma main_ok_main: "main_ok over s \<Longrightarrow> tk_main b over s = Some t \<Longrightarrow> main_ok over t"
  by (auto simp: main_ok_def tk_main_def less_Suc_eq numeral_eq_Suc split: tk_main_pc.splits if_splits)

lemma main_ok_pc: "main_ok over s \<Longrightarrow> windows s ! i \<noteq> over \<Longrightarrow> main_ok over (at_pc i p s)"
  by (auto simp: main_ok_def at_pc_def split: tk_main_pc.splits) (metis nth_list_update_neq)+

lemma main_ok_cong [simp]:
  "main_ok over (s\<lparr>mutex := m\<rparr>) = main_ok over s"
  "main_ok over (s\<lparr>ticket := n\<rparr>) = main_ok over s"
  "main_ok over (s\<lparr>sold := x\<rparr>) = main_ok over s"
  by (simp_all add: main_ok_def split: tk_main_pc.split)

lemma at_pc_simps [simp]:
  "windows (at_pc i p s) = (windows s)[i := p]"
  "mutex (at_pc i p s) = mutex s" "ticket (at_pc i p s) = ticket s" "sold (at_pc i p s) = sold s"
  "main_pc (at_pc i p s) = main_pc s"
  "mutex (sell i s) = mutex s" "ticket (sell i s) = ticket s" "windows (sell i s) = windows s"
  "main_pc (sell i s) = main_pc s" "sold (sell i s) = sold s @ [(i, ticket s)]"
  by (simp_all add: at_pc_def sell_def)

lemma tk_main_simps:
  assumes "tk_main b over s = Some t"
  shows "mutex t = mutex s" "ticket t = ticket s" "sold t = sold s"
    "windows t = windows s \<or> windows t = windows s @ [b]"
  using assms by (auto simp: tk_main_def split: tk_main_pc.splits if_splits)

section \<open>mutex.c\<close>

datatype mx_pc = WWhile | WLock | WIf | WPrint | WDec | WUnlockElse | WUnlock | WOver

definition mx_window :: "nat \<Rightarrow> mx_pc tk \<Rightarrow> mx_pc tk option" where
  "mx_window i s =
     (case windows s ! i of
        WWhile \<Rightarrow> Some (at_pc i (if ticket s > 0 then WLock else WOver) s)
      | WLock \<Rightarrow> (if mutex s = None then Some (at_pc i WIf (s\<lparr>mutex := Some i\<rparr>)) else None)
      | WIf \<Rightarrow> Some (at_pc i (if ticket s > 0 then WPrint else WUnlockElse) s)
      | WPrint \<Rightarrow> Some (at_pc i WDec (sell i s))
      | WDec \<Rightarrow> Some (at_pc i WUnlock (s\<lparr>ticket := ticket s - 1\<rparr>))
      | WUnlockElse \<Rightarrow> Some (at_pc i WOver (s\<lparr>mutex := None\<rparr>))
      | WUnlock \<Rightarrow> Some (at_pc i WWhile (s\<lparr>mutex := None\<rparr>))
      | WOver \<Rightarrow> None)"

definition mx_step :: "mx_pc tk \<Rightarrow> tk_label \<Rightarrow> mx_pc tk option" where
  "mx_step s l =
     (case l of
        Main \<Rightarrow> tk_main WWhile WOver s
      | Win i \<Rightarrow> (if i < length (windows s) then mx_window i s else None))"

definition mx_init :: "mx_pc tk" where
  "mx_init = tk_init 1000"

definition in_cs :: "mx_pc \<Rightarrow> bool" where
  "in_cs p \<longleftrightarrow> p \<in> {WIf, WPrint, WDec, WUnlockElse, WUnlock}"

lemma in_cs_simps [simp]:
  "in_cs WIf" "in_cs WPrint" "in_cs WDec" "in_cs WUnlockElse" "in_cs WUnlock"
  "\<not> in_cs WWhile" "\<not> in_cs WLock" "\<not> in_cs WOver"
  by (simp_all add: in_cs_def)

text \<open>
  The mutex is held by the one thread between its calls; the tickets sold are the ones from 1000
  downwards, one of them already printed while its seller is about to decrement.
\<close>

definition mid_sale :: "mx_pc tk \<Rightarrow> bool" where
  "mid_sale s = (case mutex s of None \<Rightarrow> False | Some i \<Rightarrow> windows s ! i = WDec)"

definition stock_pc :: "int \<Rightarrow> mx_pc \<Rightarrow> bool" where
  "stock_pc n p \<longleftrightarrow>
     (p = WPrint \<or> p = WDec \<longrightarrow> 0 < n) \<and> (p = WOver \<or> p = WUnlockElse \<longrightarrow> n = 0)"

lemma stock_pc_simps [simp]:
  "stock_pc n WWhile" "stock_pc n WLock" "stock_pc n WIf" "stock_pc n WUnlock"
  "stock_pc n WPrint \<longleftrightarrow> 0 < n" "stock_pc n WDec \<longleftrightarrow> 0 < n"
  "stock_pc n WOver \<longleftrightarrow> n = 0" "stock_pc n WUnlockElse \<longleftrightarrow> n = 0"
  by (auto simp: stock_pc_def)

definition mx_stock :: "mx_pc tk \<Rightarrow> bool" where
  "mx_stock s \<longleftrightarrow> 0 \<le> ticket s \<and> ticket s \<le> 1000 \<and>
     (\<forall>p\<in>set (windows s). stock_pc (ticket s) p) \<and>
     map snd (sold s) = rev [ticket s + 1..1000] @ (if mid_sale s then [ticket s] else [])"

definition mx_inv :: "mx_pc tk \<Rightarrow> bool" where
  "mx_inv s \<longleftrightarrow> main_ok WOver s \<and> owned in_cs (mutex s) (windows s) \<and> mx_stock s"

lemma mx_inv_init: "mx_inv mx_init"
  by (simp add: mx_inv_def mx_stock_def mx_init_def mid_sale_def) (simp add: tk_init_def)

lemma mx_inv_main:
  assumes "mx_inv s" "tk_main WWhile WOver s = Some t"
  shows "mx_inv t"
proof -
  note t = tk_main_simps [OF assms(2)]
  have "main_ok WOver t" using assms main_ok_main by (auto simp: mx_inv_def)
  moreover have "owned in_cs (mutex t) (windows t)"
    using assms(1) t by (auto simp: mx_inv_def owned_new)
  moreover have "mid_sale t = mid_sale s"
    using assms(1) t owned_lt [of in_cs _ "windows s"]
    by (auto simp: mx_inv_def mid_sale_def nth_append split: option.splits)
  ultimately show ?thesis
    using assms(1) t by (auto simp: mx_inv_def mx_stock_def)
qed

lemma mx_window_main_ok: "main_ok WOver s \<Longrightarrow> mx_window i s = Some t \<Longrightarrow> main_ok WOver t"
  by (cases "windows s ! i")
     (auto simp: mx_window_def sell_def intro!: main_ok_pc split: if_splits)

lemma mx_window_owned:
  assumes "owned in_cs (mutex s) (windows s)" "i < length (windows s)" "mx_window i s = Some t"
  shows "owned in_cs (mutex t) (windows t)"
  using assms owned_leave [OF assms(1,2)]
  by (cases "windows s ! i") (auto simp: mx_window_def owned_stay owned_enter split: if_splits)

lemma mx_dec_others:
  assumes "owned in_cs (mutex s) (windows s)" "mx_stock s" "i < length (windows s)" "windows s ! i = WDec"
    and "j < length (windows s)" "j \<noteq> i"
  shows "stock_pc (ticket s - 1) (windows s ! j)"
proof -
  have "\<not> in_cs (windows s ! j)" using assms owned_excl [OF assms(1,3,5)] by auto
  moreover have "stock_pc (ticket s) (windows s ! j)" "stock_pc (ticket s) (windows s ! i)"
    using assms(2,3,5) by (simp_all add: mx_stock_def)
  ultimately show ?thesis using assms(4) by (cases "windows s ! j") simp_all
qed

lemma mx_window_stock:
  assumes "owned in_cs (mutex s) (windows s)" "mx_stock s" "i < length (windows s)" "mx_window i s = Some t"
  shows "mx_stock t"
proof -
  note stock = assms(2) [unfolded mx_stock_def]
  have here: "stock_pc (ticket s) (windows s ! i)" using stock assms(3) by simp
  have rec: "rev [ticket s..1000] = rev [ticket s + 1..1000] @ [ticket s]"
    using stock by (simp add: upto_rec1)
  have own: "in_cs (windows s ! i) \<longleftrightarrow> mutex s = Some i" by (rule owned_crit [OF assms(1,3)])
  have upd: "\<forall>p\<in>set ((windows s)[i := q]). stock_pc (ticket s) p" if "stock_pc (ticket s) q" for q
    using stock that by (intro ball_update) auto
  have mid: "mid_sale (at_pc i q s) = mid_sale s" if "mutex s \<noteq> Some i" for q
    using that by (auto simp: mid_sale_def split: option.splits)
  show ?thesis
  proof (cases "windows s ! i")
    case WDec
    have "\<forall>p\<in>set ((windows s)[i := WUnlock]). stock_pc (ticket s - 1) p"
      by (rule ball_update_other) (use mx_dec_others [OF assms(1-3) WDec] in simp_all)
    then show ?thesis
      using WDec stock own here assms(3,4) rec by (auto simp: mx_stock_def mx_window_def mid_sale_def)
  next
    case WWhile
    then show ?thesis using stock own here assms(4) upd [of WLock] upd [of WOver] mid
      by (auto simp: mx_stock_def mx_window_def split: if_splits)
  qed (use stock own here assms(3,4) upd [of WIf] upd [of WPrint] upd [of WUnlockElse] upd [of WDec]
         upd [of WOver] upd [of WWhile] in
        \<open>auto simp: mx_stock_def mx_window_def mid_sale_def split: if_splits\<close>)
qed

lemma mx_inv_step: "mx_inv s \<Longrightarrow> mx_step s l = Some t \<Longrightarrow> mx_inv t"
proof (cases l)
  case Main
  assume "mx_inv s" "mx_step s l = Some t"
  with Main show ?thesis using mx_inv_main by (simp add: mx_step_def)
next
  case (Win i)
  assume "mx_inv s" "mx_step s l = Some t"
  with Win have "i < length (windows s)" "mx_window i s = Some t" "mx_inv s"
    by (auto simp: mx_step_def split: if_splits)
  then show ?thesis
    using mx_window_main_ok mx_window_owned mx_window_stock unfolding mx_inv_def by blast
qed

text \<open>Every iteration of a window sells a ticket or ends the window.\<close>

definition mx_weight :: "mx_pc \<Rightarrow> nat" where
  "mx_weight p =
     (case p of WWhile \<Rightarrow> 5 | WLock \<Rightarrow> 4 | WIf \<Rightarrow> 3 | WPrint \<Rightarrow> 2 | WDec \<Rightarrow> 1
      | WUnlockElse \<Rightarrow> 1 | WUnlock \<Rightarrow> 6 | WOver \<Rightarrow> 0)"

definition mx_fuel :: "mx_pc tk \<Rightarrow> nat" where
  "mx_fuel s = 6 * nat (ticket s) + sum_list (map mx_weight (windows s)) + main_fuel 5 (main_pc s)"

lemma mx_fuel_main:
  assumes "mx_inv s" "tk_main WWhile WOver s = Some t"
  shows "mx_fuel t < mx_fuel s"
  using assms
  by (auto simp: mx_inv_def main_ok_def mx_fuel_def tk_main_def main_fuel_def mx_weight_def
      split: tk_main_pc.splits if_splits)

lemma mx_fuel_window:
  assumes "mx_inv s" "i < length (windows s)" "mx_window i s = Some t"
  shows "mx_fuel t < mx_fuel s"
proof -
  note sum = sum_list_update_nat [OF assms(2), of mx_weight]
  have "stock_pc (ticket s) (windows s ! i)"
    using assms(1,2) by (simp add: mx_inv_def mx_stock_def)
  then show ?thesis
    using assms(3) sum [of WLock] sum [of WOver] sum [of WIf] sum [of WPrint] sum [of WUnlockElse]
      sum [of WDec] sum [of WUnlock] sum [of WWhile]
    by (cases "windows s ! i") (auto simp: mx_window_def mx_fuel_def mx_weight_def split: if_splits)
qed

lemma mx_fuel_step: "mx_inv s \<Longrightarrow> mx_step s l = Some t \<Longrightarrow> mx_fuel t < mx_fuel s"
  using mx_fuel_main mx_fuel_window by (auto simp: mx_step_def split: tk_label.splits if_splits)

interpretation mx: bounded_system mx_step mx_init mx_inv mx_fuel
  by unfold_locales (auto intro: mx_inv_init mx_inv_step mx_fuel_step)

interpretation mxm: mutex_system mx_step mx_init mx_inv in_cs mutex windows
  by unfold_locales (simp add: mx_inv_def)

text \<open>When nothing can move, every window is over and the main thread has joined them all.\<close>

lemma mx_stuck_over:
  assumes "mx_inv s" "stuck mx_step s"
  shows "main_pc s = Gone" "ticket s = 0" "mutex s = None"
proof -
  have own: "owned in_cs (mutex s) (windows s)" using assms(1) by (simp add: mx_inv_def)
  have none: "mx_window i s = None" if "i < length (windows s)" for i
  proof -
    have "mx_step s (Win i) = None" using assms(2) by (simp add: stuck_def)
    with that show ?thesis by (simp add: mx_step_def)
  qed
  show free: "mutex s = None"
  proof (cases "mutex s")
    case (Some i)
    with own have "i < length (windows s)" "in_cs (windows s ! i)"
      using owned_lt owned_holder by fastforce+
    with none [of i] show ?thesis by (cases "windows s ! i") (auto simp: mx_window_def)
  qed
  have over: "windows s ! i = WOver" if "i < length (windows s)" for i
    using none [OF that] free by (cases "windows s ! i") (auto simp: mx_window_def)
  have "mx_step s Main = None" using assms(2) by (simp add: stuck_def)
  then have "tk_main WWhile WOver s = None" by (simp add: mx_step_def)
  then show gone: "main_pc s = Gone"
    using over assms(1) by (auto simp: tk_main_def mx_inv_def main_ok_def split: tk_main_pc.splits if_splits)
  then have "0 < length (windows s)" using assms(1) by (simp add: mx_inv_def main_ok_def)
  then have "WOver \<in> set (windows s)" using over nth_mem by metis
  then show "ticket s = 0" using assms(1) by (auto simp: mx_inv_def mx_stock_def)
qed

section \<open>deadLock.c\<close>

text \<open>
  The same window with the lock taken twice.  Unlocking a mutex that one does not hold is undefined in
  POSIX; the model frees it, and no reachable state comes to an unlock.
\<close>

datatype dl_pc =
  DWhile | DLock1 | DLock2 | DIf | DPrint | DDec | DUnlockElse | DUnlock1 | DUnlock2 | DOver

definition dl_window :: "nat \<Rightarrow> dl_pc tk \<Rightarrow> dl_pc tk option" where
  "dl_window i s =
     (case windows s ! i of
        DWhile \<Rightarrow> Some (at_pc i (if ticket s > 0 then DLock1 else DOver) s)
      | DLock1 \<Rightarrow> (if mutex s = None then Some (at_pc i DLock2 (s\<lparr>mutex := Some i\<rparr>)) else None)
      | DLock2 \<Rightarrow> (if mutex s = None then Some (at_pc i DIf (s\<lparr>mutex := Some i\<rparr>)) else None)
      | DIf \<Rightarrow> Some (at_pc i (if ticket s > 0 then DPrint else DUnlockElse) s)
      | DPrint \<Rightarrow> Some (at_pc i DDec (sell i s))
      | DDec \<Rightarrow> Some (at_pc i DUnlock1 (s\<lparr>ticket := ticket s - 1\<rparr>))
      | DUnlockElse \<Rightarrow> Some (at_pc i DOver (s\<lparr>mutex := None\<rparr>))
      | DUnlock1 \<Rightarrow> Some (at_pc i DUnlock2 (s\<lparr>mutex := None\<rparr>))
      | DUnlock2 \<Rightarrow> Some (at_pc i DWhile (s\<lparr>mutex := None\<rparr>))
      | DOver \<Rightarrow> None)"

definition dl_step :: "dl_pc tk \<Rightarrow> tk_label \<Rightarrow> dl_pc tk option" where
  "dl_step s l =
     (case l of
        Main \<Rightarrow> tk_main DWhile DOver s
      | Win i \<Rightarrow> (if i < length (windows s) then dl_window i s else None))"

definition dl_init :: "dl_pc tk" where
  "dl_init = tk_init 1000"

definition dl_cs :: "dl_pc \<Rightarrow> bool" where
  "dl_cs p \<longleftrightarrow> p = DLock2"

definition dl_inv :: "dl_pc tk \<Rightarrow> bool" where
  "dl_inv s \<longleftrightarrow> main_ok DOver s \<and> owned dl_cs (mutex s) (windows s) \<and>
     (\<forall>p\<in>set (windows s). p = DWhile \<or> p = DLock1 \<or> p = DLock2) \<and>
     ticket s = 1000 \<and> sold s = []"

definition dl_fuel :: "dl_pc tk \<Rightarrow> nat" where
  "dl_fuel s =
     sum_list (map (\<lambda>p. if p = DWhile then 2 else if p = DLock1 then 1 else 0) (windows s)) + main_fuel 2 (main_pc s)"

lemma dl_inv_init: "dl_inv dl_init"
  by (simp add: dl_inv_def dl_init_def) (simp add: tk_init_def)

lemma dl_inv_main: "dl_inv s \<Longrightarrow> tk_main DWhile DOver s = Some t \<Longrightarrow> dl_inv t"
  using main_ok_main [of DOver s DWhile t] tk_main_simps [of DWhile DOver s t]
  by (auto simp: dl_inv_def owned_new dl_cs_def)

lemma dl_window_cases:
  assumes "dl_inv s" "i < length (windows s)" "dl_window i s = Some t"
  shows "windows s ! i = DWhile \<and> t = at_pc i DLock1 s \<or>
    windows s ! i = DLock1 \<and> mutex s = None \<and> t = at_pc i DLock2 (s\<lparr>mutex := Some i\<rparr>)"
proof -
  have "windows s ! i \<in> {DWhile, DLock1, DLock2}" using assms(1,2) nth_mem by (fastforce simp: dl_inv_def)
  moreover have "dl_cs (windows s ! i) \<longleftrightarrow> mutex s = Some i"
    using assms(1,2) by (simp add: dl_inv_def owned_crit)
  moreover have "ticket s = 1000" using assms(1) by (simp add: dl_inv_def)
  ultimately show ?thesis using assms(3) by (auto simp: dl_window_def dl_cs_def split: if_splits)
qed

lemma dl_inv_window:
  assumes "dl_inv s" "i < length (windows s)" "dl_window i s = Some t"
  shows "dl_inv t"
proof -
  have own: "owned dl_cs (mutex s) (windows s)" and pcs: "\<forall>p\<in>set (windows s). p = DWhile \<or> p = DLock1 \<or> p = DLock2"
    using assms(1) by (auto simp: dl_inv_def)
  from dl_window_cases [OF assms] show ?thesis
  proof (elim disjE conjE)
    assume t: "windows s ! i = DWhile" "t = at_pc i DLock1 s"
    with assms(1) own ball_update [OF pcs, of DLock1 i] show ?thesis
      by (simp add: dl_inv_def main_ok_pc owned_stay dl_cs_def)
  next
    assume t: "windows s ! i = DLock1" "mutex s = None" "t = at_pc i DLock2 (s\<lparr>mutex := Some i\<rparr>)"
    with assms(1,2) own ball_update [OF pcs, of DLock2 i] show ?thesis
      by (simp add: dl_inv_def main_ok_pc owned_enter dl_cs_def)
  qed
qed

lemma dl_inv_step: "dl_inv s \<Longrightarrow> dl_step s l = Some t \<Longrightarrow> dl_inv t"
  by (cases l) (auto simp: dl_step_def intro: dl_inv_main dl_inv_window split: if_splits)

lemma dl_fuel_step:
  assumes "dl_inv s" "dl_step s l = Some t"
  shows "dl_fuel t < dl_fuel s"
proof (cases l)
  case Main
  with assms show ?thesis
    by (auto simp: dl_inv_def main_ok_def dl_step_def dl_fuel_def tk_main_def main_fuel_def
        split: tk_main_pc.splits if_splits)
next
  case (Win i)
  let ?w = "\<lambda>p. if p = DWhile then 2 else if p = DLock1 then 1 else (0::nat)"
  from Win assms(2) have i: "i < length (windows s)" "dl_window i s = Some t"
    by (auto simp: dl_step_def split: if_splits)
  from dl_window_cases [OF assms(1) i] sum_list_update_nat [OF i(1), of ?w DLock1]
    sum_list_update_nat [OF i(1), of ?w DLock2] show ?thesis
    by (auto simp: dl_fuel_def)
qed

interpretation dl: bounded_system dl_step dl_init dl_inv dl_fuel
  by unfold_locales (auto intro: dl_inv_init dl_inv_step dl_fuel_step)

interpretation dlm: mutex_system dl_step dl_init dl_inv dl_cs mutex windows
  by unfold_locales (simp add: dl_inv_def)

section \<open>Without a lock\<close>

datatype st_pc = SWhile | SPrint | SLoad | SStore int | SOver

definition st_window :: "nat \<Rightarrow> st_pc tk \<Rightarrow> st_pc tk option" where
  "st_window i s =
     (case windows s ! i of
        SWhile \<Rightarrow> Some (at_pc i (if ticket s > 1 then SPrint else SOver) s)
      | SPrint \<Rightarrow> Some (at_pc i SLoad (sell i s))
      | SLoad \<Rightarrow> Some (at_pc i (SStore (ticket s)) s)
      | SStore v \<Rightarrow> Some (at_pc i SWhile (s\<lparr>ticket := v - 1\<rparr>))
      | SOver \<Rightarrow> None)"

definition st_step :: "st_pc tk \<Rightarrow> tk_label \<Rightarrow> st_pc tk option" where
  "st_step s l =
     (case l of
        Main \<Rightarrow> tk_main SWhile SOver s
      | Win i \<Rightarrow> (if i < length (windows s) then st_window i s else None))"

definition st_init :: "st_pc tk" where
  "st_init = tk_init 100"

text \<open>One window sells alone.\<close>

lemma st_sell_one:
  assumes "windows s = SWhile # ps" "1 < ticket s"
  shows "run st_step s [Win 0, Win 0, Win 0, Win 0] =
    Some (s\<lparr>ticket := ticket s - 1, sold := sold s @ [(0, ticket s)]\<rparr>)"
proof (cases s)
  case (fields n m ws mp sd)
  with assms show ?thesis by (simp add: st_step_def st_window_def at_pc_def sell_def)
qed

lemma st_sell_down:
  assumes "windows s = SWhile # ps" "1 \<le> ticket s - int n"
  shows "\<exists>xs. run st_step s (concat (replicate n [Win 0, Win 0, Win 0, Win 0])) =
    Some (s\<lparr>ticket := ticket s - int n, sold := sold s @ xs\<rparr>)"
  using assms
proof (induction n arbitrary: s)
  case 0
  then show ?case by (intro exI [of _ "[]"]) simp
next
  case (Suc n)
  let ?t = "s\<lparr>ticket := ticket s - 1, sold := sold s @ [(0, ticket s)]\<rparr>"
  obtain xs where "run st_step ?t (concat (replicate n [Win 0, Win 0, Win 0, Win 0])) =
      Some (?t\<lparr>ticket := ticket ?t - int n, sold := sold ?t @ xs\<rparr>)"
    using Suc.IH [of ?t] Suc.prems by auto
  moreover have "run st_step s [Win 0, Win 0, Win 0, Win 0] = Some ?t"
    using Suc.prems by (intro st_sell_one) simp_all
  ultimately have "run st_step s ([Win 0, Win 0, Win 0, Win 0] @ concat (replicate n [Win 0, Win 0, Win 0, Win 0])) =
      Some (?t\<lparr>ticket := ticket ?t - int n, sold := sold ?t @ xs\<rparr>)"
    by (subst run_append) simp
  then show ?case by (intro exI [of _ "(0, ticket s) # xs"]) simp
qed

section \<open>Properties\<close>

text \<open>Claim C7.  \<^verbatim>\<open>mutex.c\<close> sells each of its 1000 tickets (its comment speaks of 100) exactly once, when its three
  threads are created: however they are scheduled, the program
  makes at most 6021 steps, and when nothing can move any more the main thread is through, the mutex is
  free, and the tickets sold are 1000, 999, ..., 1 in this order.\<close>

theorem mutex_sells_all:
  assumes "run mx_step mx_init ls = Some s"
  shows "length ls \<le> 6021 \<and>
    (stuck mx_step s \<longrightarrow> main_pc s = Gone \<and> mutex s = None \<and> map snd (sold s) = rev [1..1000])"
proof (intro conjI impI)
  have "mx_fuel mx_init = 6021" by (simp add: mx_fuel_def mx_init_def tk_init_def main_fuel_def)
  with mx.run_bounded [OF assms] show "length ls \<le> 6021" by simp
  assume st: "stuck mx_step s"
  have inv: "mx_inv s" using assms by (rule mx.inv_run [OF mx_inv_init])
  note over = mx_stuck_over [OF inv st]
  then have "map snd (sold s) = rev [1..1000]"
    using inv by (simp add: mx_inv_def mx_stock_def mid_sale_def)
  with over show "main_pc s = Gone" "mutex s = None" "map snd (sold s) = rev [1..1000]" by simp_all
qed

lemma mutex_sells_all_witness: "\<exists>ls s. run mx_step mx_init ls = Some s \<and> map snd (sold s) = rev [1..1000]"
proof -
  obtain ls s where s: "run mx_step mx_init ls = Some s" "stuck mx_step s"
    using mx.stuck_reachable by blast
  from mutex_sells_all [OF s(1)] s show ?thesis by (intro exI [of _ ls] exI [of _ s]) simp
qed

text \<open>In \<^verbatim>\<open>mutex.c\<close> no two threads are ever between lock and unlock, and at any time the tickets
  sold so far are the highest ones, each once.\<close>

theorem mutex_exclusion:
  assumes "reachable mx_step mx_init s"
  shows "(i < length (windows s) \<longrightarrow> j < length (windows s) \<longrightarrow>
           in_cs (windows s ! i) \<longrightarrow> in_cs (windows s ! j) \<longrightarrow> i = j) \<and>
    (distinct (map snd (sold s)) \<and> 0 \<le> ticket s \<and> (\<forall>x\<in>set (map snd (sold s)). ticket s \<le> x))"
proof (intro conjI impI)
  show "i < length (windows s) \<Longrightarrow> j < length (windows s) \<Longrightarrow>
      in_cs (windows s ! i) \<Longrightarrow> in_cs (windows s ! j) \<Longrightarrow> i = j"
    by (rule mxm.exclusion [OF assms])
  have "mx_stock s" using mx.inv_reachable [OF assms] by (simp add: mx_inv_def)
  then show "distinct (map snd (sold s))" "0 \<le> ticket s" "\<forall>x\<in>set (map snd (sold s)). ticket s \<le> x"
    by (auto simp: mx_stock_def)
qed

lemma mutex_exclusion_witness:
  "\<exists>s. run mx_step mx_init [Main, Main, Win 1, Win 0, Win 1, Win 1, Win 1] = Some s \<and>
     sold s = [(1, 1000)] \<and> distinct (map snd (sold s))"
proof -
  let ?ls = "[Main, Main, Win 1, Win 0, Win 1, Win 1, Win 1]"
  obtain s where s: "run mx_step mx_init ?ls = Some s" "sold s = [(1, 1000)]"
    by (simp add: mx_step_def mx_init_def tk_init_def tk_main_def mx_window_def at_pc_def sell_def)
  from mutex_exclusion [OF run_reachable [OF s(1)]] s show ?thesis by (intro exI [of _ s]) simp
qed

text \<open>Claim C38.  \<^verbatim>\<open>deadLock.c\<close> never sells a ticket: its first locker blocks on its own second lock, and
  every schedule ends, after at most 12 steps, with the main thread waiting for ever.\<close>

theorem deadlock_sells_nothing:
  assumes "run dl_step dl_init ls = Some s"
  shows "(sold s = [] \<and> ticket s = 1000) \<and>
    length ls \<le> 12 \<and>
    (stuck dl_step s \<longrightarrow> main_pc s = Join 0 \<and> (\<exists>i < 3. mutex s = Some i \<and> windows s ! i = DLock2))"
proof (intro conjI impI)
  have inv: "dl_inv s" using assms by (rule dl.inv_run [OF dl_inv_init])
  then show "sold s = []" "ticket s = 1000" by (simp_all add: dl_inv_def)
  have "dl_fuel dl_init = 12" by (simp add: dl_fuel_def dl_init_def tk_init_def main_fuel_def)
  with dl.run_bounded [OF assms] show "length ls \<le> 12" by simp
  assume st: "stuck dl_step s"
  have own: "owned dl_cs (mutex s) (windows s)" using inv by (simp add: dl_inv_def)
  have pcs: "windows s ! i \<in> {DWhile, DLock1, DLock2}" if "i < length (windows s)" for i
    using inv that nth_mem by (fastforce simp: dl_inv_def)
  have none: "dl_window i s = None" if "i < length (windows s)" for i
  proof -
    have "dl_step s (Win i) = None" using st by (simp add: stuck_def)
    with that show ?thesis by (simp add: dl_step_def)
  qed
  have "dl_step s Main = None" using st by (simp add: stuck_def)
  moreover have no: "length (windows s) = 3 \<Longrightarrow> windows s ! 0 \<noteq> DOver" using pcs [of 0] by auto
  moreover have "main_ok DOver s" using inv by (simp add: dl_inv_def)
  ultimately have m: "main_pc s = Join 0" "length (windows s) = 3"
    by (auto simp: dl_step_def tk_main_def main_ok_def split: tk_main_pc.splits if_splits)
  then have "windows s ! 0 \<noteq> DWhile" "windows s ! 0 = DLock1 \<Longrightarrow> mutex s \<noteq> None"
    using none [of 0] by (auto simp: dl_window_def split: if_splits)
  then obtain i where i: "mutex s = Some i"
    using pcs [of 0] m(2) owned_crit [OF own, of 0] by (auto simp: dl_cs_def)
  with own m(2) have "i < 3" "windows s ! i = DLock2"
    using owned_lt owned_holder by (fastforce simp: dl_cs_def)+
  with m(1) i show "main_pc s = Join 0" "\<exists>i < 3. mutex s = Some i \<and> windows s ! i = DLock2" by blast+
qed

lemma deadlock_sells_nothing_witness: "\<exists>ls s. run dl_step dl_init ls = Some s \<and> main_pc s = Join 0 \<and> sold s = []"
proof -
  obtain ls s where s: "run dl_step dl_init ls = Some s" "stuck dl_step s"
    using dl.stuck_reachable by blast
  from deadlock_sells_nothing [OF s(1)] s show ?thesis by (intro exI [of _ ls] exI [of _ s]) simp
qed

text \<open>Without the lock \<^verbatim>\<open>sell_tickets.c\<close> can sell ticket 100 three times and a ticket 0 that does
  not exist, and end with the count at -1.\<close>

theorem sell_tickets_race:
  "\<exists>s. reachable st_step st_init s \<and> main_pc s = Gone \<and> ticket s = -1 \<and>
     {(0, 100), (1, 100), (2, 100), (2, 0)} \<subseteq> set (sold s)"
proof -
  let ?pre = "[Main, Main, Main, Win 0, Win 1, Win 2, Win 0, Win 1, Win 2, Win 0, Win 1, Win 2, Win 0, Win 1, Win 2]"
  let ?a = "\<lparr>ticket = 99, mutex = None, windows = [SWhile, SWhile, SWhile], main_pc = Join 0,
             sold = [(0, 100), (1, 100), (2, 100)]\<rparr>"
  let ?post = "[Win 0, Win 1, Win 2, Win 0, Win 0, Win 0, Win 1, Win 1, Win 1, Win 2, Win 2, Win 2,
                Win 0, Win 1, Win 2, Main, Main, Main]"
  have a: "run st_step st_init ?pre = Some ?a"
    by (simp add: st_step_def st_init_def tk_init_def tk_main_def st_window_def at_pc_def sell_def)
  obtain xs where b: "run st_step ?a (concat (replicate 97 [Win 0, Win 0, Win 0, Win 0])) =
      Some (?a\<lparr>ticket := 2, sold := sold ?a @ xs\<rparr>)"
    using st_sell_down [of ?a "[SWhile, SWhile]" 97] by auto
  obtain s where c: "run st_step (?a\<lparr>ticket := 2, sold := sold ?a @ xs\<rparr>) ?post = Some s"
    "main_pc s = Gone" "ticket s = -1" "sold s = sold ?a @ xs @ [(0, 2), (1, 1), (2, 0)]"
    by (simp add: st_step_def tk_main_def st_window_def at_pc_def sell_def)
  have "reachable st_step st_init s"
    using reachable_run [OF reachable_run [OF run_reachable [OF a] b] c(1)] .
  with c show ?thesis by (intro exI [of _ s]) simp
qed

end
