(* ===== verification/CrossLock.thy ===== *)
theory CrossLock
  imports Main
begin

text \<open>
  \<^verbatim>\<open>deadLock1.c\<close>: \<open>workA\<close> takes \<open>mutex1\<close> and then \<open>mutex2\<close>, \<open>workB\<close> the other way round.  \<open>main\<close> stores
  both thread ids in \<open>tid1\<close> and then joins \<open>tid1\<close> and \<open>tid2\<close>, which it has never set.  The
  step relation has one rule per statement that touches shared state.
\<close>

datatype who = A | B

text \<open>Both workers lock twice, print, unlock twice; they differ in the order of the mutexes.\<close>

datatype work_pc = Unborn | LockFirst | LockSecond | Print | UnlockSecond | UnlockFirst | Over

datatype main_pc = CreateA | CreateB | Join1 | Join2 | Destroy | Undefined

record ab =
  pc :: "who \<Rightarrow> work_pc"
  mtx :: "nat \<Rightarrow> who option"
  tid1 :: "who option"
  tid2 :: "who option"
  at_main :: main_pc
  printed_by :: "who list"

definition first_lock :: "who \<Rightarrow> nat" where
  "first_lock w = (case w of A \<Rightarrow> 1 | B \<Rightarrow> 2)"

definition second_lock :: "who \<Rightarrow> nat" where
  "second_lock w = (case w of A \<Rightarrow> 2 | B \<Rightarrow> 1)"

definition goes :: "who \<Rightarrow> work_pc \<Rightarrow> ab \<Rightarrow> ab" where
  "goes w p s = s\<lparr>pc := (pc s)(w := p)\<rparr>"

definition holds :: "nat \<Rightarrow> who option \<Rightarrow> ab \<Rightarrow> ab" where
  "holds m o' s = s\<lparr>mtx := (mtx s)(m := o')\<rparr>"

inductive ab_step :: "ab \<Rightarrow> ab \<Rightarrow> bool" where
  create_a: "at_main s = CreateA \<Longrightarrow> ab_step s (goes A LockFirst (s\<lparr>tid1 := Some A, at_main := CreateB\<rparr>))"
| create_b: "at_main s = CreateB \<Longrightarrow> ab_step s (goes B LockFirst (s\<lparr>tid1 := Some B, at_main := Join1\<rparr>))"
| join1: "at_main s = Join1 \<Longrightarrow> tid1 s = Some w \<Longrightarrow> pc s w = Over \<Longrightarrow> ab_step s (s\<lparr>at_main := Join2\<rparr>)"
| join2: "at_main s = Join2 \<Longrightarrow> tid2 s = Some w \<Longrightarrow> pc s w = Over \<Longrightarrow> ab_step s (s\<lparr>at_main := Destroy\<rparr>)"
| join2_unset: "at_main s = Join2 \<Longrightarrow> tid2 s = None \<Longrightarrow> ab_step s (s\<lparr>at_main := Undefined\<rparr>)"
| lock_first: "pc s w = LockFirst \<Longrightarrow> mtx s (first_lock w) = None \<Longrightarrow>
    ab_step s (goes w LockSecond (holds (first_lock w) (Some w) s))"
| lock_second: "pc s w = LockSecond \<Longrightarrow> mtx s (second_lock w) = None \<Longrightarrow>
    ab_step s (goes w Print (holds (second_lock w) (Some w) s))"
| print: "pc s w = Print \<Longrightarrow> ab_step s (goes w UnlockSecond (s\<lparr>printed_by := printed_by s @ [w]\<rparr>))"
| unlock_second: "pc s w = UnlockSecond \<Longrightarrow> ab_step s (goes w UnlockFirst (holds (second_lock w) None s))"
| unlock_first: "pc s w = UnlockFirst \<Longrightarrow> ab_step s (goes w Over (holds (first_lock w) None s))"

inductive_cases ab_stepE: "ab_step s t"

definition ab_init :: ab where
  "ab_init = \<lparr>pc = (\<lambda>_. Unborn), mtx = (\<lambda>_. None), tid1 = None, tid2 = None,
     at_main = CreateA, printed_by = []\<rparr>"

abbreviation ab_reach :: "ab \<Rightarrow> bool" where
  "ab_reach s \<equiv> ab_step\<^sup>*\<^sup>* ab_init s"

lemma goes_simps [simp]:
  "pc (goes w p s) = (pc s)(w := p)" "mtx (goes w p s) = mtx s" "tid1 (goes w p s) = tid1 s"
  "tid2 (goes w p s) = tid2 s" "at_main (goes w p s) = at_main s" "printed_by (goes w p s) = printed_by s"
  "pc (holds m x s) = pc s" "mtx (holds m x s) = (mtx s)(m := x)" "tid1 (holds m x s) = tid1 s"
  "tid2 (holds m x s) = tid2 s" "at_main (holds m x s) = at_main s" "printed_by (holds m x s) = printed_by s"
  by (simp_all add: goes_def holds_def)

lemma lock_simps [simp]:
  "first_lock A = 1" "first_lock B = 2" "second_lock A = 2" "second_lock B = 1"
  by (simp_all add: first_lock_def second_lock_def)

lemma who_all: "(\<forall>w. P w) \<longleftrightarrow> P A \<and> P B"
  by (metis who.exhaust)

section \<open>Invariant\<close>

definition has_first :: "work_pc \<Rightarrow> bool" where
  "has_first p \<longleftrightarrow> p \<in> {LockSecond, Print, UnlockSecond, UnlockFirst}"

definition has_second :: "work_pc \<Rightarrow> bool" where
  "has_second p \<longleftrightarrow> p \<in> {Print, UnlockSecond}"

definition ab_locks :: "ab \<Rightarrow> bool" where
  "ab_locks s \<longleftrightarrow>
     (mtx s 1 = Some A \<longleftrightarrow> has_first (pc s A)) \<and> (mtx s 1 = Some B \<longleftrightarrow> has_second (pc s B)) \<and>
     (mtx s 2 = Some B \<longleftrightarrow> has_first (pc s B)) \<and> (mtx s 2 = Some A \<longleftrightarrow> has_second (pc s A))"

definition ab_main :: "ab \<Rightarrow> bool" where
  "ab_main s \<longleftrightarrow> tid2 s = None \<and> at_main s \<noteq> Destroy \<and>
     (pc s A = Unborn \<longleftrightarrow> at_main s = CreateA) \<and>
     (pc s B = Unborn \<longleftrightarrow> at_main s = CreateA \<or> at_main s = CreateB) \<and>
     (at_main s \<in> {Join1, Join2, Undefined} \<longrightarrow> tid1 s = Some B) \<and>
     (at_main s \<in> {Join2, Undefined} \<longrightarrow> pc s B = Over)"

lemma pcs_simps [simp]:
  "\<not> has_first Unborn" "\<not> has_first LockFirst" "has_first LockSecond" "has_first Print"
  "has_first UnlockSecond" "has_first UnlockFirst" "\<not> has_first Over"
  "\<not> has_second Unborn" "\<not> has_second LockFirst" "\<not> has_second LockSecond" "has_second Print"
  "has_second UnlockSecond" "\<not> has_second UnlockFirst" "\<not> has_second Over"
  by (simp_all add: has_first_def has_second_def)

lemma ab_locks_step: "ab_step s t \<Longrightarrow> ab_locks s \<Longrightarrow> ab_main s \<Longrightarrow> ab_locks t"
proof (induction rule: ab_step.induct)
  case (lock_first s w)
  then show ?case by (cases w) (auto simp: ab_locks_def)
next
  case (lock_second s w)
  then show ?case by (cases w) (auto simp: ab_locks_def)
next
  case (print s w)
  then show ?case by (cases w) (auto simp: ab_locks_def)
next
  case (unlock_second s w)
  then show ?case by (cases w) (auto simp: ab_locks_def)
next
  case (unlock_first s w)
  then show ?case by (cases w) (auto simp: ab_locks_def)
qed (auto simp: ab_locks_def ab_main_def)

lemma ab_main_step: "ab_step s t \<Longrightarrow> ab_main s \<Longrightarrow> ab_main t"
proof (induction rule: ab_step.induct)
  case (lock_first s w)
  then show ?case by (cases w) (auto simp: ab_main_def)
next
  case (lock_second s w)
  then show ?case by (cases w) (auto simp: ab_main_def)
next
  case (print s w)
  then show ?case by (cases w) (auto simp: ab_main_def)
next
  case (unlock_second s w)
  then show ?case by (cases w) (auto simp: ab_main_def)
next
  case (unlock_first s w)
  then show ?case by (cases w) (auto simp: ab_main_def)
qed (auto simp: ab_main_def)

lemma ab_invariant: "ab_reach s \<Longrightarrow> ab_locks s \<and> ab_main s"
proof (induction rule: rtranclp_induct)
  case base
  show ?case by (simp add: ab_locks_def ab_main_def ab_init_def)
next
  case (step s t)
  with ab_locks_step ab_main_step show ?case by blast
qed

text \<open>Each step brings some thread forward, so every run is finite.\<close>

definition work_left :: "work_pc \<Rightarrow> nat" where
  "work_left p = (case p of Unborn \<Rightarrow> 6 | LockFirst \<Rightarrow> 5 | LockSecond \<Rightarrow> 4 | Print \<Rightarrow> 3
     | UnlockSecond \<Rightarrow> 2 | UnlockFirst \<Rightarrow> 1 | Over \<Rightarrow> 0)"

definition main_left :: "main_pc \<Rightarrow> nat" where
  "main_left m = (case m of CreateA \<Rightarrow> 4 | CreateB \<Rightarrow> 3 | Join1 \<Rightarrow> 2 | Join2 \<Rightarrow> 1 | Destroy \<Rightarrow> 0 | Undefined \<Rightarrow> 0)"

definition ab_left :: "ab \<Rightarrow> nat" where
  "ab_left s = work_left (pc s A) + work_left (pc s B) + main_left (at_main s)"

lemma ab_left_step: "ab_step s t \<Longrightarrow> ab_main s \<Longrightarrow> ab_left t < ab_left s"
proof (induction rule: ab_step.induct)
  case (lock_first s w)
  then show ?case by (cases w) (auto simp: ab_left_def work_left_def)
next
  case (lock_second s w)
  then show ?case by (cases w) (auto simp: ab_left_def work_left_def)
next
  case (print s w)
  then show ?case by (cases w) (auto simp: ab_left_def work_left_def)
next
  case (unlock_second s w)
  then show ?case by (cases w) (auto simp: ab_left_def work_left_def)
next
  case (unlock_first s w)
  then show ?case by (cases w) (auto simp: ab_left_def work_left_def)
qed (auto simp: ab_left_def ab_main_def work_left_def main_left_def)

section \<open>Properties\<close>

text \<open>The crossed state: each worker holds its first mutex and wants the other's.\<close>

definition crossed :: "ab \<Rightarrow> bool" where
  "crossed s \<longleftrightarrow> pc s A = LockSecond \<and> pc s B = LockSecond \<and> mtx s 1 = Some A \<and> mtx s 2 = Some B \<and>
     at_main s = Join1"

lemma can_move:
  assumes "\<nexists>t. ab_step s t"
  shows "pc s w = LockFirst \<Longrightarrow> mtx s (first_lock w) \<noteq> None"
    and "pc s w = LockSecond \<Longrightarrow> mtx s (second_lock w) \<noteq> None"
    and "pc s w \<notin> {Print, UnlockSecond, UnlockFirst}"
    and "at_main s \<noteq> CreateA" "at_main s \<noteq> CreateB"
    and "at_main s = Join1 \<Longrightarrow> tid1 s = Some w \<Longrightarrow> pc s w \<noteq> Over"
    and "at_main s = Join2 \<Longrightarrow> tid2 s \<noteq> None"
  using assms ab_step.intros by blast+

lemma ab_finishes: "ab_reach s \<Longrightarrow> \<exists>t. ab_step\<^sup>*\<^sup>* s t \<and> (\<nexists>u. ab_step t u)"
proof (induction "ab_left s" arbitrary: s rule: less_induct)
  case less
  show ?case
  proof (cases "\<exists>t. ab_step s t")
    case True
    then obtain t where t: "ab_step s t" by blast
    with less.prems have "ab_reach t" by simp
    with less.hyps [of t] ab_left_step [OF t] ab_invariant [OF less.prems] obtain u where
      "ab_step\<^sup>*\<^sup>* t u" "\<nexists>v. ab_step u v" by blast
    with t show ?thesis by (meson converse_rtranclp_into_rtranclp)
  next
    case False
    then show ?thesis by blast
  qed
qed

lemma ab_run_left: "(ab_step ^^ n) ab_init s \<Longrightarrow> ab_reach s \<and> n + ab_left s \<le> 16"
proof (induction n arbitrary: s)
  case 0
  then have "s = ab_init" by simp
  then show ?case by (simp add: ab_left_def ab_init_def work_left_def main_left_def)
next
  case (Suc n)
  then obtain u where u: "(ab_step ^^ n) ab_init u" "ab_step u s" by auto
  from Suc.IH [OF u(1)] u(2) ab_left_step [OF u(2)] ab_invariant show ?case
    by (auto intro: rtranclp.rtrancl_into_rtrancl)
qed

lemma crossed_stuck:
  assumes "crossed s" "ab_main s"
  shows "\<not> ab_step s t"
proof
  assume "ab_step s t"
  then show False
  proof (cases rule: ab_step.cases)
    case (lock_first w)
    then show ?thesis using assms by (cases w) (auto simp: crossed_def)
  next
    case (lock_second w)
    then show ?thesis using assms by (cases w) (auto simp: crossed_def)
  next
    case (print w)
    then show ?thesis using assms by (cases w) (auto simp: crossed_def)
  next
    case (unlock_second w)
    then show ?thesis using assms by (cases w) (auto simp: crossed_def)
  next
    case (unlock_first w)
    then show ?thesis using assms by (cases w) (auto simp: crossed_def)
  qed (use assms in \<open>auto simp: crossed_def ab_main_def\<close>)
qed

text \<open>The schedule with both \<open>sleep\<close> calls in the middle, as a run of the relation.\<close>

lemma crossed_reachable: "\<exists>s. ab_reach s \<and> crossed s \<and> (\<nexists>t. ab_step s t)"
proof -
  let ?s1 = "goes A LockFirst (ab_init\<lparr>tid1 := Some A, at_main := CreateB\<rparr>)"
  let ?s2 = "goes B LockFirst (?s1\<lparr>tid1 := Some B, at_main := Join1\<rparr>)"
  let ?s3 = "goes A LockSecond (holds (first_lock A) (Some A) ?s2)"
  let ?s4 = "goes B LockSecond (holds (first_lock B) (Some B) ?s3)"
  have "ab_step ab_init ?s1" by (rule create_a) (simp add: ab_init_def)
  moreover have "ab_step ?s1 ?s2" by (rule create_b) simp
  moreover have "ab_step ?s2 ?s3" by (rule lock_first) (simp_all add: ab_init_def)
  moreover have "ab_step ?s3 ?s4" by (rule lock_first) (simp_all add: ab_init_def)
  ultimately have "ab_reach ?s4"
    by (meson converse_rtranclp_into_rtranclp rtranclp.rtrancl_refl)
  moreover have cr: "crossed ?s4" by (simp add: crossed_def ab_init_def)
  ultimately show ?thesis using crossed_stuck ab_invariant by blast
qed

text \<open>Claim C16.  \<^verbatim>\<open>deadLock1.c\<close> always comes to an end, and never a proper one: every run takes at most 16 steps, and a
  reachable state in which nothing can move is either
  the crossed one, with the main thread in its first join, or one in which both workers are over
  and the main thread has joined the thread id it never set.  The crossed end can be reached.\<close>

theorem crosslock_ends:
  assumes "ab_reach s"
  shows "(\<forall>n. (ab_step ^^ n) ab_init s \<longrightarrow> n \<le> 16) \<and> (\<exists>t. ab_step\<^sup>*\<^sup>* s t \<and> (\<nexists>u. ab_step t u)) \<and>
    ((\<nexists>t. ab_step s t) \<longrightarrow> crossed s \<or> at_main s = Undefined \<and> pc s A = Over \<and> pc s B = Over) \<and>
    (\<exists>d. ab_reach d \<and> crossed d \<and> (\<nexists>t. ab_step d t))"
proof (intro conjI impI allI crossed_reachable)
  show "n \<le> 16" if "(ab_step ^^ n) ab_init s" for n using ab_run_left [OF that] by simp
  show "\<exists>t. ab_step\<^sup>*\<^sup>* s t \<and> (\<nexists>u. ab_step t u)" by (rule ab_finishes [OF assms])
  assume stop: "\<nexists>t. ab_step s t"
  from ab_invariant [OF assms] have locks: "ab_locks s" and m: "ab_main s" by auto
  note still = can_move [OF stop]
  have late: "at_main s = Join1 \<or> at_main s = Undefined"
    using still(4,5,7) m by (cases "at_main s") (auto simp: ab_main_def)
  then have born: "pc s A \<noteq> Unborn" "pc s B \<noteq> Unborn" using m by (auto simp: ab_main_def)
  have a: "pc s A \<in> {LockFirst, LockSecond, Over}"
    using still(3) [of A] born(1) by (cases "pc s A") simp_all
  have b: "pc s B \<in> {LockFirst, LockSecond, Over}"
    using still(3) [of B] born(2) by (cases "pc s B") simp_all
  have one: "mtx s 1 \<noteq> Some B" and two: "mtx s 2 \<noteq> Some A"
    using a b locks by (auto simp: ab_locks_def)
  have "mtx s 1 = None \<or> mtx s 1 = Some A" "mtx s 2 = None \<or> mtx s 2 = Some B"
    using one two by (metis not_None_eq who.exhaust)+
  then have "pc s A = LockSecond \<and> pc s B = LockSecond \<or> pc s A = Over \<and> pc s B = Over"
    using a b still(1,2) [of A] still(1,2) [of B] locks by (auto simp: ab_locks_def)
  then show "crossed s \<or> at_main s = Undefined \<and> pc s A = Over \<and> pc s B = Over"
  proof
    assume p: "pc s A = LockSecond \<and> pc s B = LockSecond"
    then have "at_main s \<noteq> Undefined" using m by (auto simp: ab_main_def)
    with late have "at_main s = Join1" by simp
    with p locks show ?thesis by (simp add: crossed_def ab_locks_def)
  next
    assume p: "pc s A = Over \<and> pc s B = Over"
    then have "at_main s \<noteq> Join1" using still(6) [of B] m by (auto simp: ab_main_def)
    with late p show ?thesis by simp
  qed
qed

lemma crosslock_ends_witness: "\<exists>s. ab_reach s \<and> (crossed s \<or> at_main s = Undefined \<and> pc s A = Over \<and> pc s B = Over)"
proof -
  have "ab_reach ab_init" by simp
  from crosslock_ends [OF this] obtain s where s: "ab_step\<^sup>*\<^sup>* ab_init s" "\<nexists>t. ab_step s t" by blast
  then have "ab_reach s" by simp
  from crosslock_ends [OF this] s(2) show ?thesis using \<open>ab_reach s\<close> by blast
qed

end
