(* ===== verification/Buffer.thy ===== *)
theory Buffer
  imports Mutex
begin

text \<open>
  The shared list of \<^verbatim>\<open>producer_comsumer.c\<close>, \<^verbatim>\<open>pthread_condition.c\<close> and \<^verbatim>\<open>semaphore.c\<close>: five producers push
  nodes from \<open>malloc\<close> on the list at \<open>head\<close>, five consumers unlink and free them.  The statements on
  the list are the same in the three files and are modelled here, one step each, on an explicit
  heap; the files differ in how they synchronise, which theories \<open>ProducerConsumer\<close>, \<open>CondBuffer\<close>
  and \<open>SemBuffer\<close> add.  \<open>fault\<close> records a null or dangling access, a double free or the use of a field
  never set.  No program checks the result of \<open>malloc\<close>: a thread that got NULL is at \<open>PNull\<close>, and its next
  statement writes through the null pointer.
\<close>

section \<open>State\<close>

record node =
  num :: "int option"
  link :: "nat option"

type_synonym heap = "nat \<Rightarrow> node option"

datatype tpc =
    PSemWait | PLock | PMalloc | PNull | PNext nat | PHead nat | PNum nat | PPrint nat | PSignal | PUnlock | PSemPost
  | CSemWait | CLock | CRead | CTake nat | CPrint nat | CFree nat | CUnlock | CSemPost
  | CWait | CSleeping | CRelock | CUnlockElse

datatype bev = Add int | Del int

datatype bmain = Creating nat | Detaching nat | Idle

record buf =
  heap :: heap
  head :: "nat option"
  mtx :: "nat option"
  psem :: nat
  csem :: nat
  threads :: "tpc list"
  bmain :: bmain
  blog :: "bev list"
  fault :: bool

text \<open>
  \<open>Go i a r\<close>: thread \<open>i\<close> makes its next step, with \<open>a\<close> for the address \<open>malloc\<close> returns or the thread a
  signal wakes, and \<open>r\<close> for the value of \<open>rand\<close>.  \<open>Wake i\<close> is a spurious wake-up.
\<close>

datatype blabel = BMain | Go nat "nat option" int | Wake nat

definition go :: "nat \<Rightarrow> tpc \<Rightarrow> buf \<Rightarrow> buf" where
  "go i p s = s\<lparr>threads := (threads s)[i := p]\<rparr>"

definition crash :: "buf \<Rightarrow> buf" where
  "crash s = s\<lparr>fault := True\<rparr>"

definition mutex_lock :: "nat \<Rightarrow> tpc \<Rightarrow> buf \<Rightarrow> buf option" where
  "mutex_lock i p s = (if mtx s = None then Some (go i p (s\<lparr>mtx := Some i\<rparr>)) else None)"

definition mutex_unlock :: "nat \<Rightarrow> tpc \<Rightarrow> buf \<Rightarrow> buf option" where
  "mutex_unlock i p s = Some (go i p (s\<lparr>mtx := None\<rparr>))"

text \<open>The statements on the list; \<open>printed\<close> is where a producer goes after its \<open>printf\<close>.\<close>

definition node_step :: "tpc \<Rightarrow> nat \<Rightarrow> nat option \<Rightarrow> int \<Rightarrow> buf \<Rightarrow> buf option" where
  "node_step printed i a r s =
     (case threads s ! i of
        PMalloc \<Rightarrow>
          (case a of
             None \<Rightarrow> Some (go i PNull s)
           | Some p \<Rightarrow>
               (if heap s p \<noteq> None then None
                else Some (go i (PNext p) (s\<lparr>heap := (heap s)(p \<mapsto> \<lparr>num = None, link = None\<rparr>)\<rparr>))))
      | PNull \<Rightarrow> Some (crash s)
      | PNext p \<Rightarrow>
          (case heap s p of
             None \<Rightarrow> Some (crash s)
           | Some nd \<Rightarrow> Some (go i (PHead p) (s\<lparr>heap := (heap s)(p \<mapsto> nd\<lparr>link := head s\<rparr>)\<rparr>)))
      | PHead p \<Rightarrow> Some (go i (PNum p) (s\<lparr>head := Some p\<rparr>))
      | PNum p \<Rightarrow>
          (case heap s p of
             None \<Rightarrow> Some (crash s)
           | Some nd \<Rightarrow> Some (go i (PPrint p) (s\<lparr>heap := (heap s)(p \<mapsto> nd\<lparr>num := Some (r mod 1000)\<rparr>)\<rparr>)))
      | PPrint p \<Rightarrow>
          (case Option.bind (heap s p) num of
             None \<Rightarrow> Some (crash s)
           | Some n \<Rightarrow> Some (go i printed (s\<lparr>blog := blog s @ [Add n]\<rparr>)))
      | CTake d \<Rightarrow>
          (case Option.bind (head s) (heap s) of
             None \<Rightarrow> Some (crash s)
           | Some nd \<Rightarrow> Some (go i (CPrint d) (s\<lparr>head := link nd\<rparr>)))
      | CPrint d \<Rightarrow>
          (case Option.bind (heap s d) num of
             None \<Rightarrow> Some (crash s)
           | Some n \<Rightarrow> Some (go i (CFree d) (s\<lparr>blog := blog s @ [Del n]\<rparr>)))
      | CFree d \<Rightarrow>
          (if heap s d = None then Some (crash s)
           else Some (go i CUnlock (s\<lparr>heap := (heap s)(d := None)\<rparr>)))
      | _ \<Rightarrow> None)"

text \<open>\<open>main\<close>: producers and consumers are created in turn, then detached, then the thread sleeps.\<close>

definition buf_main :: "tpc \<Rightarrow> tpc \<Rightarrow> buf \<Rightarrow> buf option" where
  "buf_main produce consume s =
     (case bmain s of
        Creating k \<Rightarrow>
          Some (s\<lparr>threads := threads s @ [if even k then produce else consume],
                  bmain := (if k = 9 then Detaching 0 else Creating (Suc k))\<rparr>)
      | Detaching k \<Rightarrow> Some (s\<lparr>bmain := (if k = 9 then Idle else Detaching (Suc k))\<rparr>)
      | Idle \<Rightarrow> None)"

definition buf_init :: "nat \<Rightarrow> nat \<Rightarrow> buf" where
  "buf_init ps cs = \<lparr>heap = (\<lambda>_. None), head = None, mtx = None, psem = ps, csem = cs, threads = [],
     bmain = Creating 0, blog = [], fault = False\<rparr>"

section \<open>The list in the heap\<close>

fun chain :: "heap \<Rightarrow> nat option \<Rightarrow> nat list \<Rightarrow> bool" where
  "chain h p [] \<longleftrightarrow> p = None"
| "chain h p (a # as) \<longleftrightarrow> p = Some a \<and> (case h a of None \<Rightarrow> False | Some nd \<Rightarrow> chain h (link nd) as)"

definition num_at :: "heap \<Rightarrow> nat \<Rightarrow> int" where
  "num_at h a = (case Option.bind (h a) num of None \<Rightarrow> 0 | Some n \<Rightarrow> n)"

definition set_at :: "heap \<Rightarrow> nat \<Rightarrow> bool" where
  "set_at h a \<longleftrightarrow> Option.bind (h a) num \<noteq> None"

lemma chain_other [simp]: "p \<notin> set as \<Longrightarrow> chain (h(p := v)) q as \<longleftrightarrow> chain h q as"
  by (induction as arbitrary: q) (auto split: option.split)

lemma num_at_other [simp]: "p \<noteq> a \<Longrightarrow> num_at (h(p := v)) a = num_at h a"
  by (simp add: num_at_def)

lemma set_at_other [simp]: "p \<noteq> a \<Longrightarrow> set_at (h(p := v)) a \<longleftrightarrow> set_at h a"
  by (simp add: set_at_def)

lemma nums_other [simp]: "p \<notin> set as \<Longrightarrow> map (num_at (h(p := v))) as = map (num_at h) as"
  by (auto intro!: map_cong num_at_other)

lemma sets_other [simp]: "p \<notin> set as \<Longrightarrow> (\<forall>a\<in>set as. set_at (h(p := v)) a) \<longleftrightarrow> (\<forall>a\<in>set as. set_at h a)"
  by (metis set_at_other)

text \<open>What the log says is in the list: a stack, from which only the newest number is taken.\<close>

fun replay :: "int list \<Rightarrow> bev list \<Rightarrow> int list option" where
  "replay xs [] = Some xs"
| "replay xs (Add n # es) = replay (n # xs) es"
| "replay [] (Del n # es) = None"
| "replay (x # xs) (Del n # es) = (if x = n then replay xs es else None)"

lemma replay_append: "replay xs (es @ fs) = Option.bind (replay xs es) (\<lambda>ys. replay ys fs)"
  by (induction xs es rule: replay.induct) auto

text \<open>
  The state of the list while the thread in the critical region is at \<open>p\<close>: \<open>as\<close> are the nodes
  reachable from \<open>head\<close>.
\<close>

definition shape :: "tpc \<Rightarrow> nat list \<Rightarrow> heap \<Rightarrow> nat option \<Rightarrow> bev list \<Rightarrow> bool" where
  "shape p as h front log \<longleftrightarrow> chain h front as \<and> distinct as \<and>
     (case p of
        PNext q \<Rightarrow> q \<notin> set as \<and> dom h = insert q (set as) \<and> (\<forall>a\<in>set as. set_at h a) \<and>
          replay [] log = Some (map (num_at h) as)
      | PHead q \<Rightarrow> q \<notin> set as \<and> dom h = insert q (set as) \<and> (\<forall>a\<in>set as. set_at h a) \<and>
          replay [] log = Some (map (num_at h) as) \<and> map_option link (h q) = Some front
      | PNum q \<Rightarrow> dom h = set as \<and> as \<noteq> [] \<and> front = Some q \<and> (\<forall>a\<in>set (tl as). set_at h a) \<and>
          replay [] log = Some (map (num_at h) (tl as))
      | PPrint q \<Rightarrow> dom h = set as \<and> as \<noteq> [] \<and> front = Some q \<and> (\<forall>a\<in>set as. set_at h a) \<and>
          replay [] log = Some (map (num_at h) (tl as))
      | CTake q \<Rightarrow> dom h = set as \<and> front = Some q \<and> (\<forall>a\<in>set as. set_at h a) \<and>
          replay [] log = Some (map (num_at h) as)
      | CPrint q \<Rightarrow> q \<notin> set as \<and> dom h = insert q (set as) \<and> (\<forall>a\<in>insert q (set as). set_at h a) \<and>
          replay [] log = Some (num_at h q # map (num_at h) as)
      | CFree q \<Rightarrow> q \<notin> set as \<and> dom h = insert q (set as) \<and> (\<forall>a\<in>set as. set_at h a) \<and>
          replay [] log = Some (map (num_at h) as)
      | _ \<Rightarrow> dom h = set as \<and> (\<forall>a\<in>set as. set_at h a) \<and> replay [] log = Some (map (num_at h) as))"

definition plain :: "tpc \<Rightarrow> bool" where
  "plain p \<longleftrightarrow> (case p of PNext _ \<Rightarrow> False | PHead _ \<Rightarrow> False | PNum _ \<Rightarrow> False | PPrint _ \<Rightarrow> False
     | CTake _ \<Rightarrow> False | CPrint _ \<Rightarrow> False | CFree _ \<Rightarrow> False | _ \<Rightarrow> True)"

lemma shape_plain:
  "plain p \<Longrightarrow> shape p as h front log \<longleftrightarrow> chain h front as \<and> distinct as \<and> dom h = set as \<and>
     (\<forall>a\<in>set as. set_at h a) \<and> replay [] log = Some (map (num_at h) as)"
  by (cases p) (auto simp: shape_def plain_def)

lemma plain_simps [simp]:
  "plain PSemWait" "plain PLock" "plain PMalloc" "plain PNull" "plain PSignal" "plain PUnlock" "plain PSemPost"
  "plain CSemWait" "plain CLock" "plain CRead" "plain CUnlock" "plain CSemPost" "plain CWait"
  "plain CSleeping" "plain CRelock" "plain CUnlockElse"
  by (simp_all add: plain_def)

section \<open>The statements keep the list in shape\<close>

text \<open>What a step on the list leaves alone.\<close>

lemma go_simps [simp]:
  "threads (go i p s) = (threads s)[i := p]" "heap (go i p s) = heap s" "head (go i p s) = head s"
  "mtx (go i p s) = mtx s" "psem (go i p s) = psem s" "csem (go i p s) = csem s"
  "bmain (go i p s) = bmain s" "blog (go i p s) = blog s" "fault (go i p s) = fault s"
  by (simp_all add: go_def)

lemma crash_simps [simp]:
  "threads (crash s) = threads s" "heap (crash s) = heap s" "head (crash s) = head s" "mtx (crash s) = mtx s"
  "psem (crash s) = psem s" "csem (crash s) = csem s" "bmain (crash s) = bmain s" "blog (crash s) = blog s" "fault (crash s)"
  by (simp_all add: crash_def)

lemma chain_Some_front: "chain h front as \<Longrightarrow> front = Some q \<Longrightarrow> \<exists>bs. as = q # bs"
  by (cases as) auto

lemma shape_malloc:
  assumes "shape PMalloc as h front log" "h p = None"
  shows "shape (PNext p) as (h(p \<mapsto> nd)) front log"
proof -
  have "p \<notin> set as" using assms by (auto simp: shape_plain)
  with assms show ?thesis by (simp add: shape_plain) (simp add: shape_def)
qed

lemma shape_next:
  assumes "shape (PNext p) as h front log" "h p = Some nd"
  shows "shape (PHead p) as (h(p \<mapsto> nd\<lparr>link := front\<rparr>)) front log"
  using assms by (auto simp: shape_def)

lemma shape_head:
  assumes "shape (PHead p) as h front log"
  shows "shape (PNum p) (p # as) h (Some p) log"
  using assms by (auto simp: shape_def split: option.splits)

lemma shape_num:
  assumes "shape (PNum p) as h front log" "h p = Some nd"
  shows "shape (PPrint p) as (h(p \<mapsto> nd\<lparr>num := Some n\<rparr>)) front log"
proof -
  obtain bs where "as = p # bs" using assms(1) chain_Some_front by (fastforce simp: shape_def)
  with assms show ?thesis by (auto simp: shape_def set_at_def)
qed

lemma shape_print:
  assumes "shape (PPrint p) as h front log" "Option.bind (h p) num = Some n" "plain q"
  shows "shape q as h front (log @ [Add n])"
proof -
  obtain bs where "as = p # bs" using assms(1) chain_Some_front by (fastforce simp: shape_def)
  with assms show ?thesis by (simp add: shape_plain) (simp add: shape_def replay_append num_at_def)
qed

lemma shape_take:
  assumes "shape (CTake d) as h front log" "Option.bind front h = Some nd"
  shows "shape (CPrint d) (tl as) h (link nd) log"
proof -
  obtain bs where "as = d # bs" using assms(1) chain_Some_front by (fastforce simp: shape_def)
  with assms show ?thesis by (auto simp: shape_def)
qed

lemma shape_cprint:
  assumes "shape (CPrint d) as h front log" "Option.bind (h d) num = Some n"
  shows "shape (CFree d) as h front (log @ [Del n])"
  using assms by (simp add: shape_def replay_append num_at_def)

lemma shape_free:
  assumes "shape (CFree d) as h front log" "plain q"
  shows "shape q as (h(d := None)) front log"
  using assms by (simp add: shape_plain) (auto simp: shape_def)

text \<open>The accesses are safe.\<close>

lemma shape_safe:
  "shape (PNext p) as h front log \<Longrightarrow> h p \<noteq> None"
  "shape (PNum p) as h front log \<Longrightarrow> h p \<noteq> None"
  "shape (PPrint p) as h front log \<Longrightarrow> Option.bind (h p) num \<noteq> None"
  "shape (CTake p) as h front log \<Longrightarrow> Option.bind front h \<noteq> None"
  "shape (CPrint p) as h front log \<Longrightarrow> Option.bind (h p) num \<noteq> None"
  "shape (CFree p) as h front log \<Longrightarrow> h p \<noteq> None"
proof -
  show "shape (PNext p) as h front log \<Longrightarrow> h p \<noteq> None"
    and "shape (CFree p) as h front log \<Longrightarrow> h p \<noteq> None"
    by (auto simp: shape_def)
  show "shape (CPrint p) as h front log \<Longrightarrow> Option.bind (h p) num \<noteq> None"
    by (auto simp: shape_def set_at_def)
  have "as \<noteq> [] \<Longrightarrow> chain h (Some p) as \<Longrightarrow> p \<in> set as" by (cases as) auto
  then show "shape (PNum p) as h front log \<Longrightarrow> h p \<noteq> None"
    and "shape (PPrint p) as h front log \<Longrightarrow> Option.bind (h p) num \<noteq> None"
    by (auto simp: shape_def set_at_def)
  show "shape (CTake p) as h front log \<Longrightarrow> Option.bind front h \<noteq> None"
    by (cases as) (auto simp: shape_def split: option.splits)
qed

text \<open>Between lock and unlock, in all three programs.\<close>

definition crit :: "tpc \<Rightarrow> bool" where
  "crit p \<longleftrightarrow> (case p of PMalloc \<Rightarrow> True | PNull \<Rightarrow> True | PNext _ \<Rightarrow> True | PHead _ \<Rightarrow> True | PNum _ \<Rightarrow> True | PPrint _ \<Rightarrow> True
     | PSignal \<Rightarrow> True | PUnlock \<Rightarrow> True | CRead \<Rightarrow> True | CTake _ \<Rightarrow> True | CPrint _ \<Rightarrow> True | CFree _ \<Rightarrow> True
     | CUnlock \<Rightarrow> True | CWait \<Rightarrow> True | CUnlockElse \<Rightarrow> True | _ \<Rightarrow> False)"

lemma crit_simps [simp]:
  "crit PMalloc" "crit PNull" "crit (PNext q)" "crit (PHead q)" "crit (PNum q)" "crit (PPrint q)" "crit PSignal" "crit PUnlock"
  "crit CRead" "crit (CTake q)" "crit (CPrint q)" "crit (CFree q)" "crit CUnlock" "crit CWait" "crit CUnlockElse"
  "\<not> crit PSemWait" "\<not> crit PLock" "\<not> crit PSemPost" "\<not> crit CSemWait" "\<not> crit CLock" "\<not> crit CSemPost"
  "\<not> crit CSleeping" "\<not> crit CRelock"
  by (simp_all add: crit_def)

definition shaped :: "tpc \<Rightarrow> buf \<Rightarrow> bool" where
  "shaped p s \<longleftrightarrow> (\<exists>as. shape p as (heap s) (head s) (blog s))"

lemma node_goes:
  assumes "t = go i q u" "shape q as (heap u) (head u) (blog u)" "crit q" "\<not> fault u"
    and "threads u = threads s" "mtx u = mtx s" "psem u = psem s" "csem u = csem s" "bmain u = bmain s"
  shows "(fault t \<longrightarrow> threads s ! i = PNull) \<and> mtx t = mtx s \<and> psem t = psem s \<and> csem t = csem s \<and> bmain t = bmain s \<and>
    (\<exists>q. threads t = (threads s)[i := q] \<and> crit q \<and> shaped q t)"
  using assms by (auto simp: shaped_def)

text \<open>The only fault a statement on the list can have is the write through the null pointer.\<close>

lemma node_step_shaped:
  assumes "node_step printed i a r s = Some t" "shaped (threads s ! i) s" "plain printed" "crit printed" "\<not> fault s"
  shows "(fault t \<longrightarrow> threads s ! i = PNull) \<and> mtx t = mtx s \<and> psem t = psem s \<and> csem t = csem s \<and> bmain t = bmain s \<and>
    (\<exists>q. threads t = (threads s)[i := q] \<and> crit q \<and> shaped q t)"
proof -
  obtain as where sh: "shape (threads s ! i) as (heap s) (head s) (blog s)"
    using assms(2) by (auto simp: shaped_def)
  note goes = node_goes [where s = s and t = t and i = i]
  show ?thesis
  proof (cases "threads s ! i")
    case PMalloc
    show ?thesis
    proof (cases a)
      case None
      with assms(1) PMalloc have t: "t = go i PNull s" by (simp add: node_step_def)
      have "shape PNull as (heap s) (head s) (blog s)" using sh PMalloc by (simp add: shape_plain)
      from goes [OF t this] assms(5) show ?thesis by simp
    next
      case (Some p)
      with assms(1) PMalloc have h: "heap s p = None"
        and t: "t = go i (PNext p) (s\<lparr>heap := (heap s)(p \<mapsto> \<lparr>num = None, link = None\<rparr>)\<rparr>)"
        by (auto simp: node_step_def split: if_splits)
      from goes [OF t] shape_malloc [OF sh [unfolded PMalloc] h, of "\<lparr>num = None, link = None\<rparr>"] assms(5)
      show ?thesis by simp
    qed
  next
    case PNull
    with assms(1) have "t = crash s" by (simp add: node_step_def)
    moreover have "threads s = (threads s)[i := PNull]" using PNull by (metis list_update_id)
    moreover have "shaped PNull (crash s)" using assms(2) PNull by (simp add: shaped_def)
    ultimately show ?thesis using PNull by auto
  next
    case (PNext p)
    note sh = sh [unfolded PNext]
    from shape_safe(1) [OF sh] obtain nd where h: "heap s p = Some nd" by auto
    with assms(1) PNext have t: "t = go i (PHead p) (s\<lparr>heap := (heap s)(p \<mapsto> nd\<lparr>link := head s\<rparr>)\<rparr>)"
      by (simp add: node_step_def)
    from goes [OF t] shape_next [OF sh h] assms(5) show ?thesis by simp
  next
    case (PHead p)
    with assms(1) have t: "t = go i (PNum p) (s\<lparr>head := Some p\<rparr>)" by (simp add: node_step_def)
    from goes [OF t] shape_head [OF sh [unfolded PHead]] assms(5) show ?thesis by simp
  next
    case (PNum p)
    note sh = sh [unfolded PNum]
    from shape_safe(2) [OF sh] obtain nd where h: "heap s p = Some nd" by auto
    with assms(1) PNum have t: "t = go i (PPrint p) (s\<lparr>heap := (heap s)(p \<mapsto> nd\<lparr>num := Some (r mod 1000)\<rparr>)\<rparr>)"
      by (simp add: node_step_def)
    from goes [OF t] shape_num [OF sh h, of "r mod 1000"] assms(5) show ?thesis by simp
  next
    case (PPrint p)
    note sh = sh [unfolded PPrint]
    from shape_safe(3) [OF sh] obtain n where h: "Option.bind (heap s p) num = Some n" by auto
    with assms(1) PPrint have t: "t = go i printed (s\<lparr>blog := blog s @ [Add n]\<rparr>)" by (simp add: node_step_def)
    from goes [OF t] shape_print [OF sh h assms(3)] assms(4,5) show ?thesis by simp
  next
    case (CTake d)
    note sh = sh [unfolded CTake]
    from shape_safe(4) [OF sh] obtain nd where h: "Option.bind (head s) (heap s) = Some nd" by auto
    with assms(1) CTake have t: "t = go i (CPrint d) (s\<lparr>head := link nd\<rparr>)" by (simp add: node_step_def)
    from goes [OF t] shape_take [OF sh h] assms(5) show ?thesis by simp
  next
    case (CPrint d)
    note sh = sh [unfolded CPrint]
    from shape_safe(5) [OF sh] obtain n where h: "Option.bind (heap s d) num = Some n" by auto
    with assms(1) CPrint have t: "t = go i (CFree d) (s\<lparr>blog := blog s @ [Del n]\<rparr>)" by (simp add: node_step_def)
    from goes [OF t] shape_cprint [OF sh h] assms(5) show ?thesis by simp
  next
    case (CFree d)
    note sh = sh [unfolded CFree]
    with assms(1) CFree shape_safe(6) [OF sh] have t: "t = go i CUnlock (s\<lparr>heap := (heap s)(d := None)\<rparr>)"
      by (auto simp: node_step_def)
    from goes [OF t] shape_free [OF sh, of CUnlock] assms(5) show ?thesis by simp
  qed (use assms(1) in \<open>simp_all add: node_step_def\<close>)
qed

section \<open>The invariant the programs share\<close>

definition holder_pc :: "buf \<Rightarrow> tpc" where
  "holder_pc s = (case mtx s of None \<Rightarrow> PLock | Some i \<Rightarrow> threads s ! i)"

definition list_inv :: "buf \<Rightarrow> bool" where
  "list_inv s \<longleftrightarrow> (fault s \<longrightarrow> holder_pc s = PNull) \<and> owned crit (mtx s) (threads s) \<and> shaped (holder_pc s) s"

lemma shaped_plain: "plain p \<Longrightarrow> plain q \<Longrightarrow> shaped p s \<longleftrightarrow> shaped q s"
  by (simp add: shaped_def shape_plain)

lemma shaped_cong:
  "heap t = heap s \<Longrightarrow> head t = head s \<Longrightarrow> blog t = blog s \<Longrightarrow> shaped p t \<longleftrightarrow> shaped p s"
  by (simp add: shaped_def)

lemma list_inv_sems [simp]:
  "list_inv (s\<lparr>psem := n\<rparr>) = list_inv s" "list_inv (s\<lparr>csem := n\<rparr>) = list_inv s"
  by (cases "mtx s"; simp add: list_inv_def holder_pc_def shaped_def)+

lemma list_inv_init: "list_inv (buf_init ps cs)"
  by (auto simp: list_inv_def holder_pc_def shaped_def buf_init_def shape_plain intro!: exI [of _ "[]"])

lemma list_inv_holder: "list_inv s \<Longrightarrow> i < length (threads s) \<Longrightarrow> crit (threads s ! i) \<longleftrightarrow> mtx s = Some i"
  by (simp add: list_inv_def owned_crit)

lemma list_inv_lock:
  assumes "list_inv s" "i < length (threads s)" "mutex_lock i p s = Some t" "crit p" "plain p"
  shows "list_inv t"
proof -
  have m: "mtx s = None" and t: "t = go i p (s\<lparr>mtx := Some i\<rparr>)"
    using assms(3) by (auto simp: mutex_lock_def split: if_splits)
  then show ?thesis using assms shaped_plain [of PLock p s]
    by (simp add: list_inv_def holder_pc_def owned_enter shaped_def)
qed

lemma list_inv_unlock:
  assumes "list_inv s" "i < length (threads s)" "mutex_unlock i p s = Some t"
    and "crit (threads s ! i)" "plain (threads s ! i)" "threads s ! i \<noteq> PNull" "\<not> crit p"
  shows "list_inv t"
proof -
  have t: "t = go i p (s\<lparr>mtx := None\<rparr>)" using assms(3) by (simp add: mutex_unlock_def)
  have m: "mtx s = Some i" using assms list_inv_holder by blast
  have "owned crit None ((threads s)[i := p])"
    using assms owned_leave [of crit "mtx s" "threads s" i p] by (simp add: list_inv_def)
  with t m assms shaped_plain [of "threads s ! i" PLock s] show ?thesis
    by (simp add: list_inv_def holder_pc_def shaped_def)
qed

text \<open>A move inside the critical region, or outside it.\<close>

lemma list_inv_inside:
  assumes "list_inv s" "i < length (threads s)" "crit (threads s ! i)" "plain (threads s ! i)" "threads s ! i \<noteq> PNull"
    and "crit p" "plain p"
  shows "list_inv (go i p s)"
proof -
  have m: "mtx s = Some i" using assms list_inv_holder by blast
  with assms shaped_plain [of "threads s ! i" p s] show ?thesis
    by (simp add: list_inv_def holder_pc_def shaped_def owned_stay)
qed

lemma list_inv_outside:
  assumes "list_inv s" "i < length (threads s)" "\<not> crit (threads s ! i)" "\<not> crit p"
  shows "list_inv (go i p s)"
proof -
  have m: "mtx s \<noteq> Some i" using assms list_inv_holder by blast
  then have "holder_pc (go i p s) = holder_pc s"
    by (auto simp: holder_pc_def split: option.split)
  with assms show ?thesis by (simp add: list_inv_def owned_stay shaped_def)
qed

lemma list_inv_take:
  assumes "list_inv s" "i < length (threads s)" "threads s ! i = CRead" "head s = Some d"
  shows "list_inv (go i (CTake d) s)"
proof -
  have m: "mtx s = Some i" using list_inv_holder [OF assms(1,2)] assms(3) by simp
  then have "shaped CRead s" using assms by (simp add: list_inv_def holder_pc_def)
  then have "shaped (CTake d) s" using assms(4) by (simp add: shaped_def shape_plain) (simp add: shape_def)
  with m assms show ?thesis by (simp add: list_inv_def holder_pc_def owned_stay shaped_def)
qed

lemma list_inv_node:
  assumes "list_inv s" "i < length (threads s)" "crit (threads s ! i)" "\<not> fault s"
    and "node_step printed i a r s = Some t" "plain printed" "crit printed"
  shows "list_inv t"
proof -
  have m: "mtx s = Some i" using assms list_inv_holder by blast
  have sh: "shaped (threads s ! i) s" using assms(1) m by (simp add: list_inv_def holder_pc_def)
  note step = node_step_shaped [OF assms(5) sh assms(6,7,4)]
  then obtain q where q: "threads t = (threads s)[i := q]" "crit q" "shaped q t" "mtx t = Some i" using m by auto
  have "holder_pc t = PNull" if "fault t"
  proof -
    have "threads s ! i = PNull" using step that by blast
    with assms(5) have "t = crash s" by (simp add: node_step_def)
    with \<open>threads s ! i = PNull\<close> m show ?thesis by (simp add: holder_pc_def)
  qed
  with q assms(1-3) m show ?thesis
    by (auto simp: list_inv_def holder_pc_def owned_stay)
qed

text \<open>What a fault means, and that only a thread at \<open>PNull\<close> can cause one.\<close>

lemma list_inv_fault: "list_inv s \<Longrightarrow> fault s \<Longrightarrow> \<exists>i < length (threads s). mtx s = Some i \<and> threads s ! i = PNull"
  using owned_lt [of crit _ "threads s"] by (auto simp: list_inv_def holder_pc_def split: option.splits)

lemma not_crash:
  assumes "list_inv s" "list_inv t" "i < length (threads s)" "crit (threads s ! i)" "threads s ! i \<noteq> PNull"
  shows "t \<noteq> crash s"
proof
  assume t: "t = crash s"
  have "mtx s = Some i" using assms list_inv_holder by blast
  then have "holder_pc (crash s) = threads s ! i" by (simp add: holder_pc_def)
  with assms(2,5) t show False by (simp add: list_inv_def)
qed

lemma list_inv_main:
  assumes "list_inv s" "buf_main p c s = Some t" "\<not> crit p" "\<not> crit c"
  shows "list_inv t"
proof -
  have h: "holder_pc t = holder_pc s"
    using assms(1,2) owned_lt [of crit _ "threads s"]
    by (auto simp: list_inv_def buf_main_def holder_pc_def nth_append split: bmain.splits option.splits if_splits)
  have "owned crit (mtx t) (threads t)"
    using assms by (auto simp: list_inv_def buf_main_def intro!: owned_new split: bmain.splits if_splits)
  with h assms show ?thesis
    by (auto simp: list_inv_def buf_main_def shaped_def split: bmain.splits if_splits)
qed

text \<open>What it says when the mutex is free: no leak, no dangling pointer, and the list is the log replayed.\<close>

definition list_is_log :: "buf \<Rightarrow> bool" where
  "list_is_log s \<longleftrightarrow> (\<exists>as. chain (heap s) (head s) as \<and> distinct as \<and> dom (heap s) = set as \<and>
     replay [] (blog s) = Some (map (num_at (heap s)) as))"

lemma list_inv_free: "list_inv s \<Longrightarrow> mtx s = None \<Longrightarrow> list_is_log s"
  by (auto simp: list_inv_def holder_pc_def shaped_def shape_plain list_is_log_def)

lemma list_inv_replay: "list_inv s \<Longrightarrow> replay [] (blog s) \<noteq> None"
  by (cases "holder_pc s") (auto simp: list_inv_def shaped_def shape_def)

end
