(* ===== verification/ProducerConsumer.thy ===== *)
theory ProducerConsumer
  imports Buffer
begin

text \<open>\<^verbatim>\<open>producer_comsumer.c\<close>: only the mutex; a consumer that finds the list empty tries again.\<close>

definition pc_thread :: "nat \<Rightarrow> nat option \<Rightarrow> int \<Rightarrow> buf \<Rightarrow> buf option" where
  "pc_thread i a r s =
     (case threads s ! i of
        PLock \<Rightarrow> mutex_lock i PMalloc s
      | PUnlock \<Rightarrow> mutex_unlock i PLock s
      | CLock \<Rightarrow> mutex_lock i CRead s
      | CRead \<Rightarrow> Some (go i (case head s of None \<Rightarrow> CUnlockElse | Some d \<Rightarrow> CTake d) s)
      | CUnlock \<Rightarrow> mutex_unlock i CLock s
      | CUnlockElse \<Rightarrow> mutex_unlock i CLock s
      | _ \<Rightarrow> node_step PUnlock i a r s)"

definition pc_step :: "buf \<Rightarrow> blabel \<Rightarrow> buf option" where
  "pc_step s l =
     (if fault s then None
      else case l of
        BMain \<Rightarrow> buf_main PLock CLock s
      | Go i a r \<Rightarrow> (if i < length (threads s) then pc_thread i a r s else None)
      | Wake i \<Rightarrow> None)"

definition pc_init :: buf where
  "pc_init = buf_init 0 0"

lemma pc_thread_inv:
  assumes "list_inv s" "i < length (threads s)" "\<not> fault s" "pc_thread i a r s = Some t"
  shows "list_inv t"
proof (cases "threads s ! i")
  case CRead
  with assms show ?thesis
    by (auto simp: pc_thread_def intro: list_inv_inside list_inv_take split: option.splits)
qed (use assms list_inv_lock [OF assms(1,2)] list_inv_unlock [OF assms(1,2)] list_inv_node [OF assms(1,2) _ assms(3)]
     in \<open>simp_all add: pc_thread_def, simp_all add: node_step_def\<close>)

lemma pc_inv_step: "list_inv s \<Longrightarrow> pc_step s l = Some t \<Longrightarrow> list_inv t"
  by (cases l) (auto simp: pc_step_def intro: pc_thread_inv list_inv_main split: if_splits)

interpretation pc: safe_system pc_step pc_init list_inv
  by unfold_locales (auto simp: pc_init_def intro: list_inv_init pc_inv_step)

interpretation pcm: mutex_system pc_step pc_init list_inv crit mtx threads
  by unfold_locales (simp add: list_inv_def)

section \<open>Properties\<close>

text \<open>Claim C12.  In \<^verbatim>\<open>producer_comsumer.c\<close> the one memory error that a schedule of the ten threads can lead to is the write
  through the null pointer that follows a failed \<open>malloc\<close>, which is never checked, and that write does follow: otherwise no thread follows
  a null or dangling pointer, frees a node twice or prints a number never set.  No two threads are between lock
  and unlock; and whenever the mutex is free, the heap holds exactly the nodes of the list, with the numbers
  that were added and not yet taken, newest first.\<close>

theorem producer_consumer_safe:
  assumes "reachable pc_step pc_init s"
  shows "(fault s \<longrightarrow> (\<exists>k < length (threads s). mtx s = Some k \<and> threads s ! k = PNull)) \<and>
    (\<not> fault s \<longrightarrow> i < length (threads s) \<longrightarrow> threads s ! i = PNull \<longrightarrow> pc_step s (Go i a r) = Some (crash s)) \<and>
    replay [] (blog s) \<noteq> None \<and>
    (mtx s = None \<longrightarrow> list_is_log s) \<and>
    (i < length (threads s) \<longrightarrow> j < length (threads s) \<longrightarrow>
           crit (threads s ! i) \<longrightarrow> crit (threads s ! j) \<longrightarrow> i = j)"
proof (intro conjI impI)
  have inv: "list_inv s" using assms by (rule pc.inv_reachable)
  then show "fault s \<Longrightarrow> \<exists>k < length (threads s). mtx s = Some k \<and> threads s ! k = PNull" by (rule list_inv_fault)
  show "\<not> fault s \<Longrightarrow> i < length (threads s) \<Longrightarrow> threads s ! i = PNull \<Longrightarrow> pc_step s (Go i a r) = Some (crash s)"
    by (simp add: pc_step_def pc_thread_def node_step_def)
  show "replay [] (blog s) \<noteq> None" using inv by (rule list_inv_replay)
  show "mtx s = None \<Longrightarrow> list_is_log s" by (rule list_inv_free [OF inv])
  show "i < length (threads s) \<Longrightarrow> j < length (threads s) \<Longrightarrow>
      crit (threads s ! i) \<Longrightarrow> crit (threads s ! j) \<Longrightarrow> i = j"
    by (rule pcm.exclusion [OF assms])
qed

text \<open>One number produced and consumed, while the consumer first finds the list empty.\<close>

lemma producer_consumer_safe_witness:
  "\<exists>s. run pc_step pc_init ([BMain, BMain, Go 1 None 0, Go 1 None 0, Go 1 None 0] @
        map (\<lambda>_. Go 0 (Some 7) 1234) [0..<7] @ map (\<lambda>_. Go 1 None 0) [0..<6]) = Some s \<and>
     blog s = [Add 234, Del 234] \<and> list_is_log s"
proof -
  let ?ls = "[BMain, BMain, Go 1 None 0, Go 1 None 0, Go 1 None 0] @
        map (\<lambda>_. Go 0 (Some 7) 1234) [0..<7] @ map (\<lambda>_. Go 1 None 0) [0..<6]"
  obtain s where s: "run pc_step pc_init ?ls = Some s" "blog s = [Add 234, Del 234]" "mtx s = None"
    by (simp add: pc_step_def pc_init_def buf_init_def buf_main_def pc_thread_def mutex_lock_def
        mutex_unlock_def node_step_def go_def upt_rec numeral_eq_Suc)
  from producer_consumer_safe [OF run_reachable [OF s(1)]] s show ?thesis by blast
qed

end
