(* ===== verification/CondBuffer.thy ===== *)
theory CondBuffer
  imports Buffer
begin

text \<open>
  \<^verbatim>\<open>pthread_condition.c\<close>: a consumer that finds the list empty waits on the condition variable, which
  frees the mutex; a producer signals after each node.  A signal wakes one waiting thread, if there
  is one; a wait may also end without a signal.  The woken thread takes the mutex again, frees it
  and starts over.
\<close>

definition sleepers :: "buf \<Rightarrow> bool" where
  "sleepers s \<longleftrightarrow> CSleeping \<in> set (threads s)"

definition cond_thread :: "nat \<Rightarrow> nat option \<Rightarrow> int \<Rightarrow> buf \<Rightarrow> buf option" where
  "cond_thread i a r s =
     (case threads s ! i of
        PLock \<Rightarrow> mutex_lock i PMalloc s
      | PSignal \<Rightarrow>
          (if \<not> sleepers s then Some (go i PUnlock s)
           else case a of
             None \<Rightarrow> None
           | Some w \<Rightarrow>
               (if w < length (threads s) \<and> threads s ! w = CSleeping then Some (go i PUnlock (go w CRelock s)) else None))
      | PUnlock \<Rightarrow> mutex_unlock i PLock s
      | CLock \<Rightarrow> mutex_lock i CRead s
      | CRead \<Rightarrow> Some (go i (case head s of None \<Rightarrow> CWait | Some d \<Rightarrow> CTake d) s)
      | CUnlock \<Rightarrow> mutex_unlock i CLock s
      | CWait \<Rightarrow> mutex_unlock i CSleeping s
      | CRelock \<Rightarrow> mutex_lock i CUnlockElse s
      | CUnlockElse \<Rightarrow> mutex_unlock i CLock s
      | _ \<Rightarrow> node_step PSignal i a r s)"

definition cond_step :: "buf \<Rightarrow> blabel \<Rightarrow> buf option" where
  "cond_step s l =
     (if fault s then None
      else case l of
        BMain \<Rightarrow> buf_main PLock CLock s
      | Go i a r \<Rightarrow> (if i < length (threads s) then cond_thread i a r s else None)
      | Wake i \<Rightarrow> (if i < length (threads s) \<and> threads s ! i = CSleeping then Some (go i CRelock s) else None))"

definition cond_init :: buf where
  "cond_init = buf_init 0 0"

section \<open>No lost wake-up\<close>

definition consumer :: "tpc \<Rightarrow> bool" where
  "consumer p \<longleftrightarrow> (case p of CSemWait \<Rightarrow> True | CLock \<Rightarrow> True | CRead \<Rightarrow> True | CTake _ \<Rightarrow> True | CPrint _ \<Rightarrow> True
     | CFree _ \<Rightarrow> True | CUnlock \<Rightarrow> True | CSemPost \<Rightarrow> True | CWait \<Rightarrow> True | CSleeping \<Rightarrow> True | CRelock \<Rightarrow> True
     | CUnlockElse \<Rightarrow> True | _ \<Rightarrow> False)"

definition awake :: "tpc \<Rightarrow> bool" where
  "awake p \<longleftrightarrow> consumer p \<and> p \<noteq> CSleeping"

text \<open>A producer that has linked its node and is still to signal.\<close>

definition about_to_signal :: "tpc \<Rightarrow> bool" where
  "about_to_signal p \<longleftrightarrow> (case p of PNum _ \<Rightarrow> True | PPrint _ \<Rightarrow> True | PSignal \<Rightarrow> True | _ \<Rightarrow> False)"

definition wake_ok :: "buf \<Rightarrow> bool" where
  "wake_ok s \<longleftrightarrow> head s = None \<or> (\<exists>p\<in>set (threads s). awake p) \<or> (\<forall>p\<in>set (threads s). \<not> consumer p) \<or>
     about_to_signal (holder_pc s)"

definition cond_inv :: "buf \<Rightarrow> bool" where
  "cond_inv s \<longleftrightarrow> list_inv s \<and> wake_ok s \<and> (holder_pc s = CWait \<longrightarrow> head s = None)"

lemma consumer_simps [simp]:
  "consumer CSemWait" "consumer CSemPost" "consumer CLock" "consumer CRead" "consumer (CTake d)" "consumer (CPrint d)" "consumer (CFree d)"
  "consumer CUnlock" "consumer CWait" "consumer CSleeping" "consumer CRelock" "consumer CUnlockElse"
  "\<not> consumer PSemWait" "\<not> consumer PSemPost" "\<not> consumer PLock" "\<not> consumer PMalloc" "\<not> consumer PNull" "\<not> consumer (PNext p)" "\<not> consumer (PHead p)" "\<not> consumer (PNum p)"
  "\<not> consumer (PPrint p)" "\<not> consumer PSignal" "\<not> consumer PUnlock"
  by (simp_all add: consumer_def)

lemma signal_simps [simp]:
  "about_to_signal (PNum p)" "about_to_signal (PPrint p)" "about_to_signal PSignal"
  "\<not> about_to_signal PLock" "\<not> about_to_signal PMalloc" "\<not> about_to_signal PNull" "\<not> about_to_signal (PNext p)"
  "\<not> about_to_signal (PHead p)" "\<not> about_to_signal PUnlock" "\<not> about_to_signal CRead"
  by (simp_all add: about_to_signal_def)

lemma wake_awake: "threads t = (threads s)[i := q] \<Longrightarrow> i < length (threads s) \<Longrightarrow> awake q \<Longrightarrow> wake_ok t"
  by (auto simp: wake_ok_def intro!: bexI [of _ q] set_update_memI)

lemma wake_producer:
  assumes "wake_ok s" "threads t = (threads s)[i := q]" "i < length (threads s)"
    and "\<not> consumer (threads s ! i)" "\<not> consumer q" "head t = head s"
    and "about_to_signal (holder_pc s) \<Longrightarrow> about_to_signal (holder_pc t)"
  shows "wake_ok t"
proof -
  have up: "p \<in> set (threads t)" if "p \<in> set (threads s)" "awake p" for p
  proof -
    obtain j where j: "j < length (threads s)" "threads s ! j = p" using \<open>p \<in> set (threads s)\<close> by (auto simp: in_set_conv_nth)
    then have "j \<noteq> i" using assms(4) \<open>awake p\<close> by (auto simp: awake_def)
    with j assms(2) show ?thesis by (metis length_list_update nth_list_update_neq nth_mem)
  qed
  have "\<forall>p\<in>set (threads t). \<not> consumer p" if "\<forall>p\<in>set (threads s). \<not> consumer p"
    using ball_update [OF that, of q i] assms(2,5) by simp
  with up assms show ?thesis unfolding wake_ok_def by metis
qed

lemma holder_go [simp]: "mtx s = Some i \<Longrightarrow> i < length (threads s) \<Longrightarrow> holder_pc (go i q s) = q"
  by (simp add: holder_pc_def)

lemma cond_signal_inv:
  assumes "list_inv s" "i < length (threads s)" "threads s ! i = PSignal" "w < length (threads s)" "threads s ! w = CSleeping"
  shows "list_inv (go i PUnlock (go w CRelock s))"
proof -
  have "list_inv (go w CRelock s)" using assms by (intro list_inv_outside) simp_all
  note woken = this
  have "w \<noteq> i" using assms by auto
  show ?thesis by (rule list_inv_inside [OF woken]) (use assms \<open>w \<noteq> i\<close> in simp_all)
qed

lemma cond_thread_list:
  assumes "list_inv s" "i < length (threads s)" "\<not> fault s" "cond_thread i a r s = Some t"
  shows "list_inv t"
proof (cases "threads s ! i")
  case CRead
  with assms show ?thesis
    by (auto simp: cond_thread_def intro: list_inv_inside list_inv_take split: option.splits)
next
  case PSignal
  with assms show ?thesis
    by (auto simp: cond_thread_def intro: list_inv_inside cond_signal_inv split: option.splits if_splits)
qed (use assms list_inv_lock [OF assms(1,2)] list_inv_unlock [OF assms(1,2)] list_inv_node [OF assms(1,2) _ assms(3)]
     in \<open>simp_all add: cond_thread_def, simp_all add: node_step_def\<close>)

text \<open>A producer's step: either it stays a producer that has changed neither list nor signal, or it is the linking one.\<close>

lemma cond_producer_wake:
  assumes "cond_inv s" "i < length (threads s)" "cond_thread i a r s = Some t" "\<not> consumer (threads s ! i)"
    and "threads s ! i \<noteq> PSemWait" "threads s ! i \<noteq> PSemPost"
  shows "wake_ok t \<and> holder_pc t \<noteq> CWait"
proof -
  have ok: "list_inv s" "wake_ok s" using assms(1) by (simp_all add: cond_inv_def)
  have hold: "crit (threads s ! i) \<longleftrightarrow> mtx s = Some i" using list_inv_holder [OF ok(1) assms(2)] .
  have same: "wake_ok t" if "threads t = threads s" "head t = head s" "mtx t = mtx s"
  proof -
    have "holder_pc t = holder_pc s" using that by (cases "mtx s") (simp_all add: holder_pc_def)
    with ok(2) that show ?thesis by (simp add: wake_ok_def)
  qed
  note keep = wake_producer [OF ok(2) _ assms(2,4), of t]
  show ?thesis
  proof (cases "threads s ! i")
    case PLock
    with assms(2,3) have t: "mtx s = None" "t = go i PMalloc (s\<lparr>mtx := Some i\<rparr>)"
      by (auto simp: cond_thread_def mutex_lock_def split: if_splits)
    with keep [of PMalloc] assms(2) show ?thesis by (simp add: holder_pc_def)
  next
    case PMalloc
    with hold have m: "mtx s = Some i" "holder_pc s = PMalloc" by (simp_all add: holder_pc_def)
    show ?thesis
    proof (cases a)
      case None
      with assms(3) PMalloc have "t = go i PNull s" by (simp add: cond_thread_def node_step_def)
      with keep [of PNull] m assms(2) show ?thesis by (simp add: holder_pc_def)
    next
      case (Some p)
      with assms(3) PMalloc have "t = go i (PNext p) (s\<lparr>heap := (heap s)(p \<mapsto> \<lparr>num = None, link = None\<rparr>)\<rparr>)"
        by (simp add: cond_thread_def node_step_def split: if_splits)
      with keep [of "PNext p"] m assms(2) show ?thesis by (simp add: holder_pc_def)
    qed
  next
    case PNull
    with hold have m: "mtx s = Some i" "holder_pc s = PNull" by (simp_all add: holder_pc_def)
    from assms(3) PNull have "t = crash s" by (simp add: cond_thread_def node_step_def)
    with same m PNull show ?thesis by (simp add: holder_pc_def)
  next
    case (PNext p)
    with hold have m: "mtx s = Some i" "holder_pc s = PNext p" by (simp_all add: holder_pc_def)
    with assms(3) PNext same keep [of "PHead p"] assms(2) show ?thesis
      by (auto simp: cond_thread_def node_step_def crash_def holder_pc_def split: option.splits)
  next
    case (PHead p)
    with hold have "mtx s = Some i" by simp
    with assms(2,3) PHead have "holder_pc t = PNum p" by (auto simp: cond_thread_def node_step_def holder_pc_def)
    then show ?thesis by (simp add: wake_ok_def)
  next
    case (PNum p)
    with hold have m: "mtx s = Some i" "holder_pc s = PNum p" by (simp_all add: holder_pc_def)
    with assms(3) PNum same keep [of "PPrint p"] assms(2) show ?thesis
      by (auto simp: cond_thread_def node_step_def crash_def holder_pc_def split: option.splits)
  next
    case (PPrint p)
    with hold have m: "mtx s = Some i" "holder_pc s = PPrint p" by (simp_all add: holder_pc_def)
    with assms(3) PPrint same keep [of PSignal] assms(2) show ?thesis
      by (auto simp: cond_thread_def node_step_def crash_def holder_pc_def split: option.splits)
  next
    case PSignal
    with hold have m: "mtx s = Some i" "holder_pc s = PSignal" by (simp_all add: holder_pc_def)
    show ?thesis
    proof (cases "sleepers s")
      case False
      with assms(3) PSignal have t: "t = go i PUnlock s" by (simp add: cond_thread_def)
      have "(\<exists>p\<in>set (threads s). awake p) \<or> (\<forall>p\<in>set (threads s). \<not> consumer p)"
        using False by (auto simp: sleepers_def awake_def)
      then have "wake_ok (s\<lparr>mtx := None\<rparr>)" by (auto simp: wake_ok_def)
      from wake_producer [OF this, of t i PUnlock] t m assms(2,4) show ?thesis by (simp add: holder_pc_def)
    next
      case True
      then obtain w where w: "w < length (threads s)" "threads s ! w = CSleeping" "t = go i PUnlock (go w CRelock s)"
        using assms(3) PSignal by (auto simp: cond_thread_def split: option.splits if_splits)
      then have "w \<noteq> i" using PSignal by auto
      then have "threads t = (threads (go i PUnlock s))[w := CRelock]" using w(3) by (simp add: list_update_swap)
      from wake_awake [OF this] w m assms(2) \<open>w \<noteq> i\<close> show ?thesis by (simp add: awake_def holder_pc_def)
    qed
  next
    case PUnlock
    with hold have m: "mtx s = Some i" "holder_pc s = PUnlock" by (simp_all add: holder_pc_def)
    with assms(3) PUnlock keep [of PLock] assms(2) show ?thesis
      by (auto simp: cond_thread_def mutex_unlock_def holder_pc_def)
  qed (use assms(4-6) in simp_all)
qed

text \<open>A consumer's step leaves it awake, unless it goes to sleep, which it does on the empty list.\<close>

lemma cond_consumer_wake:
  assumes "cond_inv s" "i < length (threads s)" "cond_thread i a r s = Some t" "consumer (threads s ! i)"
    and "threads s ! i \<noteq> CSemWait" "threads s ! i \<noteq> CSemPost"
  shows "wake_ok t \<and> (holder_pc t = CWait \<longrightarrow> head t = None)"
proof -
  have ok: "list_inv s" using assms(1) by (simp add: cond_inv_def)
  have hold: "crit (threads s ! i) \<longleftrightarrow> mtx s = Some i" using list_inv_holder [OF ok assms(2)] .
  have crashed: "wake_ok (crash s) \<and> holder_pc (crash s) \<noteq> CWait" if "crit (threads s ! i)" "threads s ! i \<noteq> CWait"
    using that assms(1) hold by (simp add: cond_inv_def wake_ok_def crash_def holder_pc_def)
  note up = wake_awake [OF _ assms(2), of t]
  show ?thesis
  proof (cases "threads s ! i")
    case CWait
    with hold assms(1) have "mtx s = Some i" "head s = None" by (simp_all add: cond_inv_def holder_pc_def)
    with assms(2,3) CWait show ?thesis
      by (auto simp: cond_thread_def mutex_unlock_def wake_ok_def holder_pc_def)
  next
    case CLock
    with assms(2,3) up [of CRead] show ?thesis
      by (auto simp: cond_thread_def mutex_lock_def holder_pc_def awake_def split: if_splits)
  next
    case CRead
    with assms(2,3) hold up show ?thesis
      by (auto simp: cond_thread_def holder_pc_def awake_def split: option.splits)
  next
    case (CTake d)
    with assms(2,3) hold crashed up show ?thesis
      by (auto simp: cond_thread_def node_step_def holder_pc_def awake_def split: option.splits)
  next
    case (CPrint d)
    with assms(2,3) hold crashed up show ?thesis
      by (auto simp: cond_thread_def node_step_def holder_pc_def awake_def split: option.splits)
  next
    case (CFree d)
    with assms(2,3) hold crashed up show ?thesis
      by (auto simp: cond_thread_def node_step_def holder_pc_def awake_def split: if_splits)
  next
    case CUnlock
    with assms(2,3) hold up [of CLock] show ?thesis
      by (auto simp: cond_thread_def mutex_unlock_def holder_pc_def awake_def)
  next
    case CUnlockElse
    with assms(2,3) hold up [of CLock] show ?thesis
      by (auto simp: cond_thread_def mutex_unlock_def holder_pc_def awake_def)
  next
    case CRelock
    with assms(2,3) up [of CUnlockElse] show ?thesis
      by (auto simp: cond_thread_def mutex_lock_def holder_pc_def awake_def split: if_splits)
  next
    case CSleeping
    with assms(3) show ?thesis by (simp add: cond_thread_def node_step_def)
  qed (use assms(4-6) in simp_all)
qed

lemma cond_main_inv:
  assumes "cond_inv s" "buf_main PLock CLock s = Some t"
  shows "cond_inv t"
proof -
  have list: "list_inv t" using assms list_inv_main [of s PLock CLock t] by (simp add: cond_inv_def)
  have own: "owned crit (mtx s) (threads s)" using assms(1) by (simp add: cond_inv_def list_inv_def)
  have h: "holder_pc t = holder_pc s"
    using own assms(2) owned_lt [of crit _ "threads s"]
    by (auto simp: buf_main_def holder_pc_def nth_append split: bmain.splits option.splits if_splits)
  have t: "head t = head s" "threads t = threads s \<or> threads t = threads s @ [PLock] \<or> threads t = threads s @ [CLock]"
    using assms(2) by (auto simp: buf_main_def split: bmain.splits if_splits)
  have w: "wake_ok s" using assms(1) by (simp add: cond_inv_def)
  from t(2) have "wake_ok t"
  proof (elim disjE)
    assume "threads t = threads s @ [CLock]"
    then have "awake CLock" "CLock \<in> set (threads t)" by (simp_all add: awake_def)
    then show ?thesis unfolding wake_ok_def by blast
  qed (use w t(1) h in \<open>simp_all add: wake_ok_def awake_def\<close>)
  with list h t assms(1) show ?thesis by (simp add: cond_inv_def)
qed

lemma cond_wake_inv:
  assumes "cond_inv s" "i < length (threads s)" "threads s ! i = CSleeping"
  shows "cond_inv (go i CRelock s)"
proof -
  have list: "list_inv s" using assms(1) by (simp add: cond_inv_def)
  have "mtx s \<noteq> Some i" using list_inv_holder [OF list assms(2)] assms(3) by simp
  then have "holder_pc (go i CRelock s) = holder_pc s" by (auto simp: holder_pc_def split: option.split)
  moreover have "wake_ok (go i CRelock s)" by (rule wake_awake [OF _ assms(2), of _ CRelock]) (simp_all add: awake_def)
  moreover have "list_inv (go i CRelock s)" using list assms(2,3) by (intro list_inv_outside) simp_all
  ultimately show ?thesis using assms(1) by (simp add: cond_inv_def)
qed

lemma cond_thread_inv:
  assumes "cond_inv s" "i < length (threads s)" "\<not> fault s" "cond_thread i a r s = Some t"
  shows "cond_inv t"
proof -
  have "list_inv s" using assms(1) by (simp add: cond_inv_def)
  from cond_thread_list [OF this assms(2-4)] have "list_inv t" .
  moreover have pcs: "threads s ! i \<noteq> PSemWait" "threads s ! i \<noteq> PSemPost" "threads s ! i \<noteq> CSemWait" "threads s ! i \<noteq> CSemPost"
    using assms(4) by (auto simp: cond_thread_def node_step_def)
  ultimately show ?thesis
    using cond_producer_wake [OF assms(1,2,4)] cond_consumer_wake [OF assms(1,2,4)]
    by (cases "consumer (threads s ! i)") (auto simp: cond_inv_def)
qed

lemma cond_inv_step: "cond_inv s \<Longrightarrow> cond_step s l = Some t \<Longrightarrow> cond_inv t"
  by (cases l) (auto simp: cond_step_def intro: cond_thread_inv cond_main_inv cond_wake_inv split: if_splits)

lemma cond_inv_init: "cond_inv cond_init"
  using list_inv_init [of 0 0] by (simp add: cond_inv_def cond_init_def wake_ok_def) (simp add: buf_init_def holder_pc_def)

interpretation cb: safe_system cond_step cond_init cond_inv
  by unfold_locales (auto intro: cond_inv_init cond_inv_step)

interpretation cbm: mutex_system cond_step cond_init cond_inv crit mtx threads
  by unfold_locales (simp add: cond_inv_def list_inv_def)

section \<open>Properties\<close>

text \<open>Claim C6.  The one memory error that a schedule of \<^verbatim>\<open>pthread_condition.c\<close>, spurious wake-ups included, can lead
  to is the write through the null pointer that follows a failed \<open>malloc\<close>, which is never checked, and that write does follow;
  whenever the mutex is free, the list is the log replayed; and no wake-up is lost: whenever the mutex is free, the list holds a
  node and some thread sleeps on the condition variable, another consumer is awake to take the node.\<close>

theorem cond_buffer_safe:
  assumes "reachable cond_step cond_init s"
  shows "(fault s \<longrightarrow> (\<exists>k < length (threads s). mtx s = Some k \<and> threads s ! k = PNull)) \<and>
    (\<not> fault s \<longrightarrow> i < length (threads s) \<longrightarrow> threads s ! i = PNull \<longrightarrow> cond_step s (Go i a r) = Some (crash s)) \<and>
    replay [] (blog s) \<noteq> None \<and>
    (mtx s = None \<longrightarrow> list_is_log s) \<and>
    (mtx s = None \<longrightarrow> head s \<noteq> None \<longrightarrow> sleepers s \<longrightarrow> (\<exists>p\<in>set (threads s). awake p))"
proof (intro conjI impI)
  have inv: "cond_inv s" using assms by (rule cb.inv_reachable)
  then have list: "list_inv s" by (simp add: cond_inv_def)
  then show "fault s \<Longrightarrow> \<exists>k < length (threads s). mtx s = Some k \<and> threads s ! k = PNull" by (rule list_inv_fault)
  show "\<not> fault s \<Longrightarrow> i < length (threads s) \<Longrightarrow> threads s ! i = PNull \<Longrightarrow> cond_step s (Go i a r) = Some (crash s)"
    by (simp add: cond_step_def cond_thread_def node_step_def)
  show "replay [] (blog s) \<noteq> None" using list by (rule list_inv_replay)
  show "mtx s = None \<Longrightarrow> list_is_log s" by (rule list_inv_free [OF list])
  show "mtx s = None \<Longrightarrow> head s \<noteq> None \<Longrightarrow> sleepers s \<Longrightarrow> \<exists>p\<in>set (threads s). awake p"
    using inv by (fastforce simp: cond_inv_def wake_ok_def holder_pc_def sleepers_def)
qed

text \<open>Two consumers wait, a producer adds one node and wakes the second of them.\<close>

lemma cond_buffer_safe_witness:
  "\<exists>s. run cond_step cond_init ([BMain, BMain, BMain, BMain] @ map (\<lambda>_. Go 1 None 0) [0..<3] @
        map (\<lambda>_. Go 3 None 0) [0..<3] @ map (\<lambda>_. Go 0 (Some 3) 41) [0..<8]) = Some s \<and>
     blog s = [Add 41] \<and> sleepers s \<and> (\<exists>p\<in>set (threads s). awake p)"
proof -
  let ?ls = "map (\<lambda>_. Go 1 None 0) [0..<3] @ map (\<lambda>_. Go 3 None 0) [0..<3] @ map (\<lambda>_. Go 0 (Some 3) 41) [0..<8]"
  let ?m = "cond_init\<lparr>threads := [PLock, CLock, PLock, CLock], bmain := Creating 4\<rparr>"
  have m: "run cond_step cond_init [BMain, BMain, BMain, BMain] = Some ?m"
    by (simp add: cond_step_def cond_init_def buf_init_def buf_main_def)
  obtain s where s: "run cond_step ?m ?ls = Some s" "blog s = [Add 41]" "mtx s = None" "head s \<noteq> None" "sleepers s"
    by (simp add: cond_step_def cond_init_def buf_init_def cond_thread_def mutex_lock_def
        mutex_unlock_def node_step_def go_def sleepers_def upt_rec numeral_eq_Suc)
  with m have all: "run cond_step cond_init ([BMain, BMain, BMain, BMain] @ ?ls) = Some s"
    by (subst run_append) simp
  from cond_buffer_safe [OF run_reachable [OF all]] all s show ?thesis by blast
qed

end
