(* ===== verification/SemBuffer.thy ===== *)
theory SemBuffer
  imports Buffer
begin

text \<open>
  \<^verbatim>\<open>semaphore.c\<close>: \<open>psem\<close>, from 8, counts the nodes that may still be added, \<open>csem\<close>, from 0, those that may be
  taken.  The consumer does not look whether the list is empty; that it never is follows from the
  semaphores.
\<close>

definition sem_thread :: "nat \<Rightarrow> nat option \<Rightarrow> int \<Rightarrow> buf \<Rightarrow> buf option" where
  "sem_thread i a r s =
     (case threads s ! i of
        PSemWait \<Rightarrow> (if 0 < psem s then Some (go i PLock (s\<lparr>psem := psem s - 1\<rparr>)) else None)
      | PLock \<Rightarrow> mutex_lock i PMalloc s
      | PUnlock \<Rightarrow> mutex_unlock i PSemPost s
      | PSemPost \<Rightarrow> Some (go i PSemWait (s\<lparr>csem := csem s + 1\<rparr>))
      | CSemWait \<Rightarrow> (if 0 < csem s then Some (go i CLock (s\<lparr>csem := csem s - 1\<rparr>)) else None)
      | CLock \<Rightarrow> mutex_lock i CRead s
      | CRead \<Rightarrow> Some (case head s of None \<Rightarrow> crash s | Some d \<Rightarrow> go i (CTake d) s)
      | CUnlock \<Rightarrow> mutex_unlock i CSemPost s
      | CSemPost \<Rightarrow> Some (go i CSemWait (s\<lparr>psem := psem s + 1\<rparr>))
      | _ \<Rightarrow> node_step PUnlock i a r s)"

definition sem_step :: "buf \<Rightarrow> blabel \<Rightarrow> buf option" where
  "sem_step s l =
     (if fault s then None
      else case l of
        BMain \<Rightarrow> buf_main PSemWait CSemWait s
      | Go i a r \<Rightarrow> (if i < length (threads s) then sem_thread i a r s else None)
      | Wake i \<Rightarrow> None)"

definition sem_init :: buf where
  "sem_init = buf_init 8 0"

section \<open>Invariant\<close>

text \<open>
  A number is accounted for in the list, by \<open>csem\<close>, by a producer that has logged it and is still to
  post, or by a consumer that has waited for it and is still to log it.  Every unit of the eight is in
  one of the semaphores or with a thread that is not waiting for one.
\<close>

definition unposted :: "tpc \<Rightarrow> nat" where
  "unposted p = (case p of PUnlock \<Rightarrow> 1 | PSemPost \<Rightarrow> 1 | CLock \<Rightarrow> 1 | CRead \<Rightarrow> 1 | CTake _ \<Rightarrow> 1 | CPrint _ \<Rightarrow> 1 | _ \<Rightarrow> 0)"

definition inflight :: "tpc \<Rightarrow> nat" where
  "inflight p = (case p of PSemWait \<Rightarrow> 0 | CSemWait \<Rightarrow> 0 | _ \<Rightarrow> 1)"

definition total :: "(tpc \<Rightarrow> nat) \<Rightarrow> buf \<Rightarrow> nat" where
  "total f s = sum_list (map f (threads s))"

definition sem_inv :: "buf \<Rightarrow> bool" where
  "sem_inv s \<longleftrightarrow> list_inv s \<and> psem s + csem s + total inflight s = 8 \<and>
     map_option length (replay [] (blog s)) = Some (csem s + total unposted s)"

lemma weights [simp]:
  "unposted PUnlock = 1" "unposted PSemPost = 1" "unposted CLock = 1" "unposted CRead = 1"
  "unposted (CTake d) = 1" "unposted (CPrint d) = 1" "unposted PSemWait = 0" "unposted PLock = 0"
  "unposted PMalloc = 0" "unposted PNull = 0" "unposted (PNext d) = 0" "unposted (PHead d) = 0" "unposted (PNum d) = 0"
  "unposted (PPrint d) = 0" "unposted CSemWait = 0" "unposted (CFree d) = 0" "unposted CUnlock = 0"
  "unposted CSemPost = 0"
  "inflight PUnlock = 1" "inflight PSemPost = 1" "inflight CLock = 1" "inflight CRead = 1"
  "inflight (CTake d) = 1" "inflight (CPrint d) = 1" "inflight PSemWait = 0" "inflight PLock = 1"
  "inflight PMalloc = 1" "inflight PNull = 1" "inflight (PNext d) = 1" "inflight (PHead d) = 1" "inflight (PNum d) = 1"
  "inflight (PPrint d) = 1" "inflight CSemWait = 0" "inflight (CFree d) = 1" "inflight CUnlock = 1"
  "inflight CSemPost = 1"
  by (simp_all add: unposted_def inflight_def)

lemma total_move:
  "threads t = (threads s)[i := q] \<Longrightarrow> i < length (threads s) \<Longrightarrow> total f t + f (threads s ! i) = total f s + f q"
  by (simp add: total_def sum_list_update_nat)

lemma total_ge: "i < length (threads s) \<Longrightarrow> f (threads s ! i) \<le> total f s"
  by (simp add: total_def member_le_sum_list)

lemma unposted_le_inflight: "total unposted s \<le> total inflight s"
  by (auto simp: total_def unposted_def inflight_def intro!: sum_list_mono split: tpc.split)

text \<open>The semaphores guarantee that a consumer finds a node.\<close>

lemma sem_head:
  assumes "sem_inv s" "i < length (threads s)" "threads s ! i = CRead"
  shows "head s \<noteq> None"
proof -
  have "mtx s = Some i"
    using list_inv_holder [of s i] assms by (simp add: sem_inv_def)
  then obtain as where as: "shape CRead as (heap s) (head s) (blog s)"
    using assms by (auto simp: sem_inv_def list_inv_def holder_pc_def shaped_def)
  then have "length as = csem s + total unposted s"
    using assms(1) by (simp add: sem_inv_def shape_plain)
  moreover have "1 \<le> total unposted s" using total_ge [OF assms(2), of unposted] assms(3) by simp
  ultimately have "as \<noteq> []" by auto
  with as show ?thesis by (cases as) (auto simp: shape_plain)
qed

lemma sem_thread_list:
  assumes "sem_inv s" "i < length (threads s)" "\<not> fault s" "sem_thread i a r s = Some t"
  shows "list_inv t"
proof -
  have s: "list_inv s" using assms(1) by (simp add: sem_inv_def)
  show ?thesis
  proof (cases "threads s ! i")
    case CRead
    with assms s sem_head [OF assms(1,2)] show ?thesis
      by (auto simp: sem_thread_def intro: list_inv_take)
  next
    case PSemWait
    with assms s show ?thesis
      by (auto simp: sem_thread_def intro!: list_inv_outside split: if_splits)
  next
    case PSemPost
    with assms s show ?thesis by (auto simp: sem_thread_def intro!: list_inv_outside)
  next
    case CSemWait
    with assms s show ?thesis
      by (auto simp: sem_thread_def intro!: list_inv_outside split: if_splits)
  next
    case CSemPost
    with assms s show ?thesis by (auto simp: sem_thread_def intro!: list_inv_outside)
  qed (use assms(2,4) list_inv_lock [OF s assms(2)] list_inv_unlock [OF s assms(2)] list_inv_node [OF s assms(2) _ assms(3)]
       in \<open>simp_all add: sem_thread_def, simp_all add: node_step_def\<close>)
qed

text \<open>The accounts of one step.\<close>

lemma sem_account:
  assumes "sem_inv s" "i < length (threads s)" "threads t = (threads s)[i := q]"
    and "psem t + csem t + inflight q = psem s + csem s + inflight (threads s ! i)"
    and "map_option length (replay [] (blog t)) =
           map_option (\<lambda>n. n + csem t + unposted q - csem s - unposted (threads s ! i)) (map_option length (replay [] (blog s)))"
    and "list_inv t"
  shows "sem_inv t"
proof -
  have "total unposted t + unposted (threads s ! i) = total unposted s + unposted q"
    "total inflight t + inflight (threads s ! i) = total inflight s + inflight q"
    using total_move [OF assms(3,2)] by auto
  with assms show ?thesis by (auto simp: sem_inv_def)
qed

lemma replay_add: "map_option length (replay [] (log @ [Add n])) = map_option Suc (map_option length (replay [] log))"
  by (cases "replay [] log") (simp_all add: replay_append)

lemma replay_del:
  assumes "replay [] (log @ [Del n]) \<noteq> None"
  shows "map_option length (replay [] (log @ [Del n])) = map_option (\<lambda>k. k - 1) (map_option length (replay [] log))"
proof (cases "replay [] log")
  case (Some xs)
  with assms show ?thesis by (cases xs) (auto simp: replay_append split: if_splits)
qed (use assms in \<open>simp add: replay_append\<close>)

lemma sem_thread_inv:
  assumes "sem_inv s" "i < length (threads s)" "\<not> fault s" "sem_thread i a r s = Some t"
  shows "sem_inv t"
proof -
  have list: "list_inv t" by (rule sem_thread_list [OF assms])
  have s: "list_inv s" using assms(1) by (simp add: sem_inv_def)
  note acc = sem_account [OF assms(1,2) _ _ _ list]
  note ok = not_crash [OF s list assms(2)]
  show ?thesis
  proof (cases "threads s ! i")
    case PSemWait
    with assms(4) acc [of PLock] show ?thesis by (auto simp: sem_thread_def option.map_comp comp_def split: if_splits)
  next
    case PLock
    with assms(4) acc [of PMalloc] show ?thesis
      by (auto simp: sem_thread_def mutex_lock_def option.map_ident split: if_splits)
  next
    case PMalloc
    show ?thesis
    proof (cases a)
      case None
      with PMalloc assms(4) have "t = go i PNull s" by (simp add: sem_thread_def node_step_def)
      with acc [of PNull] PMalloc show ?thesis by (simp add: option.map_ident)
    next
      case (Some p)
      with PMalloc assms(4) have "t = go i (PNext p) (s\<lparr>heap := (heap s)(p \<mapsto> \<lparr>num = None, link = None\<rparr>)\<rparr>)"
        by (simp add: sem_thread_def node_step_def split: if_splits)
      with acc [of "PNext p"] PMalloc show ?thesis by (simp add: option.map_ident)
    qed
  next
    case PNull
    with assms(4) have "t = crash s" by (simp add: sem_thread_def node_step_def)
    with assms(1) list show ?thesis by (simp add: sem_inv_def total_def)
  next
    case (PNext p)
    with assms(4) ok acc [of "PHead p"] show ?thesis
      by (auto simp: sem_thread_def node_step_def option.map_ident split: option.splits)
  next
    case (PHead p)
    with assms(4) acc [of "PNum p"] show ?thesis
      by (auto simp: sem_thread_def node_step_def option.map_ident)
  next
    case (PNum p)
    with assms(4) ok acc [of "PPrint p"] show ?thesis
      by (auto simp: sem_thread_def node_step_def option.map_ident split: option.splits)
  next
    case (PPrint p)
    with assms(4) ok obtain n where "t = go i PUnlock (s\<lparr>blog := blog s @ [Add n]\<rparr>)"
      by (auto simp: sem_thread_def node_step_def split: option.splits)
    with PPrint acc [of PUnlock] show ?thesis by (simp add: replay_add option.map_comp comp_def)
  next
    case PUnlock
    with assms(4) acc [of PSemPost] show ?thesis by (auto simp: sem_thread_def mutex_unlock_def option.map_ident)
  next
    case PSemPost
    with assms(4) acc [of PSemWait] show ?thesis by (auto simp: sem_thread_def option.map_ident)
  next
    case CSemWait
    with assms(4) acc [of CLock] show ?thesis by (auto simp: sem_thread_def option.map_ident split: if_splits)
  next
    case CLock
    with assms(4) acc [of CRead] show ?thesis
      by (auto simp: sem_thread_def mutex_lock_def option.map_ident split: if_splits)
  next
    case CRead
    with assms(4) ok obtain d where "t = go i (CTake d) s" by (auto simp: sem_thread_def split: option.splits)
    with CRead acc [of "CTake d"] show ?thesis by (simp add: option.map_ident)
  next
    case (CTake d)
    with assms(4) ok acc [of "CPrint d"] show ?thesis
      by (auto simp: sem_thread_def node_step_def option.map_ident split: option.splits)
  next
    case (CPrint d)
    with assms(4) ok obtain n where t: "t = go i (CFree d) (s\<lparr>blog := blog s @ [Del n]\<rparr>)"
      by (auto simp: sem_thread_def node_step_def split: option.splits)
    then have "replay [] (blog s @ [Del n]) \<noteq> None" using list_inv_replay [OF list] by simp
    with t CPrint acc [of "CFree d"] show ?thesis by (simp add: replay_del option.map_comp comp_def)
  next
    case (CFree d)
    with assms(4) ok acc [of CUnlock] show ?thesis
      by (auto simp: sem_thread_def node_step_def option.map_ident split: if_splits)
  next
    case CUnlock
    with assms(4) acc [of CSemPost] show ?thesis by (auto simp: sem_thread_def mutex_unlock_def option.map_ident)
  next
    case CSemPost
    with assms(4) acc [of CSemWait] show ?thesis by (auto simp: sem_thread_def option.map_ident)
  qed (use assms(4) in \<open>simp_all add: sem_thread_def node_step_def\<close>)
qed

lemma sem_main_inv:
  assumes "sem_inv s" "buf_main PSemWait CSemWait s = Some t"
  shows "sem_inv t"
  using assms list_inv_main [of s PSemWait CSemWait t]
  by (auto simp: sem_inv_def buf_main_def total_def split: bmain.splits if_splits)

lemma sem_inv_step: "sem_inv s \<Longrightarrow> sem_step s l = Some t \<Longrightarrow> sem_inv t"
  by (cases l) (auto simp: sem_step_def intro: sem_thread_inv sem_main_inv split: if_splits)

lemma sem_inv_init: "sem_inv sem_init"
  using list_inv_init [of 8 0] by (simp add: sem_inv_def sem_init_def total_def) (simp add: buf_init_def)

interpretation sb: safe_system sem_step sem_init sem_inv
  by unfold_locales (auto intro: sem_inv_init sem_inv_step)

interpretation sbm: mutex_system sem_step sem_init sem_inv crit mtx threads
  by unfold_locales (simp add: sem_inv_def list_inv_def)

section \<open>Properties\<close>

text \<open>Claim C5.  The one memory error that a schedule of \<^verbatim>\<open>semaphore.c\<close> can lead to is the write through the null
  pointer that follows a failed \<open>malloc\<close>, which is never checked, and that write does follow; although the consumer takes the head of the
  list without looking whether there is one, it always finds a node.  Whenever the mutex is free, the heap holds
  exactly the nodes of the list, with the numbers that were added and not yet taken.\<close>

theorem sem_buffer_safe:
  assumes "reachable sem_step sem_init s"
  shows "(fault s \<longrightarrow> (\<exists>k < length (threads s). mtx s = Some k \<and> threads s ! k = PNull)) \<and>
    (\<not> fault s \<longrightarrow> i < length (threads s) \<longrightarrow> threads s ! i = PNull \<longrightarrow> sem_step s (Go i a r) = Some (crash s)) \<and>
    replay [] (blog s) \<noteq> None \<and>
    (mtx s = None \<longrightarrow> list_is_log s) \<and>
    (i < length (threads s) \<longrightarrow> threads s ! i = CRead \<longrightarrow> head s \<noteq> None)"
proof (intro conjI impI)
  have inv: "sem_inv s" using assms by (rule sb.inv_reachable)
  then have list: "list_inv s" by (simp add: sem_inv_def)
  then show "fault s \<Longrightarrow> \<exists>k < length (threads s). mtx s = Some k \<and> threads s ! k = PNull" by (rule list_inv_fault)
  show "\<not> fault s \<Longrightarrow> i < length (threads s) \<Longrightarrow> threads s ! i = PNull \<Longrightarrow> sem_step s (Go i a r) = Some (crash s)"
    by (simp add: sem_step_def sem_thread_def node_step_def)
  show "replay [] (blog s) \<noteq> None" using list by (rule list_inv_replay)
  show "mtx s = None \<Longrightarrow> list_is_log s" by (rule list_inv_free [OF list])
  show "i < length (threads s) \<Longrightarrow> threads s ! i = CRead \<Longrightarrow> head s \<noteq> None" by (rule sem_head [OF inv])
qed

lemma sem_buffer_safe_witness:
  "\<exists>s. run sem_step sem_init ([BMain, BMain] @ map (\<lambda>_. Go 0 (Some 5) 2999) [0..<9] @
        map (\<lambda>_. Go 1 None 0) [0..<8]) = Some s \<and>
     blog s = [Add 999, Del 999] \<and> list_is_log s"
proof -
  let ?ls = "[BMain, BMain] @ map (\<lambda>_. Go 0 (Some 5) 2999) [0..<9] @ map (\<lambda>_. Go 1 None 0) [0..<8]"
  obtain s where s: "run sem_step sem_init ?ls = Some s" "blog s = [Add 999, Del 999]" "mtx s = None"
    by (simp add: sem_step_def sem_init_def buf_init_def buf_main_def sem_thread_def mutex_lock_def
        mutex_unlock_def node_step_def go_def upt_rec numeral_eq_Suc)
  from sem_buffer_safe [OF run_reachable [OF s(1)]] s show ?thesis by blast
qed

text \<open>Claim C14.  The buffer of \<^verbatim>\<open>semaphore.c\<close> is bounded: in every reachable state at most eight numbers have
  been added and not yet taken, the two semaphores never exceed eight together, and when no thread
  is between its \<open>sem_wait\<close> and its \<open>sem_post\<close>, \<open>csem\<close> is the number of nodes and \<open>psem\<close> that of the free
  places.\<close>

theorem sem_buffer_bounded:
  assumes "reachable sem_step sem_init s"
  shows "(\<exists>xs. replay [] (blog s) = Some xs \<and> length xs \<le> 8) \<and>
    psem s + csem s \<le> 8 \<and>
    ((\<forall>p\<in>set (threads s). p = PSemWait \<or> p = CSemWait) \<longrightarrow>
           map_option length (replay [] (blog s)) = Some (csem s) \<and> psem s = 8 - csem s)"
proof (intro conjI impI)
  have inv: "sem_inv s" using assms by (rule sb.inv_reachable)
  then obtain xs where "replay [] (blog s) = Some xs" "length xs = csem s + total unposted s"
    by (auto simp: sem_inv_def)
  with inv unposted_le_inflight [of s] show "\<exists>xs. replay [] (blog s) = Some xs \<and> length xs \<le> 8"
    by (auto simp: sem_inv_def)
  show "psem s + csem s \<le> 8" using inv by (simp add: sem_inv_def)
  assume idle: "\<forall>p\<in>set (threads s). p = PSemWait \<or> p = CSemWait"
  then have "\<forall>p\<in>set (threads s). inflight p = 0" by auto
  then have zero: "total inflight s = 0" by (simp add: total_def)
  with unposted_le_inflight [of s] have "total unposted s = 0" by simp
  with zero inv show "map_option length (replay [] (blog s)) = Some (csem s)" "psem s = 8 - csem s"
    by (auto simp: sem_inv_def)
qed

lemma sem_buffer_bounded_witness:
  "\<exists>s. run sem_step sem_init ([BMain, BMain] @ map (\<lambda>_. Go 0 (Some 5) 2999) [0..<9]) = Some s \<and>
     psem s = 8 - csem s \<and> csem s = 1"
proof -
  let ?ls = "[BMain, BMain] @ map (\<lambda>_. Go 0 (Some 5) 2999) [0..<9]"
  obtain s where s: "run sem_step sem_init ?ls = Some s" "threads s = [PSemWait, CSemWait]" "csem s = 1"
    by (simp add: sem_step_def sem_init_def buf_init_def buf_main_def sem_thread_def mutex_lock_def
        mutex_unlock_def node_step_def go_def upt_rec numeral_eq_Suc)
  from sem_buffer_bounded [OF run_reachable [OF s(1)]] s show ?thesis
    by (intro exI [of _ s]) simp
qed

end
