(* ===== verification/RWLock.thy ===== *)
theory RWLock
  imports Mutex "HOL-Library.Word"
begin

text \<open>
  \<^verbatim>\<open>rwlock.c\<close>: three writers increment the global \<open>num\<close> under the write lock, five readers print it under
  the read lock.  \<open>num++\<close> is a load and a store; \<open>num\<close> is a machine integer of 32 bits, whose
  overflow the model lets wrap.
\<close>

datatype rw_pc = WLock | WLoad | WStore "32 word" | WPrint | WUnlock | RLock | RPrint | RUnlock

datatype rw_ev = Wrote "32 word" | Saw "32 word"

datatype rw_main = CreateW nat | CreateR nat | DetachW nat | DetachR nat | Left

record rw =
  num :: "32 word"
  writer :: "nat option"
  readers :: nat
  pcs :: "rw_pc list"
  rw_main :: rw_main
  rw_log :: "rw_ev list"

datatype rw_label = RMain | RGo nat

definition rgo :: "nat \<Rightarrow> rw_pc \<Rightarrow> rw \<Rightarrow> rw" where
  "rgo i p s = s\<lparr>pcs := (pcs s)[i := p]\<rparr>"

definition f_Write :: "nat \<Rightarrow> rw_pc \<Rightarrow> rw \<Rightarrow> rw option" where
  "f_Write i p s =
     (case p of
        WLock \<Rightarrow> (if writer s = None \<and> readers s = 0 then Some (rgo i WLoad (s\<lparr>writer := Some i\<rparr>)) else None)
      | WLoad \<Rightarrow> Some (rgo i (WStore (num s)) s)
      | WStore v \<Rightarrow> Some (rgo i WPrint (s\<lparr>num := v + 1\<rparr>))
      | WPrint \<Rightarrow> Some (rgo i WUnlock (s\<lparr>rw_log := rw_log s @ [Wrote (num s)]\<rparr>))
      | WUnlock \<Rightarrow> Some (rgo i WLock (s\<lparr>writer := None\<rparr>))
      | _ \<Rightarrow> None)"

definition f_Read :: "nat \<Rightarrow> rw_pc \<Rightarrow> rw \<Rightarrow> rw option" where
  "f_Read i p s =
     (case p of
        RLock \<Rightarrow> (if writer s = None then Some (rgo i RPrint (s\<lparr>readers := readers s + 1\<rparr>)) else None)
      | RPrint \<Rightarrow> Some (rgo i RUnlock (s\<lparr>rw_log := rw_log s @ [Saw (num s)]\<rparr>))
      | RUnlock \<Rightarrow> Some (rgo i RLock (s\<lparr>readers := readers s - 1\<rparr>))
      | _ \<Rightarrow> None)"

definition is_writer :: "rw_pc \<Rightarrow> bool" where
  "is_writer p \<longleftrightarrow> (case p of RLock \<Rightarrow> False | RPrint \<Rightarrow> False | RUnlock \<Rightarrow> False | _ \<Rightarrow> True)"

definition rw_main_step :: "rw \<Rightarrow> rw option" where
  "rw_main_step s =
     (case rw_main s of
        CreateW k \<Rightarrow> Some (s\<lparr>pcs := pcs s @ [WLock], rw_main := (if k = 2 then CreateR 0 else CreateW (Suc k))\<rparr>)
      | CreateR k \<Rightarrow> Some (s\<lparr>pcs := pcs s @ [RLock], rw_main := (if k = 4 then DetachW 0 else CreateR (Suc k))\<rparr>)
      | DetachW k \<Rightarrow> Some (s\<lparr>rw_main := (if k = 2 then DetachR 0 else DetachW (Suc k))\<rparr>)
      | DetachR k \<Rightarrow> Some (s\<lparr>rw_main := (if k = 4 then Left else DetachR (Suc k))\<rparr>)
      | Left \<Rightarrow> None)"

definition rw_step :: "rw \<Rightarrow> rw_label \<Rightarrow> rw option" where
  "rw_step s l =
     (case l of
        RMain \<Rightarrow> rw_main_step s
      | RGo i \<Rightarrow>
          (if i < length (pcs s)
           then (if is_writer (pcs s ! i) then f_Write i (pcs s ! i) s else f_Read i (pcs s ! i) s) else None))"

definition rw_init :: rw where
  "rw_init = \<lparr>num = 1, writer = None, readers = 0, pcs = [], rw_main = CreateW 0, rw_log = []\<rparr>"

section \<open>Invariant\<close>

text \<open>The log is a sequential history of a counter: each write adds one, each read sees the last write.\<close>

fun history :: "32 word \<Rightarrow> rw_ev list \<Rightarrow> 32 word option" where
  "history n [] = Some n"
| "history n (Wrote v # es) = (if v = n + 1 then history v es else None)"
| "history n (Saw v # es) = (if v = n then history n es else None)"

lemma history_append: "history n (es @ fs) = Option.bind (history n es) (\<lambda>m. history m fs)"
  by (induction n es rule: history.induct) auto

definition writing :: "rw_pc \<Rightarrow> bool" where
  "writing p \<longleftrightarrow> (case p of WLoad \<Rightarrow> True | WStore _ \<Rightarrow> True | WPrint \<Rightarrow> True | WUnlock \<Rightarrow> True | _ \<Rightarrow> False)"

definition reading :: "rw_pc \<Rightarrow> nat" where
  "reading p = (case p of RPrint \<Rightarrow> 1 | RUnlock \<Rightarrow> 1 | _ \<Rightarrow> 0)"

definition n_reading :: "rw_pc list \<Rightarrow> nat" where
  "n_reading ps = sum_list (map reading ps)"

definition writer_pc :: "rw \<Rightarrow> rw_pc" where
  "writer_pc s = (case writer s of None \<Rightarrow> WLock | Some i \<Rightarrow> pcs s ! i)"

definition rw_inv :: "rw \<Rightarrow> bool" where
  "rw_inv s \<longleftrightarrow> owned writing (writer s) (pcs s) \<and> readers s = n_reading (pcs s) \<and>
     (writer s = None \<or> readers s = 0) \<and>
     (\<forall>v. writer_pc s = WStore v \<longrightarrow> v = num s) \<and>
     history 1 (rw_log s) = Some (if writer_pc s = WPrint then num s - 1 else num s)"

lemma rw_simps [simp]:
  "writing WLoad" "writing (WStore v)" "writing WPrint" "writing WUnlock" "\<not> writing WLock"
  "\<not> writing RLock" "\<not> writing RPrint" "\<not> writing RUnlock"
  "reading RPrint = 1" "reading RUnlock = 1" "reading RLock = 0" "reading WLock = 0" "reading WLoad = 0"
  "reading (WStore v) = 0" "reading WPrint = 0" "reading WUnlock = 0"
  "is_writer WLoad" "is_writer (WStore v)" "is_writer WPrint" "is_writer WUnlock" "is_writer WLock"
  "\<not> is_writer RLock" "\<not> is_writer RPrint" "\<not> is_writer RUnlock"
  by (simp_all add: writing_def reading_def is_writer_def)

lemma rgo_simps [simp]:
  "pcs (rgo i p s) = (pcs s)[i := p]" "num (rgo i p s) = num s" "writer (rgo i p s) = writer s"
  "readers (rgo i p s) = readers s" "rw_main (rgo i p s) = rw_main s" "rw_log (rgo i p s) = rw_log s"
  by (simp_all add: rgo_def)

lemma n_reading_update:
  "i < length ps \<Longrightarrow> n_reading (ps[i := q]) + reading (ps ! i) = n_reading ps + reading q"
  unfolding n_reading_def by (rule sum_list_update_nat)

lemma n_reading_simps [simp]: "n_reading [] = 0" "n_reading (ps @ [p]) = n_reading ps + reading p"
  by (simp_all add: n_reading_def)

lemma n_reading_ge: "i < length ps \<Longrightarrow> reading (ps ! i) \<le> n_reading ps"
  by (simp add: n_reading_def member_le_sum_list)

lemma rw_inv_go:
  assumes "rw_inv s" "i < length (pcs s)" "rw_step s (RGo i) = Some t"
  shows "rw_inv t"
proof -
  have own: "owned writing (writer s) (pcs s)" and rest: "readers s = n_reading (pcs s)"
    "writer s = None \<or> readers s = 0" "\<And>v. writer_pc s = WStore v \<Longrightarrow> v = num s"
    "history 1 (rw_log s) = Some (if writer_pc s = WPrint then num s - 1 else num s)"
    using assms(1) by (auto simp: rw_inv_def)
  have hold: "writing (pcs s ! i) \<longleftrightarrow> writer s = Some i" by (rule owned_crit [OF own assms(2)])
  note sum = n_reading_update [OF assms(2)]
  note leave = owned_leave [OF own assms(2)]
  have one: "1 \<le> readers s" if "reading (pcs s ! i) = 1"
    using n_reading_ge [OF assms(2)] rest(1) that by simp
  have stay: "writer_pc (rgo i p s) = writer_pc s" if "writer s \<noteq> Some i" for p
    using that by (auto simp: writer_pc_def split: option.split)
  show ?thesis
  proof (cases "pcs s ! i")
    case WLock
    with assms(2,3) have "writer s = None" "readers s = 0" "t = rgo i WLoad (s\<lparr>writer := Some i\<rparr>)"
      by (auto simp: rw_step_def f_Write_def split: if_splits)
    with WLock own rest sum [of WLoad] assms(2) show ?thesis
      by (auto simp: rw_inv_def writer_pc_def owned_enter)
  next
    case WLoad
    with hold rest own sum [of "WStore (num s)"] assms(2,3) show ?thesis
      by (auto simp: rw_inv_def rw_step_def f_Write_def writer_pc_def owned_stay)
  next
    case (WStore v)
    with hold rest own sum [of WPrint] assms(2,3) show ?thesis
      by (auto simp: rw_inv_def rw_step_def f_Write_def writer_pc_def owned_stay)
  next
    case WPrint
    with hold rest own sum [of WUnlock] assms(2,3) show ?thesis
      by (auto simp: rw_inv_def rw_step_def f_Write_def writer_pc_def owned_stay history_append)
  next
    case WUnlock
    with hold rest own leave [of WLock] sum [of WLock] assms(2,3) show ?thesis
      by (auto simp: rw_inv_def rw_step_def f_Write_def writer_pc_def)
  next
    case RLock
    with assms(2,3) have "writer s = None" "t = rgo i RPrint (s\<lparr>readers := readers s + 1\<rparr>)"
      by (auto simp: rw_step_def f_Read_def split: if_splits)
    with RLock own rest sum [of RPrint] assms(2) show ?thesis
      by (auto simp: rw_inv_def writer_pc_def owned_stay)
  next
    case RPrint
    with one rest(2) have "writer s = None" by simp
    with RPrint own rest sum [of RUnlock] assms(2,3) show ?thesis
      by (auto simp: rw_inv_def rw_step_def f_Read_def writer_pc_def owned_stay history_append)
  next
    case RUnlock
    with one rest(2) have "writer s = None" by simp
    with RUnlock own rest sum [of RLock] assms(2,3) show ?thesis
      by (auto simp: rw_inv_def rw_step_def f_Read_def writer_pc_def owned_stay)
  qed
qed

lemma rw_inv_main:
  assumes "rw_inv s" "rw_main_step s = Some t"
  shows "rw_inv t"
proof -
  have own: "owned writing (writer s) (pcs s)" using assms(1) by (simp add: rw_inv_def)
  have w: "writer_pc t = writer_pc s"
    using own assms(2) owned_lt [of writing _ "pcs s"]
    by (auto simp: rw_main_step_def writer_pc_def nth_append split: rw_main.splits option.splits if_splits)
  have "owned writing (writer t) (pcs t)"
    using own assms(2) by (auto simp: rw_main_step_def intro!: owned_new split: rw_main.splits if_splits)
  moreover have "readers t = n_reading (pcs t)" "num t = num s" "rw_log t = rw_log s"
    "writer t = writer s" "readers t = readers s"
    using assms by (auto simp: rw_inv_def rw_main_step_def split: rw_main.splits if_splits)
  ultimately show ?thesis using w assms(1) by (auto simp: rw_inv_def)
qed

lemma rw_inv_step: "rw_inv s \<Longrightarrow> rw_step s l = Some t \<Longrightarrow> rw_inv t"
proof (cases l)
  case RMain
  assume "rw_inv s" "rw_step s l = Some t"
  with RMain show ?thesis using rw_inv_main by (simp add: rw_step_def)
next
  case (RGo i)
  assume s: "rw_inv s" "rw_step s l = Some t"
  with RGo have "i < length (pcs s)" by (auto simp: rw_step_def split: if_splits)
  with s RGo show ?thesis using rw_inv_go by blast
qed

lemma rw_inv_init: "rw_inv rw_init"
  by (simp add: rw_inv_def rw_init_def writer_pc_def)

interpretation rws: safe_system rw_step rw_init rw_inv
  by unfold_locales (auto intro: rw_inv_init rw_inv_step)

interpretation rwm: mutex_system rw_step rw_init rw_inv writing writer pcs
  by unfold_locales (simp add: rw_inv_def)

section \<open>Properties\<close>

text \<open>Claim C11.  \<^verbatim>\<open>rwlock.c\<close>: in every reachable state a thread that writes is alone, no other thread writing
  or reading, and what was printed is the history of a counter that starts at 1: every write prints
  one more than the last, every read the last value written.\<close>

theorem rwlock_exclusion:
  assumes "reachable rw_step rw_init s"
  shows "(i < length (pcs s) \<longrightarrow> writing (pcs s ! i) \<longrightarrow> j < length (pcs s) \<longrightarrow> j \<noteq> i \<longrightarrow>
           \<not> writing (pcs s ! j) \<and> reading (pcs s ! j) = 0) \<and>
    history 1 (rw_log s) \<noteq> None"
proof (intro conjI impI)
  have inv: "rw_inv s" using assms by (rule rws.inv_reachable)
  then show "history 1 (rw_log s) \<noteq> None" by (simp add: rw_inv_def)
  assume ij: "i < length (pcs s)" "writing (pcs s ! i)" "j < length (pcs s)" "j \<noteq> i"
  then have "writer s = Some i" using rwm.held [OF assms] by simp
  then have "n_reading (pcs s) = 0" using inv by (simp add: rw_inv_def)
  then have "reading (pcs s ! j) = 0"
    using n_reading_ge [OF ij(3)] by simp
  moreover have "\<not> writing (pcs s ! j)" using rwm.exclusion [OF assms ij(1,3)] ij(2,4) by auto
  ultimately show "\<not> writing (pcs s ! j)" "reading (pcs s ! j) = 0" by simp_all
qed

lemma rwlock_exclusion_witness:
  "\<exists>s. run rw_step rw_init (map (\<lambda>_. RMain) [0..<4] @ [RGo 3, RGo 3, RGo 3, RGo 0, RGo 0, RGo 0, RGo 0, RGo 0, RGo 1]) = Some s \<and>
     rw_log s = [Saw 1, Wrote 2] \<and> \<not> writing (pcs s ! 0) \<and> history 1 (rw_log s) \<noteq> None"
proof -
  let ?ls = "map (\<lambda>_. RMain) [0..<4] @ [RGo 3, RGo 3, RGo 3, RGo 0, RGo 0, RGo 0, RGo 0, RGo 0, RGo 1]"
  obtain s where s: "run rw_step rw_init ?ls = Some s" "rw_log s = [Saw 1, Wrote 2]" "length (pcs s) = 4" "writing (pcs s ! 1)"
    by (simp add: rw_step_def rw_init_def rw_main_step_def f_Write_def f_Read_def rgo_def upt_rec numeral_eq_Suc)
  from rwlock_exclusion [OF run_reachable [OF s(1)], of 1 0] s
  show ?thesis by (intro exI [of _ s]) simp
qed

end
