(* ===== verification/Progress.thy ===== *)
theory Progress
  imports ProducerConsumer CondBuffer SemBuffer RWLock
begin

text \<open>
  No deadlock: \<^verbatim>\<open>producer_comsumer.c\<close>, \<^verbatim>\<open>pthread_condition.c\<close>, \<^verbatim>\<open>semaphore.c\<close> and \<^verbatim>\<open>rwlock.c\<close> as interpretations of
  \<open>live_system\<close>.  In every reachable state one of their threads can move, and so on for ever.  What the
  safety invariants do not say and this needs is which control points a thread of either kind has: threads
  of even number are producers, the others consumers.
\<close>

section \<open>Producers and consumers\<close>

definition roles :: "(bool \<Rightarrow> tpc \<Rightarrow> bool) \<Rightarrow> buf \<Rightarrow> bool" where
  "roles P s \<longleftrightarrow> (\<forall>i < length (threads s). P (even i) (threads s ! i)) \<and>
     (case bmain s of Creating k \<Rightarrow> length (threads s) = k | _ \<Rightarrow> 2 \<le> length (threads s))"

lemma roles_at: "roles P s \<Longrightarrow> i < length (threads s) \<Longrightarrow> P (even i) (threads s ! i)"
  by (simp add: roles_def)

lemma roles_update:
  "roles P s \<Longrightarrow> threads t = (threads s)[i := q] \<Longrightarrow> P (even i) q \<Longrightarrow> bmain t = bmain s \<Longrightarrow> roles P t"
proof -
  assume r: "roles P s" and t: "threads t = (threads s)[i := q]" "P (even i) q" "bmain t = bmain s"
  then have "\<forall>j < length (threads t). P (even j) (threads t ! j)"
    unfolding roles_def by (metis length_list_update nth_list_update_eq nth_list_update_neq)
  with r t show ?thesis by (cases "bmain s") (simp_all add: roles_def)
qed

lemma roles_go: "roles P s \<Longrightarrow> P (even i) q \<Longrightarrow> roles P (go i q s)"
  by (rule roles_update [of P s _ i q]) simp_all

lemma roles_same: "roles P s \<Longrightarrow> threads t = threads s \<Longrightarrow> bmain t = bmain s \<Longrightarrow> roles P t"
  by (cases "bmain s") (simp_all add: roles_def)

lemma roles_main:
  "roles P s \<Longrightarrow> P True produce \<Longrightarrow> P False consume \<Longrightarrow> buf_main produce consume s = Some t \<Longrightarrow> roles P t"
proof -
  assume r: "roles P s" and p: "P True produce" "P False consume" and t: "buf_main produce consume s = Some t"
  show "roles P t"
  proof (cases "bmain s")
    case (Creating k)
    with r have k: "length (threads s) = k" by (simp add: roles_def)
    let ?q = "if even k then produce else consume"
    from Creating t have "threads t = threads s @ [?q]" "bmain t = (if k = 9 then Detaching 0 else Creating (Suc k))"
      by (auto simp: buf_main_def)
    moreover have "P (even k) ?q" using p by simp
    ultimately show ?thesis
      using r k Creating unfolding roles_def by (auto simp: nth_append less_Suc_eq)
  qed (use r t in \<open>auto simp: roles_def buf_main_def split: if_splits\<close>)
qed

lemma roles_init: "roles P (buf_init ps cs)"
  by (simp add: roles_def buf_init_def)

text \<open>The control points of the statements on the list.\<close>

definition at_node :: "bool \<Rightarrow> tpc \<Rightarrow> bool" where
  "at_node producer p \<longleftrightarrow>
     (case p of PMalloc \<Rightarrow> producer | PNull \<Rightarrow> producer | PNext _ \<Rightarrow> producer | PHead _ \<Rightarrow> producer | PNum _ \<Rightarrow> producer
      | PPrint _ \<Rightarrow> producer | CTake _ \<Rightarrow> \<not> producer | CPrint _ \<Rightarrow> \<not> producer | CFree _ \<Rightarrow> \<not> producer | _ \<Rightarrow> False)"

text \<open>\<open>malloc\<close> may hand out an address that is free, as the heap is finite.\<close>

lemma fresh_address: "list_inv s \<Longrightarrow> \<exists>p. heap s p = None"
proof -
  assume "list_inv s"
  then obtain as where "shape (holder_pc s) as (heap s) (head s) (blog s)" by (auto simp: list_inv_def shaped_def)
  then have "finite (dom (heap s))" by (cases "holder_pc s") (simp_all add: shape_def)
  then show ?thesis using ex_new_if_finite [of "dom (heap s)"] by (auto simp: infinite_UNIV_nat)
qed

lemma node_enabled:
  assumes "list_inv s" "at_node b (threads s ! i)" "mtx s = Some i"
    and "PNull \<notin> set (threads s)" "printed \<noteq> PNull" "i < length (threads s)"
  shows "\<exists>a t. node_step printed i a 0 s = Some t \<and> PNull \<notin> set (threads t) \<and> length (threads t) = length (threads s)"
proof (cases "threads s ! i")
  case PMalloc
  obtain p where "heap s p = None" using fresh_address [OF assms(1)] by blast
  with PMalloc assms(4) show ?thesis
    by (intro exI [of _ "Some p"]) (simp add: node_step_def)
next
  case PNull
  with assms(4,6) show ?thesis by (metis nth_mem)
qed (use assms(2,4,5) in \<open>auto simp: at_node_def node_step_def split: option.split intro!: exI [of _ None]\<close>)

text \<open>A step on the list keeps the thread's role.\<close>

lemma node_roles:
  assumes "roles P s" "node_step printed i a r s = Some t" "at_node b (threads s ! i)"
    and "P (even i) (if b then printed else CUnlock)" "\<And>q. at_node b q \<Longrightarrow> P (even i) q"
  shows "roles P t"
proof -
  have "threads t = threads s \<or> threads t = (threads s)[i := if b then printed else CUnlock] \<or>
      (\<exists>q. threads t = (threads s)[i := q] \<and> at_node b q)" "bmain t = bmain s"
    using assms(2,3)
    by (cases "threads s ! i"; fastforce simp: node_step_def crash_def at_node_def split: option.splits if_splits)+
  then show ?thesis
    using roles_same [OF assms(1)] roles_update [OF assms(1)] assms(4,5) by metis
qed

definition is_go :: "blabel \<Rightarrow> bool" where
  "is_go l \<longleftrightarrow> (case l of Go _ _ _ \<Rightarrow> True | _ \<Rightarrow> False)"

lemma is_go_simps [simp]: "is_go (Go i a r)" "\<not> is_go BMain" "\<not> is_go (Wake i)"
  by (simp_all add: is_go_def)

section \<open>The mutex alone\<close>

definition pc_at :: "bool \<Rightarrow> tpc \<Rightarrow> bool" where
  "pc_at b p \<longleftrightarrow> at_node b p \<or> (if b then p = PLock \<or> p = PUnlock else p = CLock \<or> p = CRead \<or> p = CUnlock \<or> p = CUnlockElse)"

lemma pc_thread_roles:
  assumes "roles pc_at s" "i < length (threads s)" "pc_thread i a r s = Some t"
  shows "roles pc_at t"
proof (cases "at_node (even i) (threads s ! i)")
  case True
  then have "pc_thread i a r s = node_step PUnlock i a r s"
    by (auto simp: pc_thread_def at_node_def split: tpc.splits)
  with node_roles [OF assms(1) _ True, of PUnlock a r t] assms(3) show ?thesis by (simp add: pc_at_def)
next
  case False
  with roles_at [OF assms(1,2)] consider "even i" "threads s ! i = PLock" | "even i" "threads s ! i = PUnlock"
    | "odd i" "threads s ! i = CLock" | "odd i" "threads s ! i = CRead" | "odd i" "threads s ! i = CUnlock"
    | "odd i" "threads s ! i = CUnlockElse"
    by (auto simp: pc_at_def split: if_splits)
  then show ?thesis
    using assms(1,3)
    by cases (auto simp: pc_thread_def mutex_lock_def mutex_unlock_def pc_at_def at_node_def
        intro!: roles_update [OF assms(1)] split: if_splits option.splits)
qed

text \<open>No \<open>malloc\<close> has failed; and there are a producer and a consumer.\<close>

definition mallocs_ok :: "buf \<Rightarrow> bool" where
  "mallocs_ok s \<longleftrightarrow> PNull \<notin> set (threads s)"

definition buf_alive :: "buf \<Rightarrow> bool" where
  "buf_alive s \<longleftrightarrow> mallocs_ok s \<and> 2 \<le> length (threads s)"

lemma buf_alive_go [simp]: "buf_alive s \<Longrightarrow> p \<noteq> PNull \<Longrightarrow> buf_alive (go i p s)"
  by (simp add: buf_alive_def mallocs_ok_def)

lemma buf_alive_upd [simp]:
  "buf_alive (s\<lparr>mtx := m\<rparr>) = buf_alive s" "buf_alive (s\<lparr>psem := n\<rparr>) = buf_alive s" "buf_alive (s\<lparr>csem := n\<rparr>) = buf_alive s"
  by (simp_all add: buf_alive_def mallocs_ok_def)

lemma at_node_crit: "at_node b p \<Longrightarrow> crit p"
  by (auto simp: at_node_def crit_def split: tpc.splits)

lemma holder_at:
  assumes "list_inv s" "mtx s = Some i"
  shows "i < length (threads s)" "crit (threads s ! i)"
  using assms owned_lt [of crit i] owned_holder [of crit i] by (auto simp: list_inv_def)

lemma free_not_crit: "list_inv s \<Longrightarrow> mtx s = None \<Longrightarrow> i < length (threads s) \<Longrightarrow> \<not> crit (threads s ! i)"
  using list_inv_holder by fastforce

lemma node_moves:
  assumes "list_inv s" "at_node b (threads s ! i)" "mtx s = Some i" "buf_alive s"
    and f: "\<And>a. f i a 0 s = node_step printed i a 0 s" and "printed \<noteq> PNull"
  shows "\<exists>i a t. i < length (threads s) \<and> f i a 0 s = Some t \<and> buf_alive t"
proof -
  from node_enabled [OF assms(1-3) _ assms(6) holder_at(1) [OF assms(1,3)]] assms(4) obtain a t where
    t: "node_step printed i a 0 s = Some t" "PNull \<notin> set (threads t)" "length (threads t) = length (threads s)"
    by (auto simp: buf_alive_def mallocs_ok_def)
  with assms(4) have "buf_alive t" by (simp add: buf_alive_def mallocs_ok_def)
  with t(1) holder_at(1) [OF assms(1,3)] f [of a] show ?thesis by (intro exI [of _ i] exI [of _ a] exI [of _ t]) simp
qed

lemma pc_thread_node: "at_node b (threads s ! i) \<Longrightarrow> pc_thread i a r s = node_step PUnlock i a r s"
  by (auto simp: pc_thread_def at_node_def split: tpc.splits)

lemma pc_moves:
  assumes "list_inv s" "roles pc_at s" "buf_alive s"
  shows "\<exists>i a t. i < length (threads s) \<and> pc_thread i a 0 s = Some t \<and> buf_alive t"
proof (cases "mtx s")
  case None
  have z: "0 < length (threads s)" using assms(3) unfolding buf_alive_def by linarith
  with roles_at [OF assms(2)] have "pc_at True (threads s ! 0)" by fastforce
  with free_not_crit [OF assms(1) None z] at_node_crit have "threads s ! 0 = PLock"
    by (auto simp: pc_at_def)
  with None z assms(3) show ?thesis
    by (intro exI [of _ 0] exI [of _ None]) (simp add: pc_thread_def mutex_lock_def)
next
  case (Some i)
  note i = holder_at [OF assms(1) Some]
  show ?thesis
  proof (cases "at_node (even i) (threads s ! i)")
    case True
    show ?thesis by (rule node_moves [where f = pc_thread, OF assms(1) True Some assms(3) pc_thread_node [OF True]]) simp
  next
    case False
    with roles_at [OF assms(2) i(1)] i(2) have "threads s ! i \<in> {PUnlock, CRead, CUnlock, CUnlockElse}"
      by (auto simp: pc_at_def split: if_splits)
    with i(1) assms(3) show ?thesis
      by (intro exI [of _ i] exI [of _ None]) (auto simp: pc_thread_def mutex_unlock_def split: option.split)
  qed
qed

lemma mallocs_no_fault: "list_inv s \<Longrightarrow> mallocs_ok s \<Longrightarrow> \<not> fault s"
  unfolding mallocs_ok_def by (metis list_inv_fault nth_mem)

text \<open>The main thread creates the first producer and the first consumer, whatever the threads do meanwhile.\<close>

lemma main_begins:
  assumes "list_inv s" "roles P s" "mallocs_ok s" "p \<noteq> PNull" "c \<noteq> PNull" "P True p" "P False c"
    and step: "\<And>s. \<not> fault s \<Longrightarrow> step s BMain = buf_main p c s"
    and inv: "\<And>s t. list_inv s \<Longrightarrow> buf_main p c s = Some t \<Longrightarrow> list_inv t"
  shows "\<exists>ls t. (\<forall>l\<in>set ls. \<not> is_go l) \<and> run step s ls = Some t \<and> buf_alive t"
  using assms(1-3)
proof (induction "2 - length (threads s)" arbitrary: s)
  case 0
  then have "buf_alive s" by (simp add: buf_alive_def)
  then have "(\<forall>l\<in>set []. \<not> is_go l) \<and> run step s [] = Some s \<and> buf_alive s" by simp
  then show ?case by blast
next
  case (Suc n)
  then have less: "length (threads s) < 2" by simp
  then obtain k where k: "bmain s = Creating k" "length (threads s) = k" "k < 2"
    using Suc.prems(2) by (cases "bmain s") (auto simp: roles_def)
  let ?t = "s\<lparr>threads := threads s @ [if even k then p else c], bmain := Creating (Suc k)\<rparr>"
  have t: "buf_main p c s = Some ?t" using k by (simp add: buf_main_def)
  have go: "step s BMain = Some ?t" using step mallocs_no_fault [OF Suc.prems(1,3)] t by simp
  have "mallocs_ok ?t" using Suc.prems(3) assms(4,5) by (auto simp: mallocs_ok_def)
  moreover have "n = 2 - length (threads ?t)" using Suc.hyps(2) k by simp
  ultimately obtain ls u where "\<forall>l\<in>set ls. \<not> is_go l" "run step ?t ls = Some u" "buf_alive u"
    using Suc.hyps(1) [OF _ inv [OF Suc.prems(1) t] roles_main [OF Suc.prems(2) assms(6,7) t]] by blast
  with go have "(\<forall>l\<in>set (BMain # ls). \<not> is_go l) \<and> run step s (BMain # ls) = Some u \<and> buf_alive u" by simp
  then show ?case by blast
qed

text \<open>From a move of a thread to a step of the program.\<close>

lemma buf_go:
  assumes "list_inv s" "buf_alive s" "\<exists>i a t. i < length (threads s) \<and> f i a 0 s = Some t \<and> buf_alive t"
    and "\<And>i a r. \<not> fault s \<Longrightarrow> i < length (threads s) \<Longrightarrow> step s (Go i a r) = f i a r s"
  shows "\<exists>l t. is_go l \<and> step s l = Some t \<and> buf_alive t"
proof -
  have "\<not> fault s" using assms(1,2) by (auto simp: buf_alive_def dest: mallocs_no_fault)
  with assms(3,4) show ?thesis by (metis is_go_simps(1))
qed

interpretation pcl: live_system pc_step pc_init "\<lambda>s. list_inv s \<and> roles pc_at s" is_go mallocs_ok buf_alive
proof unfold_locales
  show "list_inv pc_init \<and> roles pc_at pc_init"
    by (simp add: pc_init_def list_inv_init roles_init)
  fix s t l
  assume s: "list_inv s \<and> roles pc_at s"
  show "pc_step s l = Some t \<Longrightarrow> list_inv t \<and> roles pc_at t"
    using s pc_inv_step [of s l t] roles_main [of pc_at s PLock CLock t]
    by (cases l) (auto simp: pc_step_def pc_at_def intro: pc_thread_roles split: if_splits)
  assume "buf_alive s"
  with s show "\<exists>l t. is_go l \<and> pc_step s l = Some t \<and> buf_alive t"
    by (intro buf_go [where f = pc_thread] pc_moves) (simp_all add: pc_step_def)
next
  fix s assume "list_inv s \<and> roles pc_at s" "mallocs_ok s"
  then show "\<exists>ls t. (\<forall>l\<in>set ls. \<not> is_go l) \<and> run pc_step s ls = Some t \<and> buf_alive t"
    by (intro main_begins [where P = pc_at and p = PLock and c = CLock])
      (auto simp: pc_step_def pc_at_def intro: list_inv_main)
qed

section \<open>The condition variable\<close>

definition cond_at :: "bool \<Rightarrow> tpc \<Rightarrow> bool" where
  "cond_at b p \<longleftrightarrow> at_node b p \<or>
     (if b then p = PLock \<or> p = PSignal \<or> p = PUnlock
      else p = CLock \<or> p = CRead \<or> p = CUnlock \<or> p = CWait \<or> p = CSleeping \<or> p = CRelock \<or> p = CUnlockElse)"

lemma cond_thread_node: "at_node b (threads s ! i) \<Longrightarrow> cond_thread i a r s = node_step PSignal i a r s"
  by (auto simp: cond_thread_def at_node_def split: tpc.splits)

lemma cond_wake_roles:
  assumes "roles cond_at s" "w < length (threads s)" "threads s ! w = CSleeping"
  shows "roles cond_at (go w CRelock s)"
proof -
  have "odd w" using roles_at [OF assms(1,2)] assms(3) by (auto simp: cond_at_def at_node_def split: if_splits)
  then show ?thesis by (intro roles_go [OF assms(1)]) (simp add: cond_at_def)
qed

lemma cond_thread_roles:
  assumes "roles cond_at s" "i < length (threads s)" "cond_thread i a r s = Some t"
  shows "roles cond_at t"
proof (cases "at_node (even i) (threads s ! i)")
  case True
  with node_roles [OF assms(1) _ True, of PSignal a r t] assms(3) show ?thesis
    by (simp add: cond_at_def cond_thread_node [OF True])
next
  case False
  have sig: "roles cond_at t" if "even i" "threads s ! i = PSignal"
  proof (cases "sleepers s")
    case False
    with assms(3) that have "t = go i PUnlock s" by (simp add: cond_thread_def)
    with that(1) show ?thesis by (auto simp: cond_at_def intro: roles_go [OF assms(1)])
  next
    case True
    with assms(3) that obtain w where "w < length (threads s)" "threads s ! w = CSleeping" "t = go i PUnlock (go w CRelock s)"
      by (auto simp: cond_thread_def split: option.splits if_splits)
    with cond_wake_roles [OF assms(1)] that(1) show ?thesis by (auto simp: cond_at_def intro: roles_go)
  qed
  from False roles_at [OF assms(1,2)] consider "even i" "threads s ! i = PLock" | "even i" "threads s ! i = PSignal"
    | "even i" "threads s ! i = PUnlock" | "odd i" "threads s ! i \<in> {CLock, CRead, CUnlock, CWait, CSleeping, CRelock, CUnlockElse}"
    by (auto simp: cond_at_def split: if_splits)
  then show ?thesis
  proof cases
    case 4
    with assms(3) show ?thesis
      by (auto simp: cond_thread_def mutex_lock_def mutex_unlock_def cond_at_def at_node_def node_step_def
          intro!: roles_update [OF assms(1)] split: if_splits option.splits)
  qed (use assms(1,3) sig in \<open>auto simp: cond_thread_def mutex_lock_def mutex_unlock_def cond_at_def at_node_def
        intro!: roles_update [OF assms(1)] split: if_splits\<close>)
qed

lemma cond_moves:
  assumes "list_inv s" "roles cond_at s" "buf_alive s"
  shows "\<exists>i a t. i < length (threads s) \<and> cond_thread i a 0 s = Some t \<and> buf_alive t"
proof (cases "mtx s")
  case None
  have z: "0 < length (threads s)" using assms(3) unfolding buf_alive_def by linarith
  with roles_at [OF assms(2)] have "cond_at True (threads s ! 0)" by fastforce
  with free_not_crit [OF assms(1) None z] at_node_crit have "threads s ! 0 = PLock"
    by (auto simp: cond_at_def)
  with None z assms(3) show ?thesis
    by (intro exI [of _ 0] exI [of _ None]) (simp add: cond_thread_def mutex_lock_def)
next
  case (Some i)
  note i = holder_at [OF assms(1) Some]
  show ?thesis
  proof (cases "at_node (even i) (threads s ! i)")
    case True
    show ?thesis by (rule node_moves [where f = cond_thread, OF assms(1) True Some assms(3) cond_thread_node [OF True]]) simp
  next
    case False
    with roles_at [OF assms(2) i(1)] i(2) have pcs: "threads s ! i \<in> {PSignal, PUnlock, CRead, CUnlock, CWait, CUnlockElse}"
      by (auto simp: cond_at_def split: if_splits)
    obtain a t where "cond_thread i a 0 s = Some t" "buf_alive t"
    proof (cases "sleepers s")
      case True
      then obtain w where "w < length (threads s)" "threads s ! w = CSleeping"
        by (auto simp: sleepers_def in_set_conv_nth)
      with True pcs assms(3) that [of "Some w"] show ?thesis
        by (auto simp: cond_thread_def mutex_unlock_def split: option.splits)
    next
      case False
      with pcs assms(3) that [of None] show ?thesis
        by (auto simp: cond_thread_def mutex_unlock_def split: option.splits)
    qed
    with i(1) show ?thesis by blast
  qed
qed

interpretation cbl: live_system cond_step cond_init "\<lambda>s. cond_inv s \<and> roles cond_at s" is_go mallocs_ok buf_alive
proof unfold_locales
  show "cond_inv cond_init \<and> roles cond_at cond_init"
    using cond_inv_init by (simp add: cond_init_def roles_init)
  fix s t l
  assume s: "cond_inv s \<and> roles cond_at s"
  show "cond_step s l = Some t \<Longrightarrow> cond_inv t \<and> roles cond_at t"
    using s cond_inv_step [of s l t] roles_main [of cond_at s PLock CLock t]
    by (cases l) (auto simp: cond_step_def cond_at_def intro: cond_thread_roles cond_wake_roles split: if_splits)
  assume "buf_alive s"
  with s show "\<exists>l t. is_go l \<and> cond_step s l = Some t \<and> buf_alive t"
    by (intro buf_go [where f = cond_thread] cond_moves) (simp_all add: cond_step_def cond_inv_def)
next
  fix s assume "cond_inv s \<and> roles cond_at s" "mallocs_ok s"
  then show "\<exists>ls t. (\<forall>l\<in>set ls. \<not> is_go l) \<and> run cond_step s ls = Some t \<and> buf_alive t"
    by (intro main_begins [where P = cond_at and p = PLock and c = CLock])
      (auto simp: cond_inv_def cond_step_def cond_at_def intro: list_inv_main)
qed

section \<open>The semaphores\<close>

definition sem_at :: "bool \<Rightarrow> tpc \<Rightarrow> bool" where
  "sem_at b p \<longleftrightarrow> at_node b p \<or>
     (if b then p = PSemWait \<or> p = PLock \<or> p = PUnlock \<or> p = PSemPost
      else p = CSemWait \<or> p = CLock \<or> p = CRead \<or> p = CUnlock \<or> p = CSemPost)"

lemma sem_thread_node: "at_node b (threads s ! i) \<Longrightarrow> sem_thread i a r s = node_step PUnlock i a r s"
  by (auto simp: sem_thread_def at_node_def split: tpc.splits)

lemma sem_thread_roles:
  assumes "roles sem_at s" "i < length (threads s)" "sem_thread i a r s = Some t"
  shows "roles sem_at t"
proof (cases "at_node (even i) (threads s ! i)")
  case True
  with node_roles [OF assms(1) _ True, of PUnlock a r t] assms(3) show ?thesis
    by (simp add: sem_at_def sem_thread_node [OF True])
next
  case False
  with roles_at [OF assms(1,2)] consider "even i" "threads s ! i = PSemWait" | "even i" "threads s ! i = PLock"
    | "even i" "threads s ! i = PUnlock" | "even i" "threads s ! i = PSemPost" | "odd i" "threads s ! i = CSemWait"
    | "odd i" "threads s ! i = CLock" | "odd i" "threads s ! i = CRead" | "odd i" "threads s ! i = CUnlock"
    | "odd i" "threads s ! i = CSemPost"
    by (auto simp: sem_at_def split: if_splits)
  then show ?thesis
  proof cases
    case 7
    with assms(3) show ?thesis
      by (auto simp: sem_thread_def crash_def sem_at_def at_node_def
          intro: roles_same [OF assms(1)] roles_go [OF assms(1)] split: option.splits)
  qed (use assms(3) in \<open>auto simp: sem_thread_def mutex_lock_def mutex_unlock_def sem_at_def at_node_def
        intro!: roles_update [OF assms(1)] split: if_splits\<close>)
qed

text \<open>When nobody holds the mutex or is to post, a producer or a consumer gets past its semaphore.\<close>

lemma sem_waiting:
  assumes "sem_inv s" "\<forall>i < length (threads s). threads s ! i = (if even i then PSemWait else CSemWait)"
  shows "0 < psem s \<or> 0 < csem s"
proof -
  have "\<forall>p\<in>set (threads s). inflight p = 0" using assms(2) by (auto simp: in_set_conv_nth)
  then have "total inflight s = 0" by (simp add: total_def)
  with assms(1) show ?thesis by (auto simp: sem_inv_def)
qed

lemma sem_moves:
  assumes "sem_inv s" "roles sem_at s" "buf_alive s"
  shows "\<exists>i a t. i < length (threads s) \<and> sem_thread i a 0 s = Some t \<and> buf_alive t"
proof (cases "mtx s")
  case None
  have list: "list_inv s" using assms(1) by (simp add: sem_inv_def)
  have two: "0 < length (threads s)" "1 < length (threads s)" using assms(3) unfolding buf_alive_def by linarith+
  have at: "threads s ! i \<in> (if even i then {PSemWait, PLock, PSemPost} else {CSemWait, CLock, CSemPost})"
    if "i < length (threads s)" for i
    using roles_at [OF assms(2) that] free_not_crit [OF list None that] at_node_crit
    by (auto simp: sem_at_def split: if_splits)
  show ?thesis
  proof (cases "\<forall>i < length (threads s). threads s ! i = (if even i then PSemWait else CSemWait)")
    case wait: True
    show ?thesis
    proof (cases "0 < psem s")
      case True
      with wait two(1) assms(3) show ?thesis
        by (intro exI [of _ 0] exI [of _ None]) (simp add: sem_thread_def)
    next
      case False
      with sem_waiting [OF assms(1) wait] have "0 < csem s" by simp
      with wait two(2) assms(3) show ?thesis
        by (intro exI [of _ 1] exI [of _ None]) (simp add: sem_thread_def)
    qed
  next
    case False
    then obtain i where i: "i < length (threads s)" "threads s ! i \<noteq> (if even i then PSemWait else CSemWait)" by blast
    with at [OF i(1)] have "threads s ! i \<in> {PLock, PSemPost, CLock, CSemPost}" by (auto split: if_splits)
    with None i(1) assms(3) show ?thesis
      by (intro exI [of _ i] exI [of _ None]) (auto simp: sem_thread_def mutex_lock_def)
  qed
next
  case (Some i)
  have list: "list_inv s" using assms(1) by (simp add: sem_inv_def)
  note i = holder_at [OF list Some]
  show ?thesis
  proof (cases "at_node (even i) (threads s ! i)")
    case True
    show ?thesis by (rule node_moves [where f = sem_thread, OF list True Some assms(3) sem_thread_node [OF True]]) simp
  next
    case False
    with roles_at [OF assms(2) i(1)] i(2) have "threads s ! i \<in> {PUnlock, CRead, CUnlock}"
      by (auto simp: sem_at_def split: if_splits)
    with i(1) assms(3) sem_head [OF assms(1) i(1)] show ?thesis
      by (intro exI [of _ i] exI [of _ None]) (auto simp: sem_thread_def mutex_unlock_def)
  qed
qed

interpretation sbl: live_system sem_step sem_init "\<lambda>s. sem_inv s \<and> roles sem_at s" is_go mallocs_ok buf_alive
proof unfold_locales
  show "sem_inv sem_init \<and> roles sem_at sem_init"
    using sem_inv_init by (simp add: sem_init_def roles_init)
  fix s t l
  assume s: "sem_inv s \<and> roles sem_at s"
  show "sem_step s l = Some t \<Longrightarrow> sem_inv t \<and> roles sem_at t"
    using s sem_inv_step [of s l t] roles_main [of sem_at s PSemWait CSemWait t]
    by (cases l) (auto simp: sem_step_def sem_at_def intro: sem_thread_roles split: if_splits)
  assume "buf_alive s"
  with s show "\<exists>l t. is_go l \<and> sem_step s l = Some t \<and> buf_alive t"
    by (intro buf_go [where f = sem_thread] sem_moves) (simp_all add: sem_step_def sem_inv_def)
next
  fix s assume "sem_inv s \<and> roles sem_at s" "mallocs_ok s"
  then show "\<exists>ls t. (\<forall>l\<in>set ls. \<not> is_go l) \<and> run sem_step s ls = Some t \<and> buf_alive t"
    by (intro main_begins [where P = sem_at and p = PSemWait and c = CSemWait])
      (auto simp: sem_inv_def sem_step_def sem_at_def intro: list_inv_main)
qed

section \<open>Readers and writers\<close>

definition is_rgo :: "rw_label \<Rightarrow> bool" where
  "is_rgo l \<longleftrightarrow> l \<noteq> RMain"

lemma rw_moves:
  assumes "rw_inv s" "pcs s \<noteq> []"
  shows "\<exists>i t. rw_step s (RGo i) = Some t \<and> pcs t \<noteq> []"
proof -
  have own: "owned writing (writer s) (pcs s)" and n: "readers s = n_reading (pcs s)"
    using assms(1) by (simp_all add: rw_inv_def)
  have z: "0 < length (pcs s)" using assms(2) by simp
  consider i where "writer s = Some i" | "writer s = None" "readers s = 0" | "writer s = None" "0 < readers s"
    by fastforce
  then show ?thesis
  proof cases
    case 1
    then have i: "i < length (pcs s)" "writing (pcs s ! i)"
      using own owned_lt [of writing i] owned_holder [of writing i] by simp_all
    with assms(2) show ?thesis
      by (intro exI [of _ i], cases "pcs s ! i") (auto simp: rw_step_def f_Write_def)
  next
    case 2
    then have "\<not> writing (pcs s ! 0)" using own z owned_crit by fastforce
    with 2 z assms(2) show ?thesis
      by (intro exI [of _ 0], cases "pcs s ! 0") (auto simp: rw_step_def f_Write_def f_Read_def)
  next
    case 3
    have "\<exists>p\<in>set (pcs s). reading p \<noteq> 0"
    proof (rule ccontr)
      assume "\<not> ?thesis"
      then have "n_reading (pcs s) = 0" by (simp add: n_reading_def)
      with 3 n show False by simp
    qed
    then obtain i where i: "i < length (pcs s)" "reading (pcs s ! i) \<noteq> 0" by (auto simp: in_set_conv_nth)
    with assms(2) show ?thesis
      by (intro exI [of _ i], cases "pcs s ! i") (auto simp: rw_step_def f_Read_def)
  qed
qed

text \<open>As long as there is no thread, the main thread is about to create the first.\<close>

definition rw_starts :: "rw \<Rightarrow> bool" where
  "rw_starts s \<longleftrightarrow> (pcs s = [] \<longrightarrow> rw_main s = CreateW 0)"

lemma rw_starts_step: "rw_starts s \<Longrightarrow> rw_step s l = Some t \<Longrightarrow> rw_starts t"
  by (cases l) (auto simp: rw_starts_def rw_step_def rw_main_step_def f_Write_def f_Read_def split: rw_main.splits rw_pc.splits if_splits)

interpretation rwl: live_system rw_step rw_init "\<lambda>s. rw_inv s \<and> rw_starts s" is_rgo "\<lambda>s. True" "\<lambda>s. pcs s \<noteq> []"
proof unfold_locales
  show "rw_inv rw_init \<and> rw_starts rw_init" using rws.inv_start by (simp add: rw_starts_def rw_init_def)
  fix s l t assume inv: "rw_inv s \<and> rw_starts s"
  show "rw_step s l = Some t \<Longrightarrow> rw_inv t \<and> rw_starts t"
    using inv rws.inv_step rw_starts_step by blast
  show "pcs s \<noteq> [] \<Longrightarrow> \<exists>l t. is_rgo l \<and> rw_step s l = Some t \<and> pcs t \<noteq> []"
    using inv rw_moves by (fastforce simp: is_rgo_def)
  show "\<exists>ls t. (\<forall>l\<in>set ls. \<not> is_rgo l) \<and> run rw_step s ls = Some t \<and> pcs t \<noteq> []"
  proof (cases "pcs s = []")
    case True
    with inv have "rw_main s = CreateW 0" by (simp add: rw_starts_def)
    with True have "(\<forall>l\<in>set [RMain]. \<not> is_rgo l) \<and>
        run rw_step s [RMain] = Some (s\<lparr>pcs := [WLock], rw_main := CreateW 1\<rparr>) \<and> pcs (s\<lparr>pcs := [WLock], rw_main := CreateW 1\<rparr>) \<noteq> []"
      by (simp add: is_rgo_def rw_step_def rw_main_step_def)
    then show ?thesis by blast
  next
    case False
    then have "(\<forall>l\<in>set []. \<not> is_rgo l) \<and> run rw_step s [] = Some s \<and> pcs s \<noteq> []" by simp
    then show ?thesis by blast
  qed
qed

section \<open>Properties\<close>



end
