(* ===== verification/FileCopy.thy ===== *)
theory FileCopy
  imports CString "HOL-Library.Sublist"
begin

text \<open>
  Programs that rewrite a file: \<^verbatim>\<open>func_read_write.c\<close> copies through a buffer, \<^verbatim>\<open>copy.c\<close> through two memory
  mappings, \<^verbatim>\<open>f_lseek.c\<close> extends a file.  A regular file is the list of its bytes; \<open>read_at\<close> and
  \<open>write_at\<close> are \<open>read\<close> and \<open>write\<close> at an offset.
\<close>

definition read_at :: "nat \<Rightarrow> string \<Rightarrow> nat \<Rightarrow> string" where
  "read_at n c off = take n (drop off c)"

definition write_at :: "string \<Rightarrow> nat \<Rightarrow> string \<Rightarrow> string" where
  "write_at c off d =
     (if d = [] then c else take off c @ zeros (off - length c) @ d @ drop (off + length d) c)"

definition truncate :: "nat \<Rightarrow> string \<Rightarrow> string" where
  "truncate n c = take n c @ zeros (n - length c)"

lemma length_truncate [simp]: "length (truncate n c) = n"
  by (simp add: truncate_def)

lemma length_write_at: "off + length d \<le> length c \<Longrightarrow> length (write_at c off d) = length c"
  by (simp add: write_at_def)

section \<open>Copying through a buffer\<close>

text \<open>
  \<open>bad off\<close>: the \<open>read\<close> at offset \<open>off\<close> fails; \<open>wr off\<close>: how many bytes the \<open>write\<close> of what was read there takes,
  none when it fails, which the program does not look at.  \<open>pos\<close> is the offset of the copy; the result is its new content.
\<close>

function copy_loop :: "(nat \<Rightarrow> bool) \<Rightarrow> (nat \<Rightarrow> nat) \<Rightarrow> string \<Rightarrow> nat \<Rightarrow> string \<Rightarrow> nat \<Rightarrow> string comp" where
  "copy_loop bad wr src off dst pos =
     (if bad off then thenc (emit (Perror ''read'')) (ret dst)
      else let buf = read_at 1024 src off; out = take (wr off) buf in
           if length buf > 0 then copy_loop bad wr src (off + length buf) (write_at dst pos out) (pos + length out)
           else ret dst)"
  by auto
termination
  by (relation "measure (\<lambda>(_, _, src, off, _). length src - off)") (auto simp: read_at_def)

declare copy_loop.simps [simp del]

text \<open>\<open>dst = None\<close>: the copy cannot be opened; \<open>Some None\<close>: it does not exist and is created.\<close>

definition copy_main :: "(nat \<Rightarrow> bool) \<Rightarrow> (nat \<Rightarrow> nat) \<Rightarrow> string option \<Rightarrow> string option option \<Rightarrow> string comp" where
  "copy_main bad wr src dst =
     (case src of
        None \<Rightarrow> thenc (emit (Perror ''open filed'')) (exit_with (-1))
      | Some s \<Rightarrow>
          (case dst of
             None \<Rightarrow> thenc (emit (Perror ''creat or open'')) (exit_with (-1))
           | Some d \<Rightarrow> copy_loop bad wr s 0 (case d of None \<Rightarrow> [] | Some old \<Rightarrow> old) 0))"

text \<open>\<open>ws\<close> written over the beginning of an older content.\<close>

definition over :: "string \<Rightarrow> string \<Rightarrow> string" where
  "over ws old = ws @ drop (length ws) old"

lemma write_at_over: "write_at (over ws old) (length ws) d = over (ws @ d) old"
  by (simp add: over_def write_at_def add.commute)

lemma read_at_split: "drop off src = read_at n src off @ drop (off + length (read_at n src off)) src"
proof -
  have "drop (off + length (read_at n src off)) src = drop (length (read_at n src off)) (drop off src)"
    by (simp add: add.commute)
  also have "\<dots> = drop n (drop off src)" by (auto simp: read_at_def min_def)
  finally show ?thesis unfolding read_at_def by (metis append_take_drop_id)
qed

text \<open>What reaches the copy: some of the bytes of the source, in order; a prefix of them when writes are complete.\<close>

lemma copy_loop_written:
  "\<exists>vs es. copy_loop bad wr src off (over ws old) (length ws) = (es, Done (over (ws @ vs) old)) \<and>
     subseq vs (drop off src) \<and>
     ((\<forall>k. 1024 \<le> wr k) \<longrightarrow> prefix vs (drop off src)) \<and>
     ((\<forall>k. 1024 \<le> wr k) \<longrightarrow> (\<forall>k. \<not> bad k) \<longrightarrow> vs = drop off src \<and> es = [])"
proof (induction bad wr src off "over ws old" "length ws" arbitrary: ws rule: copy_loop.induct)
  case (1 bad wr src off)
  let ?d = "read_at 1024 src off"
  let ?out = "take (wr off) ?d"
  note unfold = copy_loop.simps [of bad wr src off "over ws old" "length ws"]
  consider "bad off" | "\<not> bad off" "?d = []" | "\<not> bad off" "?d \<noteq> []" by blast
  then show ?case
  proof cases
    case 1
    then have "copy_loop bad wr src off (over ws old) (length ws) = ([Perror ''read''], Done (over (ws @ []) old))"
      by (simp add: unfold effect_simps)
    with 1 show ?thesis by (intro exI conjI) (assumption | simp | blast)+
  next
    case 2
    then have none: "drop off src = []" by (simp add: read_at_def)
    from 2 have "copy_loop bad wr src off (over ws old) (length ws) = ([], Done (over (ws @ []) old))"
      by (simp add: unfold effect_simps)
    with none show ?thesis by (intro exI conjI) (assumption | simp)+
  next
    case 3
    have eqs: "write_at (over ws old) (length ws) ?out = over (ws @ ?out) old" "length ws + length ?out = length (ws @ ?out)"
      by (simp_all only: write_at_over length_append)
    from 3 "1.hyps" [OF 3(1) refl refl _ eqs] obtain vs es where
      vs: "copy_loop bad wr src (off + length ?d) (over (ws @ ?out) old) (length (ws @ ?out)) = (es, Done (over ((ws @ ?out) @ vs) old))"
        "subseq vs (drop (off + length ?d) src)"
        "(\<forall>k. 1024 \<le> wr k) \<longrightarrow> prefix vs (drop (off + length ?d) src)"
        "(\<forall>k. 1024 \<le> wr k) \<longrightarrow> (\<forall>k. \<not> bad k) \<longrightarrow> vs = drop (off + length ?d) src \<and> es = []"
      by auto
    have run: "copy_loop bad wr src off (over ws old) (length ws) = (es, Done (over (ws @ (?out @ vs)) old))"
      using 3 vs(1) by (simp only: unfold eqs Let_def) simp
    have whole: "(\<forall>k. 1024 \<le> wr k) \<Longrightarrow> ?out = ?d"
      by (rule take_all) (metis length_take min.coboundedI1 min.commute order_trans read_at_def)
    have "subseq (?out @ vs) (drop off src)"
      unfolding read_at_split [of off src 1024] by (rule list_emb_append_mono [OF _ vs(2)]) (metis prefix_imp_subseq take_is_prefix)
    moreover have "(\<forall>k. 1024 \<le> wr k) \<longrightarrow> prefix (?out @ vs) (drop off src)"
      using whole vs(3) by (subst read_at_split [of off src 1024]) simp
    moreover have "(\<forall>k. 1024 \<le> wr k) \<longrightarrow> (\<forall>k. \<not> bad k) \<longrightarrow> ?out @ vs = drop off src \<and> es = []"
      using whole vs(4) by (subst read_at_split [of off src 1024]) simp
    ultimately show ?thesis using run by blast
  qed
qed

section \<open>Copying through mappings\<close>

text \<open>
  \<open>copy.c\<close>: the new file is truncated to the size of the old one, one blank is written at its start
  (the descriptor's offset is still 0), and the old file's mapping is copied over the new one's.  A
  mapping of length 0 fails; \<open>m1\<close> and \<open>m2\<close> say whether the two calls of \<open>mmap\<close> succeed otherwise.
  The first component is the new content of the copy.
\<close>

definition memcpy_map :: "string \<Rightarrow> nat \<Rightarrow> string \<Rightarrow> string" where
  "memcpy_map c n d = take n d @ drop n c"

definition mmap_main :: "bool \<Rightarrow> bool \<Rightarrow> string option \<Rightarrow> string option option \<Rightarrow> string option \<times> unit comp" where
  "mmap_main m1 m2 src dst =
     (case src of
        None \<Rightarrow> (Option.bind dst id, thenc (emit (Perror ''open'')) (exit_with 0))
      | Some s \<Rightarrow>
          (let size_o = length s in
           case dst of
             None \<Rightarrow> (None, thenc (emit (Perror ''open1'')) (exit_with 0))
           | Some d \<Rightarrow>
               (let c = write_at (truncate size_o (case d of None \<Rightarrow> [] | Some old \<Rightarrow> old)) 0 '' '' in
                if size_o = 0 \<or> \<not> m1 then (Some c, thenc (emit (Perror ''mmap1'')) (exit_with 0))
                else if \<not> m2 then (Some c, thenc (emit (Perror ''mmap2'')) (exit_with 0))
                else (Some (memcpy_map c size_o s), ret ()))))"

section \<open>Extending a file\<close>

text \<open>\<open>sk\<close> is the result of \<open>lseek\<close>.\<close>

definition lseek_main :: "int \<Rightarrow> string option \<Rightarrow> string option \<times> int comp" where
  "lseek_main sk f =
     (case f of
        None \<Rightarrow> (None, thenc (emit (Perror ''open'')) (ret (-1)))
      | Some c \<Rightarrow>
          if sk = -1 then (Some c, thenc (emit (Perror ''lseek'')) (ret (-1)))
          else (Some (write_at c (nat sk) '' ''), ret 0))"

text \<open>The old content stays, a hole of a hundred NUL bytes follows, and the blank is the last byte.\<close>

lemma lseek_main_extends:
  "lseek_main (int (length c) + 100) (Some c) = (Some (c @ zeros 100 @ '' ''), ret 0)"
proof -
  have "nat (int (length c) + 100) = length c + 100" by simp
  then show ?thesis by (simp add: lseek_main_def write_at_def)
qed

section \<open>Properties\<close>

text \<open>Claim C21.  The copy that \<^verbatim>\<open>func_read_write.c\<close> makes through its 1024-byte buffer starts, when every \<open>write\<close> is complete,
  with the whole source; as the file is opened without truncation, what an older, longer copy had beyond that stays; and
  when a \<open>read\<close> fails, a prefix of the source has been copied.  Short or failing writes are not noticed: whatever they take, the copy starts
  with a subsequence of the source, and is complete only if nothing was lost.\<close>

theorem copy_main_copies:
  assumes "dst = Some old"
  shows "((\<forall>k. 1024 \<le> wr k) \<longrightarrow> (\<forall>k. \<not> bad k) \<longrightarrow>
      copy_main bad wr (Some s) (Some dst) = ret (s @ drop (length s) old)) \<and>
    ((\<forall>k. 1024 \<le> wr k) \<longrightarrow>
      (\<exists>k es. k \<le> length s \<and> copy_main bad wr (Some s) (Some dst) = (es, Done (take k s @ drop k old)))) \<and>
    (\<exists>ws es. subseq ws s \<and> copy_main bad wr (Some s) (Some dst) = (es, Done (ws @ drop (length ws) old)))"
proof -
  from copy_loop_written [of bad wr s 0 "[]" old] obtain ws es where
    ws: "copy_main bad wr (Some s) (Some dst) = (es, Done (ws @ drop (length ws) old))" "subseq ws s"
      "(\<forall>k. 1024 \<le> wr k) \<longrightarrow> prefix ws s"
      "(\<forall>k. 1024 \<le> wr k) \<longrightarrow> (\<forall>k. \<not> bad k) \<longrightarrow> ws = s \<and> es = []"
    using assms by (auto simp: copy_main_def over_def)
  have "\<exists>k\<le>length s. ws @ drop (length ws) old = take k s @ drop k old" if "prefix ws s"
    using that by (intro exI [of _ "length ws"]) (auto simp: prefix_def)
  with ws show ?thesis by (simp add: prim_effects) blast
qed

text \<open>A copy over an older file; and one whose first \<open>write\<close> takes only two bytes.\<close>

lemma copy_main_copies_witness:
  "copy_main (\<lambda>_. False) (\<lambda>_. 1024) (Some ''new'') (Some (Some ''older'')) = ret ''newer'' \<and>
   (\<exists>ws es. subseq ws ''news'' \<and> copy_main (\<lambda>_. False) (\<lambda>_. 2) (Some ''news'') (Some (Some [])) = (es, Done ws))"
  using copy_main_copies [where bad = "\<lambda>_. False" and wr = "\<lambda>_. 1024" and s = "''new''" and old = "''older''" and dst = "Some ''older''"]
    copy_main_copies [where bad = "\<lambda>_. False" and wr = "\<lambda>_. 2" and s = "''news''" and old = "[]" and dst = "Some []"]
  by simp

text \<open>\<^verbatim>\<open>copy.c\<close> makes an exact copy of every file that is not empty, whatever the copy held before; of
  an empty file it makes a file of one blank, and reports a failed mapping.\<close>

theorem mmap_main_copies:
  assumes "s \<noteq> []"
  shows "mmap_main True True (Some s) (Some dst) = (Some s, ret ()) \<and>
    mmap_main m1 m2 (Some []) (Some dst) = (Some '' '', ([Perror ''mmap1''], Exit 0))"
proof (intro conjI impI)
  have "length (write_at (truncate (length s) c) 0 '' '') = length s" for c
    using assms by (cases s) (simp_all add: length_write_at)
  with assms show "mmap_main True True (Some s) (Some dst) = (Some s, ret ())"
    by (simp add: mmap_main_def Let_def memcpy_map_def)
  show "mmap_main m1 m2 (Some []) (Some dst) = (Some '' '', ([Perror ''mmap1''], Exit 0))"
    by (simp add: mmap_main_def write_at_def truncate_def effect_simps)
qed

lemma mmap_main_copies_witness:
  "mmap_main True True (Some ''english'') (Some (Some ''an older and longer text'')) = (Some ''english'', ret ())"
  by (rule mmap_main_copies [THEN conjunct1]) simp

end
