(* ===== verification/ByteOrder.thy ===== *)
theory ByteOrder
  imports CString "HOL-Library.Word"
begin

unbundle bit_operations_syntax

text \<open>
  Byte order and addresses: \<^verbatim>\<open>byteSort.c\<close> (the order of the bytes of a \<open>short\<close>), \<^verbatim>\<open>transform.c\<close>
  (\<open>htons\<close>, \<open>htonl\<close>, \<open>ntohl\<close>) and \<^verbatim>\<open>iptrans.c\<close> (\<open>inet_pton\<close>, \<open>inet_ntop\<close>).  \<open>little\<close> is the byte order
  of the host; memory is the list of the bytes from the lowest address on.
\<close>

section \<open>Words in memory\<close>

type_synonym byte = "8 word"

text \<open>The bytes of a word, the lowest first, and back.\<close>

definition le_bytes :: "nat \<Rightarrow> 'a::len word \<Rightarrow> byte list" where
  "le_bytes n w = map (\<lambda>i. ucast (drop_bit (8 * i) w)) [0..<n]"

fun le_word :: "byte list \<Rightarrow> 'a::len word" where
  "le_word [] = 0"
| "le_word (b # bs) = ucast b OR push_bit 8 (le_word bs)"

definition in_memory :: "bool \<Rightarrow> nat \<Rightarrow> 'a::len word \<Rightarrow> byte list" where
  "in_memory little n w = (if little then le_bytes n w else rev (le_bytes n w))"

definition from_memory :: "bool \<Rightarrow> byte list \<Rightarrow> 'a::len word" where
  "from_memory little bs = le_word (if little then bs else rev bs)"

lemma length_le_bytes [simp]: "length (le_bytes n w) = n"
  by (simp add: le_bytes_def)

lemma length_in_memory [simp]: "length (in_memory little n w) = n"
  by (simp add: in_memory_def)

lemma le_bytes_Suc: "le_bytes (Suc n) w = ucast w # le_bytes n (drop_bit 8 w)"
  by (simp add: le_bytes_def upt_conv_Cons map_Suc_upt [symmetric] add.commute del: upt_Suc)

lemma bit_le_word:
  "bit (le_word bs :: 'a::len word) i \<longleftrightarrow> i < LENGTH('a) \<and> i div 8 < length bs \<and> bit (bs ! (i div 8)) (i mod 8)"
proof (induction bs arbitrary: i)
  case (Cons b bs)
  show ?case
  proof (cases "i < 8")
    case True
    then show ?thesis by (auto simp: bit_or_iff bit_ucast_iff bit_push_bit_iff)
  next
    case False
    then obtain k where k: "i = 8 + k" using le_Suc_ex [of 8 i] by auto
    then have "i div 8 = Suc (k div 8)" "i mod 8 = k mod 8" by simp_all
    with k Cons.IH [of k] show ?thesis
      by (auto simp: bit_or_iff bit_ucast_iff bit_push_bit_iff dest: bit_imp_le_length)
  qed
qed simp

lemma nth_le_bytes: "i < n \<Longrightarrow> le_bytes n w ! i = ucast (drop_bit (8 * i) w)"
  by (simp add: le_bytes_def)

lemma le_word_bytes: "LENGTH('a) = 8 * n \<Longrightarrow> le_word (le_bytes n w) = (w :: 'a::len word)"
proof (rule bit_word_eqI)
  fix i assume n: "LENGTH('a) = 8 * n" and i: "i < LENGTH('a)"
  then have k: "i div 8 < n" by (simp add: div_less_iff_less_mult mult.commute)
  have e: "8 * (i div 8) + i mod 8 = i" by simp
  from i k have "bit (le_word (le_bytes n w) :: 'a word) i \<longleftrightarrow> bit (ucast (drop_bit (8 * (i div 8)) w) :: byte) (i mod 8)"
    by (simp add: bit_le_word nth_le_bytes)
  also have "\<dots> \<longleftrightarrow> bit w i" by (simp add: bit_ucast_iff bit_drop_bit_eq e)
  finally show "bit (le_word (le_bytes n w) :: 'a word) i \<longleftrightarrow> bit w i" .
qed

lemma le_bytes_word:
  assumes "LENGTH('a) = 8 * n" "length bs = n"
  shows "le_bytes n (le_word bs :: 'a::len word) = bs"
proof (rule nth_equalityI)
  fix i assume "i < length (le_bytes n (le_word bs :: 'a word))"
  then have i: "i < n" by simp
  show "le_bytes n (le_word bs :: 'a word) ! i = bs ! i"
  proof (rule bit_word_eqI)
    fix j assume "j < LENGTH(8)"
    then have j: "j < 8" by simp
    with i have "8 * i + j < 8 * n" by linarith
    with i j assms show "bit (le_bytes n (le_word bs :: 'a word) ! i) j \<longleftrightarrow> bit (bs ! i) j"
      by (simp add: nth_le_bytes bit_ucast_iff bit_drop_bit_eq bit_le_word)
  qed
qed (use assms in simp)

lemma from_in_memory: "LENGTH('a) = 8 * n \<Longrightarrow> from_memory little (in_memory little n w) = (w :: 'a::len word)"
  by (simp add: from_memory_def in_memory_def le_word_bytes)

lemma in_from_memory:
  "LENGTH('a) = 8 * n \<Longrightarrow> length bs = n \<Longrightarrow> in_memory little n (from_memory little bs :: 'a::len word) = bs"
  by (simp add: from_memory_def in_memory_def le_bytes_word)

section \<open>byteSort.c\<close>

definition bytesort_main :: "bool \<Rightarrow> event list" where
  "bytesort_main little =
     (let byte = in_memory little 2 (0x0102 :: 16 word) in
      if byte ! 0 = 1 \<and> byte ! 1 = 2 then [Out (''big endian'' @ NL)]
      else if byte ! 1 = 1 \<and> byte ! 0 = 2 then [Out (''little endian'' @ NL)]
      else [Out (''unknown'' @ NL)])"

lemma bytesort_tells: "bytesort_main little = [Out ((if little then ''little endian'' else ''big endian'') @ NL)]"
proof -
  have "bytesort_main True = [Out (''little endian'' @ NL)]" "bytesort_main False = [Out (''big endian'' @ NL)]"
    by code_simp+
  then show ?thesis by (cases little) simp_all
qed

section \<open>transform.c\<close>

text \<open>Host to network order: the word whose bytes in memory are the big-endian ones; and back.\<close>

definition hton :: "bool \<Rightarrow> nat \<Rightarrow> 'a::len word \<Rightarrow> 'a word" where
  "hton little n w = from_memory little (in_memory False n w)"

definition ntoh :: "bool \<Rightarrow> nat \<Rightarrow> 'a::len word \<Rightarrow> 'a word" where
  "ntoh little n w = from_memory False (in_memory little n w)"

fun show_hex :: "nat \<Rightarrow> string" where
  "show_hex n = (let d = (\<lambda>k. if k < 10 then digit k else char_of (87 + k)) in
     if n < 16 then [d n] else show_hex (n div 16) @ [d (n mod 16)])"

declare show_hex.simps [simp del]

definition show_bytes :: "byte list \<Rightarrow> event" where
  "show_bytes bs = Out (concat (map (\<lambda>b. show_nat (unat b) @ '' '') (butlast bs)) @ show_nat (unat (last bs)) @ NL)"

definition transform_main :: "bool \<Rightarrow> event list" where
  "transform_main little =
     (let a = 0x0102 :: 16 word; b = hton little 2 a;
          num = from_memory little [192, 168, 1, 100] :: 32 word; ans = hton little 4 num;
          num1 = from_memory little [1, 1, 168, 192] :: 32 word; ans1 = ntoh little 4 num1
      in [Out (''a: '' @ show_hex (unat a) @ NL), Out (''b: '' @ show_hex (unat b) @ NL),
          show_bytes (in_memory little 4 ans), show_bytes (in_memory little 4 ans1)])"

lemma hton_swap: "hton True 2 a = word_rotl 8 (a :: 16 word)"
proof (rule bit_word_eqI)
  fix i assume "i < LENGTH(16)"
  then consider "i < 8" | k where "i = 8 + k" "k < 8" by (cases "i < 8") (auto simp: le_iff_add not_less)
  then show "bit (hton True 2 a) i \<longleftrightarrow> bit (word_rotl 8 a) i"
    by cases (auto simp: hton_def from_memory_def in_memory_def bit_le_word bit_word_rotl_iff rev_nth nth_le_bytes
        bit_ucast_iff bit_drop_bit_eq add.commute)
qed

text \<open>
  The conversions on a host of either byte order: a word in network order has the big-endian
  bytes in memory, \<open>ntoh\<close> and \<open>hton\<close> are inverse to each other, on a little-endian host \<open>htons\<close> rotates
  by a byte, and \<^verbatim>\<open>transform.c\<close> prints the bytes of its addresses turned round there and only there.
\<close>
lemma byte_order:
  fixes w :: "32 word"
  shows "in_memory little 4 (hton little 4 w) = in_memory False 4 w \<and>
    ntoh little 4 (hton little 4 w) = w \<and> hton little 4 (ntoh little 4 w) = w \<and>
    hton little 2 a = (if little then word_rotl 8 a else (a :: 16 word)) \<and>
    transform_main little =
      (if little then [Out (''a: 102'' @ NL), Out (''b: 201'' @ NL), Out (''100 1 168 192'' @ NL), Out (''192 168 1 1'' @ NL)]
       else [Out (''a: 102'' @ NL), Out (''b: 102'' @ NL), Out (''192 168 1 100'' @ NL), Out (''1 1 168 192'' @ NL)])"
proof (intro conjI)
  show "in_memory little 4 (hton little 4 w) = in_memory False 4 w"
    and "ntoh little 4 (hton little 4 w) = w" and "hton little 4 (ntoh little 4 w) = w"
    by (simp_all add: hton_def ntoh_def in_from_memory from_in_memory)
  show "hton little 2 a = (if little then word_rotl 8 a else a)"
    by (cases little) (simp_all add: hton_swap, simp add: hton_def from_in_memory)
  have "transform_main True = [Out (''a: 102'' @ NL), Out (''b: 201'' @ NL), Out (''100 1 168 192'' @ NL), Out (''192 168 1 1'' @ NL)]"
    "transform_main False = [Out (''a: 102'' @ NL), Out (''b: 102'' @ NL), Out (''192 168 1 100'' @ NL), Out (''1 1 168 192'' @ NL)]"
    by code_simp+
  then show "transform_main little =
      (if little then [Out (''a: 102'' @ NL), Out (''b: 201'' @ NL), Out (''100 1 168 192'' @ NL), Out (''192 168 1 1'' @ NL)]
       else [Out (''a: 102'' @ NL), Out (''b: 102'' @ NL), Out (''192 168 1 100'' @ NL), Out (''1 1 168 192'' @ NL)])"
    by (cases little) simp_all
qed

section \<open>iptrans.c\<close>

text \<open>\<open>inet_ntop\<close> writes four numbers with dots between them, \<open>inet_pton\<close> reads exactly such a text.\<close>

definition dot :: char where
  "dot = CHR ''.''"

definition inet_ntop :: "byte list \<Rightarrow> string" where
  "inet_ntop bs = concat (map (\<lambda>b. show_nat (unat b) @ [dot]) (butlast bs)) @ show_nat (unat (last bs))"

fun fields :: "char \<Rightarrow> string \<Rightarrow> string list" where
  "fields c [] = [[]]"
| "fields c (x # xs) =
     (if x = c then [] # fields c xs
      else case fields c xs of [] \<Rightarrow> [[x]] | w # ws \<Rightarrow> (x # w) # ws)"

definition octet :: "string \<Rightarrow> byte option" where
  "octet s =
     (if s \<noteq> [] \<and> list_all is_digit s \<and> (length s = 1 \<or> s ! 0 \<noteq> CHR ''0'') \<and> read_nat s \<le> 255
      then Some (word_of_nat (read_nat s)) else None)"

definition inet_pton :: "string \<Rightarrow> byte list option" where
  "inet_pton s = (let os = fields dot s in if length os = 4 then those (map octet os) else None)"

definition iptrans_main :: "unit comp" where
  "iptrans_main =
     (let buf = ''192.168.1.1'';
          dst = (case inet_pton buf of None \<Rightarrow> [0, 0, 0, 0] | Some bs \<Rightarrow> bs)
      in thenc (emit (show_bytes dst))
        (if length (inet_ntop dst) < 16 then
           bindc (cstr (fill (zeros 16) (inet_ntop dst @ [NUL]))) (\<lambda>ip.
           thenc (emit (Out (''str = '' @ ip @ NL))) (emit (Out (''ip = '' @ ip @ NL))))
         else undef))"

lemma show_nat_Nil [simp]: "show_nat n \<noteq> []"
  by (subst show_nat.simps) simp

lemma show_nat_front: "0 < n \<Longrightarrow> show_nat n ! 0 \<noteq> CHR ''0''"
proof (induction n rule: show_nat.induct)
  case (1 n)
  show ?case
  proof (cases "n < 10")
    case True
    have "digit n \<noteq> CHR ''0''"
    proof
      assume "digit n = CHR ''0''"
      then have "of_char (digit n) = (48 :: nat)" by simp
      with True 1 show False by (simp add: of_char_digit)
    qed
    with True show ?thesis by (subst show_nat.simps) simp
  next
    case False
    with 1 show ?thesis by (subst show_nat.simps) (simp add: nth_append div_greater_zero_iff)
  qed
qed

lemma octet_show: "octet (show_nat (unat b)) = Some b"
proof -
  have le: "unat b \<le> 255" using unsigned_less [of b, where ?'a = nat] by simp
  have "length (show_nat (unat b)) = 1 \<or> show_nat (unat b) ! 0 \<noteq> CHR ''0''"
    using show_nat_front [of "unat b"] by (cases "unat b = 0") (auto simp: show_nat.simps)
  with le show ?thesis by (simp add: octet_def list_all_iff show_nat_digits)
qed

lemma dot_not_digit: "dot \<notin> set (show_nat n)"
  using show_nat_digits [of dot n] by (auto simp: is_digit_def dot_def)

lemma fields_word: "c \<notin> set w \<Longrightarrow> fields c w = [w]"
  by (induction w) auto

lemma fields_join: "c \<notin> set w \<Longrightarrow> fields c (w @ c # s) = w # fields c s"
  by (induction w) auto

lemma inet_ntop_fields:
  "inet_ntop [a, b, c, d] =
     show_nat (unat a) @ dot # show_nat (unat b) @ dot # show_nat (unat c) @ dot # show_nat (unat d)"
  by (simp add: inet_ntop_def)

lemma length_show_byte: "length (show_nat (unat (b :: byte))) \<le> 3"
  using length_show_nat [of "unat b" 2] unsigned_less [of b, where ?'a = nat] by simp

text \<open>
  Every address survives being written as text and read back, the text fits the sixteen bytes
  of \<^verbatim>\<open>iptrans.c\<close>, and the program prints the four numbers and the text it started from.
\<close>
theorem address_roundtrip:
  "inet_pton (inet_ntop [a, b, c, d]) = Some [a, b, c, d] \<and> length (inet_ntop [a, b, c, d]) < 16 \<and>
   iptrans_main = ([Out (''192 168 1 1'' @ NL), Out (''str = 192.168.1.1'' @ NL), Out (''ip = 192.168.1.1'' @ NL)], Done ())"
proof (intro conjI)
  show "inet_pton (inet_ntop [a, b, c, d]) = Some [a, b, c, d]"
    by (simp add: inet_pton_def inet_ntop_fields fields_join fields_word dot_not_digit octet_show)
  show "length (inet_ntop [a, b, c, d]) < 16"
    using length_show_byte [of a] length_show_byte [of b] length_show_byte [of c] length_show_byte [of d]
    by (simp add: inet_ntop_fields)
  show "iptrans_main = ([Out (''192 168 1 1'' @ NL), Out (''str = 192.168.1.1'' @ NL), Out (''ip = 192.168.1.1'' @ NL)], Done ())"
    by code_simp
qed

end
