(* ===== verification/LocalSocket.thy ===== *)
theory LocalSocket
  imports Pipes
begin

text \<open>
  The echo pair on local sockets (\<^verbatim>\<open>local_socket/server.c\<close>, \<^verbatim>\<open>client.c\<close>): each program as a function of what
  its calls return, and the two together over a pair of byte queues, as interleaved steps.  Both
  programs put every message into a buffer that still holds the rest of earlier ones.
\<close>

section \<open>The server\<close>

definition local_server_open :: "int \<Rightarrow> int \<Rightarrow> int \<Rightarrow> int \<Rightarrow> fd comp" where
  "local_server_open sock bnd lst acc =
     thenc (emit (Call ''unlink server.socket'' []))
    (thenc (syserr sock ''socket'')
    (thenc (emit (Call ''bind server.socket'' [sock]))
    (thenc (syserr bnd ''bind'')
    (thenc (emit (Call ''listen'' [sock, 128]))
    (thenc (syserr lst ''listen'')
    (thenc (emit (Call ''accept'' [sock]))
    (thenc (syserr acc ''accept'')
    (ret acc))))))))"

text \<open>One turn: whether the loop goes on, and the buffer afterwards.\<close>

definition local_server_turn :: "fd \<Rightarrow> rdres \<Rightarrow> string \<Rightarrow> (bool \<times> string) comp" where
  "local_server_turn cfd r buf =
     (case r of
        RdErr \<Rightarrow> thenc (syserr (-1) ''recv'') (ret (False, buf))
      | RdData d \<Rightarrow>
          if length d = 0 then thenc (emit (Out (''client closed......'' @ NL))) (ret (False, buf))
          else
            bindc (cstr (fill buf d)) (\<lambda>t.
            thenc (emit (Out (''reccv from client: '' @ t @ NL)))
           (thenc (reply cfd (fill buf d))
           (ret (True, fill buf d)))))"

fun local_server_loop :: "fd \<Rightarrow> fd \<Rightarrow> string \<Rightarrow> rdres list \<Rightarrow> unit comp" where
  "local_server_loop l c buf [] = block"
| "local_server_loop l c buf (r # rs) =
     bindc (local_server_turn c r buf) (\<lambda>(more, buf').
       if more then local_server_loop l c buf' rs
       else thenc (emit (Cl c)) (emit (Cl l)))"

definition local_server_main :: "int \<Rightarrow> int \<Rightarrow> int \<Rightarrow> int \<Rightarrow> string \<Rightarrow> rdres list \<Rightarrow> unit comp" where
  "local_server_main sock bnd lst acc g rs =
     bindc (local_server_open sock bnd lst acc) (\<lambda>c. local_server_loop sock c g rs)"

section \<open>The client\<close>

definition local_client_open :: "int \<Rightarrow> int \<Rightarrow> int \<Rightarrow> fd comp" where
  "local_client_open sock bnd conn =
     thenc (emit (Call ''unlink client.socket'' []))
    (thenc (syserr sock ''socket'')
    (thenc (emit (Call ''bind client.socket'' [sock]))
    (thenc (syserr bnd ''bind'')
    (thenc (emit (Call ''connect server.socket'' [sock]))
    (thenc (syserr conn ''connect'')
    (ret sock))))))"

definition local_text :: "nat \<Rightarrow> string" where
  "local_text num = ''helllo I am client, num : '' @ show_int (int num) @ '' '' @ NL"

definition local_client_send :: "fd \<Rightarrow> nat \<Rightarrow> string \<Rightarrow> string comp" where
  "local_client_send c num buf =
     (let buf = fill buf (local_text num @ [NUL]) in
      thenc (reply c buf)
     (bindc (cstr buf) (\<lambda>t.
      thenc (emit (Out (''send msg: '' @ t @ NL)))
     (ret buf))))"

definition local_client_recv :: "rdres \<Rightarrow> string \<Rightarrow> (bool \<times> string) comp" where
  "local_client_recv r buf =
     (case r of
        RdErr \<Rightarrow> thenc (syserr (-1) ''recv'') (ret (False, buf))
      | RdData d \<Rightarrow>
          if length d = 0 then thenc (emit (Out (''server closed......'' @ NL))) (ret (False, buf))
          else
            bindc (cstr (fill buf d)) (\<lambda>t.
            thenc (emit (Out (''reccv from server: '' @ t @ NL)))
           (ret (True, fill buf d))))"

fun local_client_loop :: "fd \<Rightarrow> nat \<Rightarrow> string \<Rightarrow> rdres list \<Rightarrow> unit comp" where
  "local_client_loop c num buf [] = bindc (local_client_send c num buf) (\<lambda>_. block)"
| "local_client_loop c num buf (r # rs) =
     bindc (local_client_send c num buf) (\<lambda>buf.
     bindc (local_client_recv r buf) (\<lambda>(more, buf).
       if more then thenc (emit (Call ''sleep'' [1])) (local_client_loop c (num + 1) buf rs)
       else emit (Cl c)))"

definition local_client_main :: "int \<Rightarrow> int \<Rightarrow> int \<Rightarrow> string \<Rightarrow> rdres list \<Rightarrow> unit comp" where
  "local_client_main sock bnd conn g rs =
     bindc (local_client_open sock bnd conn) (\<lambda>c. local_client_loop c 0 g rs)"

section \<open>Client and server together\<close>

text \<open>\<open>num\<close> is an \<open>int\<close>: counting on from its largest value is undefined.\<close>

record lpair =
  to_server :: string
  to_client :: string
  client_buf :: string
  server_buf :: string
  count :: nat
  awaiting :: bool
  client_out :: "event list"
  server_out :: "event list"
  undefined_now :: bool

datatype lpair_label = ClientSends | ServerAnswers | ClientReceives

definition lpair_init :: "string \<Rightarrow> string \<Rightarrow> lpair" where
  "lpair_init g h = \<lparr>to_server = [], to_client = [], client_buf = g, server_buf = h, count = 0, awaiting = False,
     client_out = [], server_out = [], undefined_now = False\<rparr>"

definition lpair_step :: "lpair \<Rightarrow> lpair_label \<Rightarrow> lpair option" where
  "lpair_step s l =
     (if undefined_now s then None
      else case l of
        ClientSends \<Rightarrow>
          (if awaiting s then None
           else if 2 ^ 31 - 1 \<le> count s then Some (s\<lparr>undefined_now := True\<rparr>)
           else Some (case local_client_send 0 (count s) (client_buf s) of
             (es, Done b) \<Rightarrow> s\<lparr>client_buf := b, to_server := to_server s @ sent_to 0 es, count := count s + 1,
                              awaiting := True, client_out := client_out s @ es\<rparr>
           | _ \<Rightarrow> s\<lparr>undefined_now := True\<rparr>))
      | ServerAnswers \<Rightarrow>
          (case pipe_read BUFSIZ (to_server s) of
             None \<Rightarrow> None
           | Some (d, q) \<Rightarrow> Some (case local_server_turn 0 (RdData d) (server_buf s) of
               (es, Done (_, b)) \<Rightarrow> s\<lparr>to_server := q, server_buf := b, to_client := to_client s @ sent_to 0 es,
                                     server_out := server_out s @ es\<rparr>
             | _ \<Rightarrow> s\<lparr>undefined_now := True\<rparr>))
      | ClientReceives \<Rightarrow>
          (if \<not> awaiting s then None
           else case pipe_read BUFSIZ (to_client s) of
             None \<Rightarrow> None
           | Some (d, q) \<Rightarrow> Some (case local_client_recv (RdData d) (client_buf s) of
               (es, Done (_, b)) \<Rightarrow> s\<lparr>to_client := q, client_buf := b, awaiting := False,
                                     client_out := client_out s @ es\<rparr>
             | _ \<Rightarrow> s\<lparr>undefined_now := True\<rparr>)))"

section \<open>The pair keeps step\<close>

lemma local_text_short: "n < 2 ^ 31 \<Longrightarrow> length (local_text n) < 100"
  using length_show_nat [of n 9] by (simp add: local_text_def show_int_def NL_def)

lemma NUL_notin_local_text [simp]: "NUL \<notin> set (local_text n)"
  by (auto simp: local_text_def NL_def) (simp_all add: NUL_def)

text \<open>A buffer that begins with a text and its NUL.\<close>

lemma begins_cstr: "NUL \<notin> set t \<Longrightarrow> cstr (fill buf (t @ [NUL])) = ret t"
  by (simp add: cstr_NUL fill_def text_of_no_NUL)

lemma begins_reply:
  assumes "NUL \<notin> set t"
  shows "reply c (fill buf (t @ [NUL])) = emit (Wr c (t @ [NUL]))"
proof -
  have "strlen (fill buf (t @ [NUL])) = Some (length t)"
    using assms by (simp add: strlen_eq_Some fill_def text_of_no_NUL)
  then show ?thesis by (simp add: reply_def fill_def)
qed

definition sent_line :: "nat \<Rightarrow> event list" where
  "sent_line n = [Wr 0 (local_text n @ [NUL]), Out (''send msg: '' @ local_text n @ NL)]"

definition got_line :: "nat \<Rightarrow> event" where
  "got_line n = Out (''reccv from server: '' @ local_text n @ NL)"

definition served_line :: "nat \<Rightarrow> event list" where
  "served_line n = [Out (''reccv from client: '' @ local_text n @ NL), Wr 0 (local_text n @ [NUL])]"

lemma client_sends: "local_client_send 0 n buf = (sent_line n, Done (fill buf (local_text n @ [NUL])))"
  by (simp add: local_client_send_def begins_reply begins_cstr sent_line_def effect_simps)

lemma server_answers:
  "local_server_turn 0 (RdData (local_text n @ [NUL])) buf = (served_line n, Done (True, fill buf (local_text n @ [NUL])))"
  by (simp add: local_server_turn_def begins_reply begins_cstr served_line_def effect_simps)

lemma client_receives:
  "local_client_recv (RdData (local_text n @ [NUL])) buf = ([got_line n], Done (True, fill buf (local_text n @ [NUL])))"
  by (simp add: local_client_recv_def begins_cstr got_line_def effect_simps)

text \<open>What both sides have printed when \<open>m\<close> messages have been sent, \<open>k\<close> answered and \<open>j\<close> answers read.\<close>

definition client_log :: "nat \<Rightarrow> nat \<Rightarrow> event list" where
  "client_log m j = concat (map (\<lambda>n. sent_line n @ [got_line n]) [0..<j]) @ (if j < m then sent_line j else [])"

definition server_log :: "nat \<Rightarrow> event list" where
  "server_log k = concat (map served_line [0..<k])"

definition in_step :: "nat \<Rightarrow> nat \<Rightarrow> lpair \<Rightarrow> bool" where
  "in_step k j s \<longleftrightarrow>
     j \<le> k \<and> k \<le> count s \<and> count s \<le> j + 1 \<and> count s < 2 ^ 31 \<and> awaiting s = (j < count s) \<and>
     to_server s = (if k < count s then local_text k @ [NUL] else []) \<and>
     to_client s = (if j < k then local_text j @ [NUL] else []) \<and>
     client_out s = client_log (count s) j \<and> server_out s = server_log k \<and>
     (undefined_now s \<longrightarrow> count s = 2 ^ 31 - 1)"

lemma sent_lines [simp]:
  "sent_to 0 (sent_line n) = local_text n @ [NUL]" "sent_to 0 (served_line n) = local_text n @ [NUL]"
  by (simp_all add: sent_line_def served_line_def)

lemma read_whole [simp]:
  "n < 2 ^ 31 \<Longrightarrow> pipe_read BUFSIZ (local_text n @ [NUL]) = Some (local_text n @ [NUL], [])"
  using local_text_short [of n] by (simp add: pipe_read_def BUFSIZ_def)

lemma read_none [simp]: "pipe_read n [] = None"
  by (simp add: pipe_read_def)

lemma client_log_send: "client_log (Suc n) n = client_log n n @ sent_line n"
  by (simp add: client_log_def)

lemma client_log_receive: "client_log (Suc n) (Suc n) = client_log (Suc n) n @ [got_line n]"
  by (simp add: client_log_def)

lemma server_log_Suc: "server_log (Suc n) = server_log n @ served_line n"
  by (simp add: server_log_def)

lemma in_step_step:
  assumes i: "in_step k j s" and st: "lpair_step s l = Some t"
  shows "\<exists>k j. in_step k j t"
proof (cases l)
  case ClientSends
  show ?thesis
  proof (cases "2 ^ 31 - 1 \<le> count s")
    case True
    with i st ClientSends have "in_step k j t"
      by (auto simp: lpair_step_def in_step_def split: if_splits)
    then show ?thesis by blast
  next
    case False
    with i st ClientSends have "k = count s" "j = count s"
      "t = s\<lparr>client_buf := fill (client_buf s) (local_text (count s) @ [NUL]), to_server := local_text (count s) @ [NUL],
             count := count s + 1, awaiting := True, client_out := client_out s @ sent_line (count s)\<rparr>"
      by (auto simp: lpair_step_def in_step_def client_sends split: if_splits)
    with i st False have "in_step k j t"
      by (auto simp: in_step_def client_log_send lpair_step_def split: if_splits)
    then show ?thesis by blast
  qed
next
  case ServerAnswers
  with i st have k: "k < count s" "j = k" "count s = Suc k"
    by (auto simp: lpair_step_def in_step_def split: if_splits)
  with i have r: "pipe_read BUFSIZ (to_server s) = Some (local_text k @ [NUL], [])"
    by (simp add: in_step_def)
  with i st ServerAnswers k have
    "t = s\<lparr>to_server := [], server_buf := fill (server_buf s) (local_text k @ [NUL]), to_client := local_text k @ [NUL],
           server_out := server_out s @ served_line k\<rparr>"
    by (auto simp: lpair_step_def in_step_def server_answers split: if_splits)
  with i k st have "in_step (Suc k) k t"
    by (auto simp: in_step_def server_log_Suc lpair_step_def split: if_splits)
  then show ?thesis by blast
next
  case ClientReceives
  with i st have k: "j < k" "k = count s" "count s = Suc j"
    by (auto simp: lpair_step_def in_step_def split: if_splits)
  with i have r: "pipe_read BUFSIZ (to_client s) = Some (local_text j @ [NUL], [])"
    by (simp add: in_step_def)
  with i st ClientReceives k have
    "t = s\<lparr>to_client := [], client_buf := fill (client_buf s) (local_text j @ [NUL]), awaiting := False,
           client_out := client_out s @ [got_line j]\<rparr>"
    by (auto simp: lpair_step_def in_step_def client_receives split: if_splits)
  with i k st have "in_step k (Suc j) t"
    by (auto simp: in_step_def client_log_receive lpair_step_def split: if_splits)
  then show ?thesis by blast
qed

interpretation lp: safe_system lpair_step "lpair_init g h" "\<lambda>s. \<exists>k j. in_step k j s"
proof
  have "in_step 0 0 (lpair_init g h)" by (simp add: in_step_def lpair_init_def client_log_def server_log_def)
  then show "\<exists>k j. in_step k j (lpair_init g h)" by blast
qed (blast intro: in_step_step)

lemma in_step_moves:
  assumes "in_step k j s" "\<not> undefined_now s"
  shows "\<exists>l t. lpair_step s l = Some t"
proof -
  consider "\<not> awaiting s" | "awaiting s" "k < count s" | "awaiting s" "k = count s"
    using assms(1) by (fastforce simp: in_step_def)
  then show ?thesis
  proof cases
    case 1
    with assms have "\<exists>t. lpair_step s ClientSends = Some t" by (simp add: lpair_step_def)
    then show ?thesis by blast
  next
    case 2
    with assms have "pipe_read BUFSIZ (to_server s) = Some (local_text k @ [NUL], [])" by (simp add: in_step_def)
    with assms(2) have "\<exists>t. lpair_step s ServerAnswers = Some t" by (simp add: lpair_step_def)
    then show ?thesis by blast
  next
    case 3
    with assms have "pipe_read BUFSIZ (to_client s) = Some (local_text j @ [NUL], [])" by (auto simp: in_step_def)
    with assms(2) 3 have "\<exists>t. lpair_step s ClientReceives = Some t" by (simp add: lpair_step_def)
    then show ?thesis by blast
  qed
qed

text \<open>
  Claim C35.  Whatever the buffers hold at first and however the two processes are scheduled, server and
  client keep step: each message is shown and answered by the server exactly once and in order, each
  answer is the message, no byte of an older message is ever shown, they never wait for each other,
  and nothing is undefined before the client's counter is used up.
\<close>
theorem local_lockstep:
  assumes "reachable lpair_step (lpair_init g h) s"
  shows "(\<exists>k j. j \<le> k \<and> k \<le> count s \<and> count s \<le> j + 1 \<and>
            client_out s = client_log (count s) j \<and> server_out s = server_log k) \<and>
         (undefined_now s \<longrightarrow> count s = 2 ^ 31 - 1) \<and>
         (\<not> undefined_now s \<longrightarrow> (\<exists>l t. lpair_step s l = Some t))"
proof -
  obtain k j where i: "in_step k j s" using lp.inv_reachable [OF assms] by blast
  have "j \<le> k \<and> k \<le> count s \<and> count s \<le> j + 1 \<and> client_out s = client_log (count s) j \<and> server_out s = server_log k"
    "undefined_now s \<longrightarrow> count s = 2 ^ 31 - 1"
    using i by (simp_all add: in_step_def)
  with in_step_moves [OF i] show ?thesis by blast
qed

lemma local_lockstep_witness:
  "\<exists>s. run lpair_step (lpair_init (zeros BUFSIZ) (zeros BUFSIZ)) [ClientSends, ServerAnswers, ClientReceives] = Some s \<and>
     \<not> undefined_now s \<and> (\<exists>l t. lpair_step s l = Some t)"
proof -
  obtain s where s: "run lpair_step (lpair_init (zeros BUFSIZ) (zeros BUFSIZ)) [ClientSends, ServerAnswers, ClientReceives] = Some s"
    "count s = 1"
    by (simp add: lpair_step_def lpair_init_def client_sends server_answers client_receives)
  with local_lockstep [OF run_reachable [OF s(1)]] show ?thesis by auto
qed

end
