(* ===== verification/Datagrams.thy ===== *)
theory Datagrams
  imports Echo
begin

text \<open>
  Datagrams (\<^verbatim>\<open>NetCode/UDP\<close>: \<^verbatim>\<open>udp_server.c\<close>, \<^verbatim>\<open>udp_client.c\<close>, the broadcast and the multicast pair) and the
  small stream programs (\<^verbatim>\<open>addr_Functions/_socket\<close>, \<^verbatim>\<open>epoll_timer/server.cpp\<close>).  A datagram longer
  than the room the receiver allows is cut.
\<close>

section \<open>UDP echo\<close>

definition udp_open :: "int \<Rightarrow> int \<Rightarrow> fd comp" where
  "udp_open sock bnd =
     thenc (syserr sock ''socket'')
    (thenc (emit (Call ''bind'' [sock, 9527]))
    (thenc (syserr bnd ''bind'')
    (ret sock)))"

text \<open>One turn of the server, which got a datagram from \<open>peer\<close>; the value is the buffer.\<close>

definition udp_peer_line :: "address \<Rightarrow> event" where
  "udp_peer_line = (\<lambda>(ip, port). Out (''client IP: '' @ ip @ NL @ '', Prot: '' @ show_int port @ '' '' @ NL))"

lemma sent_to_udp_peer [simp]: "sent_to fd (udp_peer_line p # es) = sent_to fd es"
  by (cases p) (simp add: udp_peer_line_def)

definition udp_server_turn :: "fd \<Rightarrow> rdres \<Rightarrow> address \<Rightarrow> string \<Rightarrow> string comp" where
  "udp_server_turn c r peer buf =
     (case r of
        RdErr \<Rightarrow> thenc (syserr (-1) ''recvfrom'') (ret buf)
      | RdData d \<Rightarrow>
          (let d = take BUFSIZ d; buf = fill buf d in
           thenc (if length d = 0 then emit (Out ''EOF or empty package'') else ret ())
          (thenc (emit (udp_peer_line peer))
          (bindc (cstr buf) (\<lambda>t.
           thenc (emit (Out (''client say: '' @ t @ NL)))
          (thenc (emit (Wr c t))
          (ret buf)))))))"

fun udp_server_loop :: "fd \<Rightarrow> string \<Rightarrow> (rdres \<times> address) list \<Rightarrow> unit comp" where
  "udp_server_loop c buf [] = block"
| "udp_server_loop c buf ((r, peer) # rs) = bindc (udp_server_turn c r peer buf) (\<lambda>buf. udp_server_loop c buf rs)"

definition udp_server_main :: "int \<Rightarrow> int \<Rightarrow> string \<Rightarrow> (rdres \<times> address) list \<Rightarrow> unit comp" where
  "udp_server_main sock bnd g rs = bindc (udp_open sock bnd) (\<lambda>c. udp_server_loop c g rs)"

definition udp_text :: "nat \<Rightarrow> string" where
  "udp_text num = ''hello ,i am clien '' @ show_int (int num) @ '' '' @ NL"

text \<open>The client sends its whole buffer, whatever is behind the text, and allows \<open>strlen(buf)\<close> bytes of answer.\<close>

definition udp_client_send :: "fd \<Rightarrow> nat \<Rightarrow> int \<Rightarrow> string \<Rightarrow> string comp" where
  "udp_client_send c num r buf =
     (let buf = fill buf (udp_text num @ [NUL]) in
      thenc (emit (Wr c buf)) (thenc (syserr r ''sendto'') (ret buf)))"

definition udp_client_recv :: "rdres \<Rightarrow> string \<Rightarrow> string comp" where
  "udp_client_recv r buf =
     (case strlen buf of
        None \<Rightarrow> undef
      | Some n \<Rightarrow>
          (case r of
             RdErr \<Rightarrow> thenc (syserr (-1) ''recvfrom'') (ret buf)
           | RdData d \<Rightarrow>
               (let buf = fill buf (take n d) in
                bindc (cstr buf) (\<lambda>t. thenc (emit (Out (''server say: '' @ t @ NL))) (ret buf)))))"

fun udp_client_loop :: "fd \<Rightarrow> nat \<Rightarrow> string \<Rightarrow> (int \<times> rdres) list \<Rightarrow> unit comp" where
  "udp_client_loop c num buf [] = bindc (udp_client_send c num 0 buf) (\<lambda>_. block)"
| "udp_client_loop c num buf ((s, r) # rs) =
     bindc (udp_client_send c num s buf) (\<lambda>buf.
     bindc (udp_client_recv r buf) (\<lambda>buf.
     thenc (emit (Call ''sleep'' [1])) (udp_client_loop c (num + 1) buf rs)))"

definition udp_client_main :: "int \<Rightarrow> string \<Rightarrow> (int \<times> rdres) list \<Rightarrow> unit comp" where
  "udp_client_main sock g rs = thenc (syserr sock ''socket'') (udp_client_loop sock 0 g rs)"

text \<open>One exchange with no datagram lost: what the two print, and their buffers afterwards.\<close>

definition udp_exchange :: "nat \<Rightarrow> address \<Rightarrow> string \<times> string \<Rightarrow> (string \<times> string) comp" where
  "udp_exchange num peer = (\<lambda>(cb, sb).
     case udp_client_send 0 num 0 cb of
       (es, Done cb1) \<Rightarrow>
         bindc (udp_server_turn 1 (RdData (sent_to 0 es)) peer sb) (\<lambda>sb1.
         bindc (udp_client_recv (RdData (sent_to 1 (events (udp_server_turn 1 (RdData (sent_to 0 es)) peer sb)))) cb1)
           (\<lambda>cb2. ret (cb2, sb1)))
     | _ \<Rightarrow> undef)"

fun udp_exchanges :: "nat \<Rightarrow> address list \<Rightarrow> string \<times> string \<Rightarrow> (string \<times> string) comp" where
  "udp_exchanges num [] bs = ret bs"
| "udp_exchanges num (p # ps) bs = bindc (udp_exchange num p bs) (udp_exchanges (num + 1) ps)"

lemma NUL_notin_udp_text [simp]: "NUL \<notin> set (udp_text n)"
  by (auto simp: udp_text_def NL_def) (simp_all add: NUL_def)

lemma udp_text_length: "n < 2 ^ 31 \<Longrightarrow> length (udp_text n) < BUFSIZ"
  using length_show_nat [of n 9] by (simp add: udp_text_def show_int_def NL_def BUFSIZ_def)

lemma fill_begins: "NUL \<notin> set t \<Longrightarrow> text_of (fill buf (t @ NUL # u)) = t"
  by (simp add: fill_def text_of_no_NUL)

text \<open>A datagram with a NUL in it is shown and sent back up to there.\<close>

lemma udp_server_turn_text:
  assumes "NUL \<in> set d" "length d \<le> BUFSIZ"
  shows "udp_server_turn c (RdData d) peer buf =
    ([udp_peer_line peer, Out (''client say: '' @ text_of d @ NL), Wr c (text_of d)], Done (fill buf d))"
proof -
  have "cstr (fill buf d) = ret (text_of d)"
    using assms by (subst cstr_NUL) (auto simp: fill_def text_of_fill_NUL [unfolded fill_def])
  moreover have "d \<noteq> []" using assms(1) by auto
  ultimately show ?thesis using assms(2) by (simp add: udp_server_turn_def effect_simps)
qed

lemma udp_client_recv_text:
  assumes "strlen buf = Some n" "length d \<le> n" "NUL \<notin> set d"
  shows "\<exists>t. udp_client_recv (RdData d) buf = ([Out (''server say: '' @ t @ NL)], Done (fill buf d)) \<and> take (length d) t = d"
proof -
  from assms(1) obtain rest where eq: "buf = text_of buf @ NUL # rest" and n: "n = length (text_of buf)"
    using text_of_split strlen_eq_Some by blast
  have f: "fill buf d = d @ drop (length d) (text_of buf) @ NUL # rest"
    using assms(2) n by (subst eq) (simp add: fill_def)
  then have "NUL \<in> set (fill buf d)" by simp
  moreover have "text_of (fill buf d) = d @ text_of (drop (length d) (text_of buf) @ NUL # rest)"
    unfolding f by (rule text_of_no_NUL_append [OF assms(3)])
  ultimately show ?thesis using assms by (simp add: udp_client_recv_def cstr_NUL effect_simps)
qed

text \<open>The lines of one exchange.\<close>

definition udp_lines :: "nat \<Rightarrow> address \<Rightarrow> event list" where
  "udp_lines num peer =
     [udp_peer_line peer, Out (''client say: '' @ udp_text num @ NL), Wr 1 (udp_text num), Out (''server say: '' @ udp_text num @ NL)]"

lemma udp_exchange_lines:
  assumes n: "num < 2 ^ 31" and b: "length cb = BUFSIZ"
  shows "\<exists>sb'. udp_exchange num peer (cb, sb) = (udp_lines num peer, Done (fill cb (udp_text num @ [NUL]), sb'))"
proof -
  let ?t = "udp_text num"
  let ?cb = "fill cb (?t @ [NUL])"
  have len: "length ?cb = BUFSIZ" using udp_text_length [OF n] b by simp
  have nul: "NUL \<in> set ?cb" by (simp add: fill_def)
  have shows_t: "text_of ?cb = ?t" by (simp add: fill_begins)
  have send: "udp_client_send 0 num 0 cb = ([Wr 0 ?cb], Done ?cb)"
    by (simp add: udp_client_send_def Let_def effect_simps)
  have turn: "udp_server_turn 1 (RdData ?cb) peer sb =
      ([udp_peer_line peer, Out (''client say: '' @ ?t @ NL), Wr 1 ?t], Done (fill sb ?cb))"
    using udp_server_turn_text [of ?cb 1 peer sb] nul len shows_t by simp
  have same: "fill ?cb ?t = ?cb" by (simp add: fill_def)
  have "strlen ?cb = Some (length ?t)" using nul shows_t by (simp add: strlen_eq_Some)
  then have recv: "udp_client_recv (RdData ?t) ?cb = ([Out (''server say: '' @ ?t @ NL)], Done ?cb)"
    using nul shows_t same by (simp add: udp_client_recv_def cstr_NUL effect_simps)
  show ?thesis
    by (simp add: udp_exchange_def send turn recv udp_lines_def effect_simps)
qed

text \<open>
  As long as no datagram is lost, client and server of \<^verbatim>\<open>_server_client\<close> show every message exactly,
  whatever their buffers hold, although the client sends 8192 bytes for each and allows only
  \<open>strlen(buf)\<close> bytes of answer.
\<close>
theorem udp_exact:
  assumes "length cb = BUFSIZ" "num + length ps \<le> 2 ^ 31"
  shows "events (udp_exchanges num ps (cb, sb)) = concat (map (\<lambda>(k, p). udp_lines k p) (zip [num..<num + length ps] ps)) \<and>
    (\<exists>bs. outcome (udp_exchanges num ps (cb, sb)) = Done bs)"
  using assms
proof (induction ps arbitrary: num cb sb)
  case Nil
  then show ?case by (simp add: effect_simps)
next
  case (Cons p ps)
  let ?cb = "fill cb (udp_text num @ [NUL])"
  obtain sb' where e: "udp_exchange num p (cb, sb) = (udp_lines num p, Done (?cb, sb'))"
    using udp_exchange_lines [of num cb p sb] Cons.prems by auto
  have "length ?cb = BUFSIZ" using udp_text_length [of num] Cons.prems by simp
  with Cons.IH [of ?cb "num + 1" sb'] Cons.prems e show ?case
    by (simp add: effect_simps upt_conv_Cons del: upt_Suc)
qed

lemma udp_exact_witness:
  "events (udp_exchanges 0 [(''1.2.3.4'', 7), (''1.2.3.4'', 8)] (zeros BUFSIZ, [])) = udp_lines 0 (''1.2.3.4'', 7) @ udp_lines 1 (''1.2.3.4'', 8)"
  using udp_exact [of "zeros BUFSIZ" 0 "[(''1.2.3.4'', 7), (''1.2.3.4'', 8)]" "[]"] by (simp add: upt_rec)

section \<open>Broadcast and multicast\<close>

definition cast_text :: "nat \<Rightarrow> string" where
  "cast_text num = ''hello , client ........'' @ show_int (int num) @ NL"

text \<open>The senders; \<open>what\<close> is \<open>brocast\<close> in one and \<open>multicast\<close> in the other.\<close>

fun cast_loop :: "string \<Rightarrow> fd \<Rightarrow> string \<Rightarrow> nat list \<Rightarrow> unit comp" where
  "cast_loop what c buf [] = ret ()"
| "cast_loop what c buf (num # ns) =
     (let buf = fill buf (cast_text num @ [NUL]) in
      thenc (reply c buf)
     (bindc (cstr buf) (\<lambda>t.
      thenc (emit (Out (what @ '' content: '' @ t @ NL)))
     (thenc (emit (Call ''sleep'' [1]))
     (cast_loop what c buf ns)))))"

definition broadcast_server :: "int \<Rightarrow> string \<Rightarrow> nat \<Rightarrow> unit comp" where
  "broadcast_server sock g n =
     thenc (syserr sock ''socket'')
    (thenc (emit (Call ''setsockopt SO_BROADCAST'' [sock, 1]))
    (cast_loop ''brocast'' sock g [0..<n]))"

definition multicast_server :: "int \<Rightarrow> string \<Rightarrow> nat \<Rightarrow> unit comp" where
  "multicast_server sock g n =
     thenc (syserr sock ''socket'')
    (thenc (emit (Call ''setsockopt IP_MULTICAST_IF'' [sock]))
    (cast_loop ''multicast'' sock g [0..<n]))"

text \<open>The receivers allow as many bytes as the uninitialised buffer happens to have before its first NUL.\<close>

definition cast_line :: "string \<Rightarrow> event" where
  "cast_line t = Out (''receive broadcat content : '' @ t @ NL)"

fun cast_recv_loop :: "string \<Rightarrow> rdres list \<Rightarrow> unit comp" where
  "cast_recv_loop buf [] = block"
| "cast_recv_loop buf (r # rs) =
     (case strlen buf of
        None \<Rightarrow> undef
      | Some n \<Rightarrow>
          (let buf = (case r of RdErr \<Rightarrow> buf | RdData d \<Rightarrow> fill buf (take n d)) in
           bindc (cstr buf) (\<lambda>t.
           thenc (emit (cast_line t)) (cast_recv_loop buf rs))))"

definition broadcast_client :: "int \<Rightarrow> int \<Rightarrow> string \<Rightarrow> rdres list \<Rightarrow> unit comp" where
  "broadcast_client sock bnd g rs = bindc (udp_open sock bnd) (\<lambda>_. cast_recv_loop g rs)"

definition multicast_client :: "int \<Rightarrow> string \<Rightarrow> rdres list \<Rightarrow> unit comp" where
  "multicast_client sock g rs =
     thenc (syserr sock ''socket'')
    (thenc (emit (Call ''setsockopt IP_ADD_MEMBERSHIP'' [sock]))
    (cast_recv_loop g rs))"

text \<open>What the receivers print, without the words around it.\<close>

definition cast_shown :: "event list \<Rightarrow> string list" where
  "cast_shown es = concat (map (\<lambda>e. case e of Out t \<Rightarrow> [drop 27 (butlast t)] | _ \<Rightarrow> []) es)"

lemma cast_shown_simps [simp]:
  "cast_shown [] = []" "cast_shown (cast_line t # es) = t # cast_shown es"
  by (simp_all add: cast_shown_def cast_line_def NL_def butlast_append)

lemma strlen_fill_le:
  assumes "strlen g = Some m"
  shows "\<exists>k. strlen (fill g (take m d)) = Some k \<and> k \<le> m"
proof -
  from assms obtain rest where eq: "g = text_of g @ NUL # rest" and m: "m = length (text_of g)"
    using text_of_split strlen_eq_Some by blast
  let ?d = "take m d @ drop (length (take m d)) (text_of g)"
  have f: "fill g (take m d) = ?d @ NUL # rest" using m by (subst eq) (simp add: fill_def)
  then have "NUL \<in> set (fill g (take m d))" by simp
  moreover have "text_of (fill g (take m d)) = text_of ?d" unfolding f by (rule text_of_append_NUL)
  moreover have "length (text_of ?d) \<le> m" using length_text_of [of ?d] m by simp
  ultimately show ?thesis by (simp add: strlen_eq_Some)
qed

text \<open>
  The broadcast and the multicast client show nothing that is longer than the text their buffer
  held at the start: whatever arrives is cut to it, so that a buffer of zeros shows only empty texts for
  ever; and without a NUL in the buffer they read past its end before they receive anything.
\<close>
theorem cast_blind:
  "(strlen g = Some n \<longrightarrow>
      outcome (cast_recv_loop g rs) = Block \<and>
      length (cast_shown (events (cast_recv_loop g rs))) = length rs \<and>
      (\<forall>t \<in> set (cast_shown (events (cast_recv_loop g rs))). length t \<le> n)) \<and>
   (strlen g = None \<longrightarrow> rs \<noteq> [] \<longrightarrow> cast_recv_loop g rs = undef)"
proof (intro conjI impI)
  have "outcome (cast_recv_loop g rs) = Block \<and> length (cast_shown (events (cast_recv_loop g rs))) = length rs \<and>
      (\<forall>t \<in> set (cast_shown (events (cast_recv_loop g rs))). length t \<le> n)" if "strlen g = Some m" "m \<le> n" for m
    using that
  proof (induction rs arbitrary: g m)
    case Nil
    then show ?case by (simp add: effect_simps)
  next
    case (Cons r rs)
    define b where "b = (case r of RdErr \<Rightarrow> g | RdData d \<Rightarrow> fill g (take m d))"
    have "\<exists>k. strlen b = Some k \<and> k \<le> m"
      using strlen_fill_le [OF Cons.prems(1)] Cons.prems(1) by (auto simp: b_def split: rdres.split)
    then obtain k where k: "strlen b = Some k" "k \<le> m" by blast
    then have t: "cstr b = ret (text_of b)" "length (text_of b) = k"
      by (auto simp: strlen_eq_Some cstr_NUL)
    have "cast_recv_loop g (r # rs) =
        thenc (emit (cast_line (text_of b))) (cast_recv_loop b rs)"
      using Cons.prems(1) t(1) by (simp add: b_def [symmetric])
    moreover have "length (text_of b) \<le> n" using t k Cons.prems(2) by simp
    ultimately show ?case using Cons.IH [OF k(1)] k(2) Cons.prems(2)
      by (simp add: effect_simps del: cast_recv_loop.simps)
  qed
  then show "outcome (cast_recv_loop g rs) = Block" "length (cast_shown (events (cast_recv_loop g rs))) = length rs"
    "\<forall>t \<in> set (cast_shown (events (cast_recv_loop g rs))). length t \<le> n" if "strlen g = Some n"
    using that by simp_all
  assume "strlen g = None" "rs \<noteq> []"
  then show "cast_recv_loop g rs = undef" by (cases rs) simp_all
qed

lemma cast_blind_witness:
  "cast_shown (events (cast_recv_loop (zeros BUFSIZ) [RdData ''news'', RdErr])) = [[], []]"
proof -
  let ?s = "cast_shown (events (cast_recv_loop (zeros BUFSIZ) [RdData ''news'', RdErr]))"
  have "strlen (zeros BUFSIZ) = Some 0" by (simp add: strlen_eq_Some)
  with cast_blind [of "zeros BUFSIZ" 0 "[RdData ''news'', RdErr]"]
  have "length ?s = 2" "\<forall>t \<in> set ?s. t = []" by simp_all
  then show ?thesis by (cases ?s; cases "tl ?s") auto
qed

section \<open>One message each way\<close>

text \<open>The client's test of the result of \<open>read\<close> assigns -1 to it.\<close>

definition shot_client :: "fd \<Rightarrow> string \<Rightarrow> rdres \<Rightarrow> unit comp" where
  "shot_client fd g r =
     thenc (emit (Call ''connect'' [fd, 9999]))
    (thenc (emit (Wr fd (''hello , i am client'' @ [NUL])))
    (let buf = (case r of RdErr \<Rightarrow> g | RdData d \<Rightarrow> fill g d); retlen = -1 :: int in
     if retlen \<noteq> 0 then thenc (emit (Perror ''read'')) (exit_with (-1))
     else if retlen > 0 then bindc (cstr buf) (\<lambda>t. thenc (emit (Out (''receive data: '' @ t @ NL))) (emit (Cl fd)))
     else thenc (emit (Out ''server has left'')) (emit (Cl fd))))"

text \<open>
  The server; \<open>ptr\<close> is the size of a pointer, which is what \<open>sizeof(str)\<close> gives.  The address it binds is
  that of no text (the macro in quotes), which \<open>inet_pton\<close> turns into 0, any address.
\<close>

definition shot_peer_line :: "address \<Rightarrow> event" where
  "shot_peer_line = (\<lambda>(ip, port). Out (''client IP: '' @ ip @ '' ,Port : '' @ show_int port @ '' '' @ NL))"

lemma sent_to_shot_peer [simp]: "sent_to fd (shot_peer_line p # es) = sent_to fd es"
  by (cases p) (simp add: shot_peer_line_def)

definition shot_server :: "nat \<Rightarrow> fd \<Rightarrow> int \<Rightarrow> address \<Rightarrow> string \<Rightarrow> rdres \<Rightarrow> unit comp" where
  "shot_server ptr l c peer g r =
     thenc (emit (Call ''bind'' [l, 0, 9999]))
    (thenc (emit (Call ''listen'' [l, 128]))
    (thenc (emit (Call ''accept'' [l]))
    (if -1 = c then thenc (emit (Perror ''accept'')) (exit_with 0)
     else
      thenc (emit (shot_peer_line peer))
     (bindc (case r of
          RdErr \<Rightarrow> thenc (emit (Perror ''read'')) (exit_with (-1))
        | RdData d \<Rightarrow>
            if d \<noteq> [] then bindc (cstr (fill g d)) (\<lambda>t. emit (Out (''receive data: '' @ t @ NL)))
            else emit (Out ''client has left'')) (\<lambda>_.
      thenc (emit (Wr c (take ptr (''hello client'' @ [NUL]))))
     (thenc (emit (Cl c)) (emit (Cl l))))))))"

text \<open>
  The client of \<^verbatim>\<open>_socket\<close> reports an error of \<open>read\<close> and exits with -1 whatever it has received, and
  the server, with pointers of eight bytes, sends \<open>hello cl\<close> and no NUL.
\<close>
theorem single_shot:
  "shot_client fd g r =
     ([Call ''connect'' [fd, 9999], Wr fd (''hello , i am client'' @ [NUL]), Perror ''read''], Exit (-1)) \<and>
   (c \<noteq> -1 \<longrightarrow> NUL \<in> set d \<longrightarrow>
      sent_to c (events (shot_server 8 l c peer h (RdData d))) = ''hello cl'' \<and>
      Out (''receive data: '' @ text_of d @ NL) \<in> set (events (shot_server 8 l c peer h (RdData d))))"
proof (intro conjI impI)
  show "shot_client fd g r =
     ([Call ''connect'' [fd, 9999], Wr fd (''hello , i am client'' @ [NUL]), Perror ''read''], Exit (-1))"
    by (simp add: shot_client_def effect_simps)
  assume "c \<noteq> -1" "NUL \<in> set d"
  then have "cstr (fill h d) = ret (text_of d)" "d \<noteq> []"
    by (auto simp: cstr_NUL fill_def text_of_fill_NUL [unfolded fill_def])
  with \<open>c \<noteq> -1\<close> show "sent_to c (events (shot_server 8 l c peer h (RdData d))) = ''hello cl''"
    "Out (''receive data: '' @ text_of d @ NL) \<in> set (events (shot_server 8 l c peer h (RdData d)))"
    by (simp_all add: shot_server_def effect_simps)
qed

lemma single_shot_witness:
  "sent_to 4 (events (shot_server 8 3 4 (''127.0.0.1'', 5000) (zeros BUFSIZ) (RdData (''hi'' @ [NUL])))) = ''hello cl''"
  using single_shot [where c = 4 and d = "''hi'' @ [NUL]" and l = 3 and peer = "(''127.0.0.1'', 5000)" and h = "zeros BUFSIZ"] by simp

section \<open>Upper case\<close>

definition toupper :: "char \<Rightarrow> char" where
  "toupper c = (if 97 \<le> (of_char c :: nat) \<and> (of_char c :: nat) \<le> 122 then char_of ((of_char c :: nat) - 32) else c)"

text \<open>
  \<^verbatim>\<open>epoll_timer/server.cpp\<close> has no way out of its loop: an error of \<open>read\<close> becomes a write of \<open>(size_t)-1\<close> bytes,
  the end of the input an empty write, again and again.
\<close>

fun upper_loop :: "fd \<Rightarrow> rdres list \<Rightarrow> unit comp" where
  "upper_loop c [] = block"
| "upper_loop c (RdErr # rs) = thenc (emit (Call ''write SIZE_MAX'' [c])) (upper_loop c rs)"
| "upper_loop c (RdData d # rs) = thenc (emit (Wr c (map toupper d))) (upper_loop c rs)"

definition upper_peer_line :: "address \<Rightarrow> event" where
  "upper_peer_line = (\<lambda>(ip, port). Out (''Client IP: '' @ ip @ '', Client Port: '' @ show_int port @ '' '' @ NL))"

definition upper_main :: "fd \<Rightarrow> fd \<Rightarrow> address \<Rightarrow> rdres list \<Rightarrow> unit comp" where
  "upper_main l c peer rs =
     thenc (emit (Call ''bind'' [l, 12345]))
    (thenc (emit (Call ''listen'' [l, 128]))
    (thenc (emit (Call ''accept'' [l]))
    (thenc (emit (upper_peer_line peer))
    (upper_loop c rs))))"

lemma upper_sends:
  "sent_to c (events (upper_loop c (map RdData ds @ replicate k (RdData [])))) = map toupper (concat ds) \<and>
   outcome (upper_loop c rs) = Block \<and> (\<forall>f. Cl f \<notin> set (events (upper_loop c rs)))"
proof (intro conjI)
  have "sent_to c (events (upper_loop c (replicate k (RdData [])))) = []"
    by (induction k) (simp_all add: effect_simps)
  then show "sent_to c (events (upper_loop c (map RdData ds @ replicate k (RdData [])))) = map toupper (concat ds)"
    by (induction ds) (simp_all add: effect_simps)
  show "outcome (upper_loop c rs) = Block" "\<forall>f. Cl f \<notin> set (events (upper_loop c rs))"
    by (induction c rs rule: upper_loop.induct) (auto simp: effect_simps)
qed

end
