(* ===== verification/Threads.thy ===== *)
theory Threads
  imports CString
begin

text \<open>
  The programs of \<^verbatim>\<open>thread_Functions\<close>: a main thread that creates one thread and waits for it, detaches it,
  cancels it or just ends.  Each program is what its two threads do in turn (\<open>prog\<close>); a step of the
  system is a step of one of them, and \<open>out\<close> is what appears on the screen.
\<close>

section \<open>Programs\<close>

text \<open>What the main thread does after it has created the other.\<close>

text \<open>The three calls come with what the program prints before the text of an error.\<close>

datatype mop = Say event | SayJoined | Nap | Join string | Detach string | Cancel string | ThreadExit | Return

record prog =
  main_ops :: "mop list"
  child_lines :: "event list"
  result :: int
  born_detached :: bool
  complaint :: string

definition count_lines :: "string \<Rightarrow> nat \<Rightarrow> event list" where
  "count_lines pre n = map (\<lambda>i. Out (pre @ show_int (int i) @ NL)) [0..<n]"

text \<open>The lines with the numbers of the threads: \<open>tid\<close> of the new one, \<open>self\<close> of the main thread.\<close>

definition child_id :: "int \<Rightarrow> event" where
  "child_id tid = Out (''child thread id: '' @ show_int tid @ NL)"

definition child_number :: "int \<Rightarrow> event" where
  "child_number tid = Out (''child thread id : '' @ show_int tid @ '' '' @ NL)"

definition both_ids :: "int \<Rightarrow> int \<Rightarrow> event" where
  "both_ids tid self = Out (''tid: '' @ show_int tid @ '', main thread id : '' @ show_int self @ '' '' @ NL)"

definition both_numbers :: "int \<Rightarrow> int \<Rightarrow> event" where
  "both_numbers tid self = Out (''tid: '' @ show_int tid @ '' , main thread id : '' @ show_int self @ '' '' @ NL)"

definition stack_line :: "int \<Rightarrow> event" where
  "stack_line stsize = Out (''thread stack size: '' @ show_int stsize @ NL)"

definition attr_prog :: "int \<Rightarrow> int \<Rightarrow> int \<Rightarrow> prog" where
  "attr_prog tid self stsize = \<lparr>main_ops = [Say (stack_line stsize), Say (both_ids tid self), ThreadExit],
     child_lines = [child_id tid], result = 0, born_detached = True, complaint = ''create: ''\<rparr>"

definition cancel_prog :: "int \<Rightarrow> int \<Rightarrow> prog" where
  "cancel_prog tid self = \<lparr>main_ops = Say (both_ids tid self) # Cancel ''cancel: '' # map Say (count_lines ''father: '' 5) @ [ThreadExit],
     child_lines = child_id tid # count_lines ''child: '' 10, result = 0, born_detached = False, complaint = ''create: ''\<rparr>"

definition create_prog :: prog where
  "create_prog = \<lparr>main_ops = Nap # map Say (count_lines [] 5) @ [Return],
     child_lines = [Out (''Child thread.. value = 10'' @ NL)], result = 0, born_detached = False, complaint = ''error: ''\<rparr>"

definition detach_prog :: "int \<Rightarrow> int \<Rightarrow> prog" where
  "detach_prog tid self = \<lparr>main_ops = [Say (both_ids tid self), Detach ''detach: '', Join ''join: '', ThreadExit],
     child_lines = [child_id tid], result = 0, born_detached = False, complaint = ''create: ''\<rparr>"

definition main_thread_exit :: event where
  "main_thread_exit = Out (''main thread exit'' @ NL)"

definition exit_prog :: "int \<Rightarrow> int \<Rightarrow> prog" where
  "exit_prog tid self = \<lparr>main_ops = map Say (count_lines [] 50) @
       [Say (both_numbers tid self), ThreadExit, Say main_thread_exit, Return],
     child_lines = [child_number tid], result = 0, born_detached = False, complaint = ''cret:''\<rparr>"

definition reclaimed_line :: event where
  "reclaimed_line = Out (''child reclaimed'' @ NL)"

definition join_prog :: "int \<Rightarrow> int \<Rightarrow> prog" where
  "join_prog tid self = \<lparr>main_ops = map Say (count_lines [] 50) @
       [Say (both_numbers tid self), Join ''err:'', Say reclaimed_line, SayJoined, ThreadExit, Say main_thread_exit, Return],
     child_lines = [child_number tid], result = 10, born_detached = False, complaint = ''cret:''\<rparr>"

section \<open>Steps\<close>

record thr =
  mleft :: "mop list"
  mdone :: "mop list"
  cleft :: "event list"
  detached :: bool
  cancelled :: bool
  child_over :: bool
  main_over :: bool
  process_over :: bool
  joined :: "int option"
  results :: "string option list"
  mout :: "event list"
  cout :: "event list"
  out :: "event list"
  wild :: bool

definition thr_init :: "prog \<Rightarrow> thr" where
  "thr_init p = \<lparr>mleft = main_ops p, mdone = [], cleft = child_lines p, detached = born_detached p, cancelled = False,
     child_over = False, main_over = False, process_over = False, joined = None, results = [], mout = [], cout = [], out = [], wild = False\<rparr>"

definition say_main :: "event \<Rightarrow> thr \<Rightarrow> thr" where
  "say_main e s = s\<lparr>mout := mout s @ [e], out := out s @ [e]\<rparr>"

definition joined_line :: "int \<Rightarrow> event" where
  "joined_line v = Out (''thread retrurn val: '' @ show_int v @ NL)"

text \<open>
  A call of the thread library: its result \<open>r\<close> is no error, or the text of one, which the program prints behind
  \<open>c\<close>; \<open>results\<close> keeps them all.
\<close>

definition call_done :: "string \<Rightarrow> string option \<Rightarrow> thr \<Rightarrow> thr" where
  "call_done c r s =
     (let t = s\<lparr>results := results s @ [r]\<rparr> in
      case r of None \<Rightarrow> t | Some m \<Rightarrow> say_main (Out (c @ m @ NL)) t)"

text \<open>
  The main thread; \<open>r\<close> is the result of the call it makes, if it makes one.  \<open>Join\<close> without an error waits for
  the end of the thread, and there is no such join of a detached thread; \<open>ThreadExit\<close> ends the
  thread only, \<open>Return\<close> the process; \<open>SayJoined\<close> without a join reads a pointer never set.
\<close>

definition main_thread :: "prog \<Rightarrow> string option \<Rightarrow> thr \<Rightarrow> thr option" where
  "main_thread p r s =
     (if main_over s then None
      else case mleft s of
        [] \<Rightarrow> None
      | a # as \<Rightarrow>
         (let t = s\<lparr>mleft := as, mdone := mdone s @ [a]\<rparr> in
          case a of
            Say e \<Rightarrow> Some (say_main e t)
          | SayJoined \<Rightarrow>
              (case joined s of None \<Rightarrow> Some (t\<lparr>wild := True, process_over := True\<rparr>) | Some v \<Rightarrow> Some (say_main (joined_line v) t))
          | Nap \<Rightarrow> Some t
          | Join c \<Rightarrow>
              (if r \<noteq> None then Some (call_done c r t)
               else if child_over s \<and> \<not> detached s then Some (call_done c r (t\<lparr>joined := Some (result p)\<rparr>)) else None)
          | Detach c \<Rightarrow> Some (call_done c r (if r = None then t\<lparr>detached := True\<rparr> else t))
          | Cancel c \<Rightarrow> Some (call_done c r (if r = None then t\<lparr>cancelled := True\<rparr> else t))
          | ThreadExit \<Rightarrow> Some (t\<lparr>main_over := True\<rparr>)
          | Return \<Rightarrow> Some (t\<lparr>process_over := True\<rparr>)))"

text \<open>
  A detached thread is gone when it ends, and its number with it.  A join then may still give an error (\<open>main_thread\<close>),
  but the behaviour is undefined.
\<close>

definition main_misuse :: "thr \<Rightarrow> thr option" where
  "main_misuse s =
     (if main_over s then None
      else case mleft s of
        Join c # as \<Rightarrow> if detached s \<and> child_over s then Some (s\<lparr>wild := True, process_over := True\<rparr>) else None
      | _ \<Rightarrow> None)"

definition child_thread :: "thr \<Rightarrow> thr option" where
  "child_thread s =
     (if child_over s then None
      else case cleft s of
        [] \<Rightarrow> Some (s\<lparr>child_over := True\<rparr>)
      | e # es \<Rightarrow> Some (s\<lparr>cleft := es, cout := cout s @ [e], out := out s @ [e]\<rparr>))"

text \<open>\<open>ChildCancelled\<close>: the thread acts on a request to end, at one of its calls.\<close>

datatype thr_label = MainTurn "string option" | MainMisuse | ChildTurn | ChildCancelled

definition thr_step :: "prog \<Rightarrow> thr \<Rightarrow> thr_label \<Rightarrow> thr option" where
  "thr_step p s l =
     (if process_over s then None
      else case l of
        MainTurn r \<Rightarrow> main_thread p r s
      | MainMisuse \<Rightarrow> main_misuse s
      | ChildTurn \<Rightarrow> child_thread s
      | ChildCancelled \<Rightarrow> (if cancelled s \<and> \<not> child_over s then Some (s\<lparr>child_over := True\<rparr>) else None))"

text \<open>
  The whole program: \<open>r\<close> is the result of \<open>pthread_create\<close>, \<open>errstr\<close> the text for it.  When there is no thread the main
  thread complains and goes on; what it does with the thread's number, which was never set, is undefined.
\<close>

fun alone :: "mop list \<Rightarrow> unit comp" where
  "alone [] = ret ()"
| "alone (Say e # as) = thenc (emit e) (alone as)"
| "alone (Nap # as) = alone as"
| "alone (ThreadExit # as) = exit_with 0"
| "alone (Return # as) = exit_with 0"
| "alone (_ # as) = undef"

definition thr_main :: "prog \<Rightarrow> int \<Rightarrow> string \<Rightarrow> unit comp + thr" where
  "thr_main p r errstr =
     (if r \<noteq> 0 then Inl (thenc (emit (Out (complaint p @ errstr @ NL))) (alone (main_ops p)))
      else Inr (thr_init p))"

section \<open>What appears on the screen\<close>

text \<open>
  The lines of the main thread, when its calls have the results \<open>rs\<close> and \<open>j\<close> tells whether a join has
  set the pointer to the value \<open>v\<close>.
\<close>

fun saying :: "bool \<Rightarrow> int \<Rightarrow> string option list \<Rightarrow> mop list \<Rightarrow> event list" where
  "saying j v rs [] = []"
| "saying j v rs (Say e # as) = e # saying j v rs as"
| "saying j v rs (SayJoined # as) = (if j then joined_line v # saying j v rs as else [])"
| "saying j v rs (Nap # as) = saying j v rs as"
| "saying j v rs (ThreadExit # as) = []"
| "saying j v rs (Return # as) = []"
| "saying j v (None # rs) (Join c # as) = saying True v rs as"
| "saying j v (None # rs) (Detach c # as) = saying j v rs as"
| "saying j v (None # rs) (Cancel c # as) = saying j v rs as"
| "saying j v (Some m # rs) (Join c # as) = Out (c @ m @ NL) # saying j v rs as"
| "saying j v (Some m # rs) (Detach c # as) = Out (c @ m @ NL) # saying j v rs as"
| "saying j v (Some m # rs) (Cancel c # as) = Out (c @ m @ NL) # saying j v rs as"
| "saying j v [] (_ # as) = []"

definition said :: "prog \<Rightarrow> thr \<Rightarrow> bool" where
  "said p s \<longleftrightarrow> (\<forall>rs. (wild s \<longrightarrow> rs = []) \<longrightarrow>
     mout s @ (if main_over s \<or> process_over s then [] else saying (joined s \<noteq> None) (result p) rs (mleft s)) =
       saying False (result p) (results s @ rs) (main_ops p))"

lemma said_child [simp]:
  "said p (s\<lparr>child_over := b\<rparr>) = said p s"
  "said p (s\<lparr>cleft := es, cout := es', out := es''\<rparr>) = said p s"
  by (simp_all add: said_def)

lemma said_now:
  "said p s \<Longrightarrow> \<not> main_over s \<Longrightarrow> \<not> process_over s \<Longrightarrow> saying (joined s \<noteq> None) (result p) [] (mleft s) = [] \<Longrightarrow>
    mout s = saying False (result p) (results s) (main_ops p)"
  unfolding said_def by (metis append_Nil2)

lemma said_over: "said p s \<Longrightarrow> main_over s \<or> process_over s \<Longrightarrow> mout s = saying False (result p) (results s) (main_ops p)"
  unfolding said_def by (drule spec [of _ "[]"]) auto

lemma said_last:
  "said p s \<Longrightarrow> \<not> main_over s \<Longrightarrow> \<not> process_over s \<Longrightarrow> \<not> wild s \<Longrightarrow> (\<And>rs. saying (joined s \<noteq> None) (result p) rs (mleft s) = []) \<Longrightarrow>
    \<forall>rs. mout s = saying False (result p) (results s @ rs) (main_ops p)"
  unfolding said_def by simp

definition thr_inv :: "prog \<Rightarrow> thr \<Rightarrow> bool" where
  "thr_inv p s \<longleftrightarrow>
     out s \<in> shuffles (mout s) (cout s) \<and> cout s @ cleft s = child_lines p \<and> mdone s @ mleft s = main_ops p \<and>
     (child_over s \<longrightarrow> cancelled s \<or> cleft s = []) \<and> (\<forall>v. joined s = Some v \<longrightarrow> child_over s \<and> v = result p) \<and>
     (cancelled s \<longrightarrow> (\<exists>c. Cancel c \<in> set (mdone s))) \<and> (detached s \<longrightarrow> born_detached p \<or> (\<exists>c. Detach c \<in> set (mdone s))) \<and>
     (ThreadExit \<in> set (mdone s) \<longleftrightarrow> main_over s) \<and> (\<forall>v. joined s = Some v \<longrightarrow> (\<exists>c. Join c \<in> set (mdone s))) \<and>
     (process_over s \<longleftrightarrow> Return \<in> set (mdone s) \<or> wild s) \<and> ThreadExit \<notin> set (butlast (mdone s)) \<and>
     (wild s \<longrightarrow> detached s \<and> child_over s \<and> (\<exists>c. Join c \<in> set (mleft s)) \<or> joined s = None \<and> SayJoined \<in> set (mdone s)) \<and> said p s"

lemma thr_inv_init: "thr_inv p (thr_init p)"
  by (simp add: thr_inv_def thr_init_def said_def)
lemma thr_inv_move:
  assumes i: "thr_inv p s" and m: "mleft s = a # as" "\<not> main_over s" "\<not> process_over s" "a \<notin> {ThreadExit, Return}"
    and say: "\<And>rs. saying (joined s \<noteq> None) (result p) (R @ rs) (a # as) = E @ saying (J \<noteq> None) (result p) rs as"
    and E: "length E \<le> 1"
    and J: "\<And>v. J = Some v \<Longrightarrow> child_over s \<and> v = result p \<and> (joined s = Some v \<or> (\<exists>c. a = Join c))"
    and C: "C \<longrightarrow> cancelled s \<or> (\<exists>c. a = Cancel c)" "cancelled s \<longrightarrow> C" and D: "D \<longrightarrow> detached s \<or> (\<exists>c. a = Detach c)"
    and t: "t = s\<lparr>mleft := as, mdone := mdone s @ [a], detached := D, cancelled := C, joined := J, results := results s @ R,
           mout := mout s @ E, out := out s @ E\<rparr>"
  shows "thr_inv p t"
proof -
  note i' = i [unfolded thr_inv_def]
  have w: "\<not> wild s" using i' m by blast
  have o: "out s @ E \<in> shuffles (mout s @ E) (cout s)"
    using i' E by (cases E) (auto simp: shuffles_snoc_left)
  have q: "mout s @ E @ saying (J \<noteq> None) (result p) rs as = saying False (result p) (results s @ R @ rs) (main_ops p)" for rs
  proof -
    have "mout s @ saying (joined s \<noteq> None) (result p) (R @ rs) (mleft s) = saying False (result p) (results s @ R @ rs) (main_ops p)"
      using i' w m(2,3) unfolding said_def by simp
    then show ?thesis using say [of rs] m(1) by simp
  qed
  then have "said p (s\<lparr>mleft := as, mdone := mdone s @ [a], detached := D, cancelled := C, joined := J, results := results s @ R,
      mout := mout s @ E, out := out s @ E\<rparr>)"
    using m by (simp add: said_def)
  moreover have x: "ThreadExit \<notin> set (mdone s)" "Return \<notin> set (mdone s)" using i' m by blast+
  moreover have "butlast (mdone s @ [a]) = mdone s" by simp
  ultimately show ?thesis unfolding thr_inv_def t using i' m w o J C D by auto
qed

lemma thr_inv_main:
  assumes i: "thr_inv p s" and st: "main_thread p r s = Some t" and p: "\<not> process_over s"
  shows "thr_inv p t"
proof -
  from st obtain a as where m: "\<not> main_over s" "mleft s = a # as"
    by (auto simp: main_thread_def split: if_splits list.splits)
  note i' = i [unfolded thr_inv_def] and go = thr_inv_move [OF i m(2,1) p]
  note defs = main_thread_def call_done_def say_main_def Let_def
  show ?thesis
  proof (cases a)
    case (Say e)
    show ?thesis
      by (rule go [where R = "[]" and E = "[e]" and J = "joined s" and C = "cancelled s" and D = "detached s"])
        (use m st i' Say in \<open>auto simp: defs split: if_splits\<close>)
  next
    case SayJoined
    show ?thesis
    proof (cases "joined s")
      case None
      with m st SayJoined have "t = s\<lparr>mleft := as, mdone := mdone s @ [SayJoined], wild := True, process_over := True\<rparr>"
        by (simp add: defs)
      moreover have "mout s = saying False (result p) (results s) (main_ops p)"
        using said_now [of p s] SayJoined None m p i' by simp
      then have "said p t" using calculation by (simp add: said_def)
      ultimately show ?thesis unfolding thr_inv_def using SayJoined None m p i' by simp
    next
      case (Some v)
      show ?thesis
        by (rule go [where R = "[]" and E = "[joined_line v]" and J = "joined s" and C = "cancelled s" and D = "detached s"])
          (use m st i' SayJoined Some in \<open>auto simp: defs split: if_splits\<close>)
    qed
  next
    case Nap
    show ?thesis
      by (rule go [where R = "[]" and E = "[]" and J = "joined s" and C = "cancelled s" and D = "detached s"])
        (use m st i' Nap in \<open>auto simp: defs split: if_splits\<close>)
  next
    case (Join c)
    show ?thesis
    proof (cases r)
      case None
      show ?thesis
        by (rule go [where R = "[None]" and E = "[]" and J = "Some (result p)" and C = "cancelled s" and D = "detached s"])
          (use m st i' Join None in \<open>auto simp: defs split: if_splits\<close>)
    next
      case (Some e)
      show ?thesis
        by (rule go [where R = "[Some e]" and E = "[Out (c @ e @ NL)]" and J = "joined s" and C = "cancelled s" and D = "detached s"])
          (use m st i' Join Some in \<open>auto simp: defs split: if_splits\<close>)
    qed
  next
    case (Detach c)
    show ?thesis
    proof (cases r)
      case None
      show ?thesis
        by (rule go [where R = "[None]" and E = "[]" and J = "joined s" and C = "cancelled s" and D = "True"])
          (use m st i' Detach None in \<open>auto simp: defs split: if_splits\<close>)
    next
      case (Some e)
      show ?thesis
        by (rule go [where R = "[Some e]" and E = "[Out (c @ e @ NL)]" and J = "joined s" and C = "cancelled s" and D = "detached s"])
          (use m st i' Detach Some in \<open>auto simp: defs split: if_splits\<close>)
    qed
  next
    case (Cancel c)
    show ?thesis
    proof (cases r)
      case None
      show ?thesis
        by (rule go [where R = "[None]" and E = "[]" and J = "joined s" and C = "True" and D = "detached s"])
          (use m st i' Cancel None in \<open>auto simp: defs split: if_splits\<close>)
    next
      case (Some e)
      show ?thesis
        by (rule go [where R = "[Some e]" and E = "[Out (c @ e @ NL)]" and J = "joined s" and C = "cancelled s" and D = "detached s"])
          (use m st i' Cancel Some in \<open>auto simp: defs split: if_splits\<close>)
    qed
  next
    case ThreadExit
    with m st have "t = s\<lparr>mleft := as, mdone := mdone s @ [ThreadExit], main_over := True\<rparr>" by (simp add: defs)
    moreover have "\<forall>rs. mout s = saying False (result p) (results s @ rs) (main_ops p)"
      by (rule said_last) (use ThreadExit m p i' in auto)
    then have "said p t" using calculation by (simp add: said_def)
    ultimately show ?thesis unfolding thr_inv_def using ThreadExit m p i' by auto
  next
    case Return
    with m st have "t = s\<lparr>mleft := as, mdone := mdone s @ [Return], process_over := True\<rparr>" by (simp add: defs)
    moreover have "\<forall>rs. mout s = saying False (result p) (results s @ rs) (main_ops p)"
      by (rule said_last) (use Return m p i' in auto)
    then have "said p t" using calculation by (simp add: said_def)
    ultimately show ?thesis unfolding thr_inv_def using Return m p i' by auto
  qed
qed

lemma thr_inv_misuse:
  assumes i: "thr_inv p s" and st: "main_misuse s = Some t" and p: "\<not> process_over s"
  shows "thr_inv p t"
proof -
  from st obtain c as where m: "\<not> main_over s" "mleft s = Join c # as" "detached s" "child_over s"
    and t: "t = s\<lparr>wild := True, process_over := True\<rparr>"
    by (auto simp: main_misuse_def split: if_splits list.splits mop.splits)
  moreover have "mout s = saying False (result p) (results s) (main_ops p)"
    using said_now [of p s] i p m by (simp add: thr_inv_def)
  then have "said p t" using t by (simp add: said_def)
  ultimately show ?thesis using i p m unfolding thr_inv_def by auto
qed

lemma thr_inv_over:
  "thr_inv p s \<Longrightarrow> cancelled s \<or> cleft s = [] \<Longrightarrow> thr_inv p (s\<lparr>child_over := True\<rparr>)"
  by (auto simp: thr_inv_def)

lemma thr_inv_child:
  assumes i: "thr_inv p s" and st: "child_thread s = Some t"
  shows "thr_inv p t"
proof (cases "cleft s")
  case Nil
  with st have "t = s\<lparr>child_over := True\<rparr>" by (simp add: child_thread_def split: if_splits)
  with i Nil show ?thesis by (simp add: thr_inv_over)
next
  case (Cons e es)
  with st have o: "\<not> child_over s" and t: "t = s\<lparr>cleft := es, cout := cout s @ [e], out := out s @ [e]\<rparr>"
    by (simp_all add: child_thread_def split: if_splits)
  have "out s @ [e] \<in> shuffles (mout s) (cout s @ [e])"
    using i by (simp add: thr_inv_def shuffles_snoc_right)
  with i o t Cons show ?thesis unfolding thr_inv_def by auto
qed

lemma thr_inv_step: "thr_inv p s \<Longrightarrow> thr_step p s l = Some t \<Longrightarrow> thr_inv p t"
proof (cases l)
  case (MainTurn r)
  assume "thr_inv p s" "thr_step p s l = Some t"
  with MainTurn thr_inv_main show ?thesis by (simp add: thr_step_def split: if_splits)
next
  case MainMisuse
  assume "thr_inv p s" "thr_step p s l = Some t"
  with MainMisuse thr_inv_misuse show ?thesis by (simp add: thr_step_def split: if_splits)
next
  case ChildTurn
  assume "thr_inv p s" "thr_step p s l = Some t"
  with ChildTurn thr_inv_child show ?thesis by (simp add: thr_step_def split: if_splits)
next
  case ChildCancelled
  assume i: "thr_inv p s" and "thr_step p s l = Some t"
  with ChildCancelled have "cancelled s" "t = s\<lparr>child_over := True\<rparr>" by (simp_all add: thr_step_def split: if_splits)
  with i show ?thesis by (simp add: thr_inv_over)
qed

definition thr_fuel :: "thr \<Rightarrow> nat" where
  "thr_fuel s = length (mleft s) + length (cleft s) + (if child_over s then 0 else 1) + (if process_over s then 0 else 1)"

lemma thr_fuel_step: "thr_step p s l = Some t \<Longrightarrow> thr_fuel t < thr_fuel s"
  by (auto simp: thr_step_def main_thread_def main_misuse_def child_thread_def call_done_def thr_fuel_def say_main_def Let_def
      split: if_splits list.splits thr_label.splits mop.splits option.splits)

definition thr_prog :: "prog \<Rightarrow> bool" where
  "thr_prog p \<longleftrightarrow> p = create_prog \<or> (\<exists>tid self stsize.
     p \<in> {attr_prog tid self stsize, cancel_prog tid self, detach_prog tid self, exit_prog tid self, join_prog tid self})"

lemma thr_prog_cases [consumes 1, case_names attr cancel create detach exit join]:
  assumes "thr_prog p"
  obtains tid self stsize where "p = attr_prog tid self stsize" | tid self where "p = cancel_prog tid self"
    | "p = create_prog" | tid self where "p = detach_prog tid self" | tid self where "p = exit_prog tid self"
    | tid self where "p = join_prog tid self"
  using assms by (auto simp: thr_prog_def)

lemmas progs = attr_prog_def cancel_prog_def create_prog_def detach_prog_def exit_prog_def join_prog_def

lemma saying_say: "saying j v rs (map Say es @ as) = es @ saying j v rs as"
  by (induction es) auto

interpretation thr: bounded_system "thr_step p" "thr_init p" "\<lambda>s. thr_prog p \<longrightarrow> thr_inv p s" thr_fuel
proof
  show "thr_prog p \<longrightarrow> thr_inv p (thr_init p)" by (simp add: thr_inv_init)
next
  fix s l t
  assume "thr_prog p \<longrightarrow> thr_inv p s" "thr_step p s l = Some t"
  then show "thr_prog p \<longrightarrow> thr_inv p t" using thr_inv_step by blast
next
  fix s l t
  assume "thr_step p s l = Some t"
  then show "thr_fuel t < thr_fuel s" by (rule thr_fuel_step)
qed

lemma thr_prog_ends: "thr_prog p \<Longrightarrow> ThreadExit \<in> set (main_ops p) \<or> Return \<in> set (main_ops p)"
  by (auto simp: thr_prog_def progs)

text \<open>Only \<^verbatim>\<open>pthread_create.c\<close> gets as far as its \<open>return\<close>.\<close>

lemma thr_prog_exits:
  assumes "thr_prog p" "ThreadExit \<in> set (main_ops p)"
  shows "\<exists>pre post. main_ops p = pre @ ThreadExit # post \<and> Return \<notin> set pre"
  using assms(1)
proof (cases rule: thr_prog_cases)
  case (exit tid self)
  then show ?thesis
    by (intro exI [of _ "map Say (count_lines [] 50) @ [Say (both_numbers tid self)]"] exI [of _ "[Say main_thread_exit, Return]"])
       (auto simp: exit_prog_def)
next
  case (join tid self)
  then show ?thesis
    by (intro exI [of _ "map Say (count_lines [] 50) @ [Say (both_numbers tid self), Join ''err:'', Say reclaimed_line, SayJoined]"]
        exI [of _ "[Say main_thread_exit, Return]"]) (auto simp: join_prog_def)
next
  case (attr tid self stsize)
  then show ?thesis
    by (intro exI [of _ "[Say (stack_line stsize), Say (both_ids tid self)]"] exI [of _ "[]"]) (auto simp: attr_prog_def)
next
  case (cancel tid self)
  then show ?thesis
    by (intro exI [of _ "Say (both_ids tid self) # Cancel ''cancel: '' # map Say (count_lines ''father: '' 5)"] exI [of _ "[]"])
       (auto simp: cancel_prog_def)
next
  case (detach tid self)
  then show ?thesis
    by (intro exI [of _ "[Say (both_ids tid self), Detach ''detach: '', Join ''join: '']"] exI [of _ "[]"]) (auto simp: detach_prog_def)
next
  case create
  with assms(2) show ?thesis by (auto simp: create_prog_def)
qed

lemma thr_not_returned:
  assumes p: "thr_prog p" "ThreadExit \<in> set (main_ops p)" and i: "thr_inv p s" "\<not> wild s"
  shows "\<not> process_over s"
proof
  assume "process_over s"
  with i have r: "Return \<in> set (mdone s)" by (simp add: thr_inv_def)
  obtain pre post where e: "main_ops p = pre @ ThreadExit # post" "Return \<notin> set pre"
    using thr_prog_exits [OF p] by blast
  with i have m: "mdone s @ mleft s = pre @ ThreadExit # post" "ThreadExit \<notin> set (butlast (mdone s))"
    by (simp_all add: thr_inv_def)
  from m(1) obtain us where "mdone s @ us = pre \<or> mdone s = pre @ us \<and> us @ mleft s = ThreadExit # post"
    by (auto simp: append_eq_append_conv2)
  then show False
  proof (elim disjE conjE)
    assume "mdone s @ us = pre"
    with r e(2) show False by auto
  next
    assume u: "mdone s = pre @ us" "us @ mleft s = ThreadExit # post"
    with m(2) have "us = [] \<or> us = [ThreadExit]" by (cases us) (auto simp: butlast_append split: if_splits)
    with u r e(2) show False by auto
  qed
qed


text \<open>A state without a next step: the process is over, or both threads are.\<close>

lemma thr_stuck:
  assumes p: "thr_prog p" and i: "thr_inv p s" and s: "stuck (thr_step p) s"
  shows "process_over s \<or> main_over s \<and> child_over s"
proof (rule ccontr)
  assume n: "\<not> (process_over s \<or> main_over s \<and> child_over s)"
  then have none: "main_thread p (Some m) s = None" "child_thread s = None" for m
    using s by (auto simp: stuck_def thr_step_def split: if_splits dest: spec [of _ "MainTurn (Some m)"] spec [of _ ChildTurn])
  from none(2) have c: "child_over s" by (auto simp: child_thread_def split: if_splits list.splits)
  with n have m: "\<not> main_over s" "\<not> process_over s" by simp_all
  show False
  proof (cases "mleft s")
    case Nil
    with i m thr_prog_ends [OF p] show False unfolding thr_inv_def by (metis append_Nil2)
  next
    case (Cons a as)
    with none(1) m c show False
      by (cases a) (auto simp: main_thread_def Let_def split: option.splits if_splits)
  qed
qed

text \<open>The undefined steps: a join of the detached thread after its end, and the use of the pointer that no join has set.\<close>

lemma thr_wild:
  assumes p: "thr_prog p" and i: "thr_inv p s" and w: "wild s"
  shows "(\<exists>tid self. p = detach_prog tid self) \<and> detached s \<and> child_over s \<or>
    (\<exists>tid self. p = join_prog tid self) \<and> joined s = None"
proof -
  have o: "set (main_ops p) = set (mdone s) \<union> set (mleft s)" using i unfolding thr_inv_def by (metis set_append)
  have d: "detached s \<longrightarrow> born_detached p \<or> (\<exists>c. Detach c \<in> set (main_ops p))"
    and w': "detached s \<and> child_over s \<and> (\<exists>c. Join c \<in> set (main_ops p)) \<or> joined s = None \<and> SayJoined \<in> set (main_ops p)"
    using i w unfolding thr_inv_def o by blast+
  from p show ?thesis by (cases rule: thr_prog_cases) (use w' d in \<open>auto simp: progs\<close>)
qed

lemma say_number: "Out (show_int (int k) @ NL) \<noteq> main_thread_exit"
proof
  assume "Out (show_int (int k) @ NL) = main_thread_exit"
  then have "CHR ''m'' \<in> set (show_nat k)" by (simp add: main_thread_exit_def NL_def show_int_def)
  then show False using show_nat_digits by (fastforce simp: is_digit_def)
qed

lemma saying_lines:
  "e \<in> set (saying j v rs as) \<Longrightarrow> Say e \<in> set (takeWhile (\<lambda>a. a \<noteq> ThreadExit) as) \<or> e = joined_line v \<or>
    (\<exists>c m. e = Out (c @ m @ NL) \<and> (Join c \<in> set as \<or> Detach c \<in> set as \<or> Cancel c \<in> set as))"
  by (induction j v rs as rule: saying.induct) (auto split: if_splits)

lemma exit_line_unsaid:
  assumes "thr_prog p"
  shows "main_thread_exit \<notin> set (saying j v rs (main_ops p)) \<union> set (child_lines p)"
proof -
  have n: "main_thread_exit \<notin> set (count_lines [] k)" for k
    using say_number [symmetric] by (auto simp: count_lines_def)
  have f: "main_thread_exit \<notin> set (count_lines ''father: '' k)" "main_thread_exit \<notin> set (count_lines ''child: '' k)" for k
    by (auto simp: count_lines_def main_thread_exit_def)
  have "main_thread_exit \<noteq> both_ids i j" "main_thread_exit \<noteq> both_numbers i j" "main_thread_exit \<noteq> child_id i"
    "main_thread_exit \<noteq> child_number i" "main_thread_exit \<noteq> joined_line i"
    "main_thread_exit \<noteq> stack_line i" "main_thread_exit \<noteq> reclaimed_line"
    "main_thread_exit \<noteq> Out (''Child thread.. value = 10'' @ NL)" for i j
    by (simp_all add: main_thread_exit_def both_ids_def both_numbers_def child_id_def child_number_def joined_line_def
      stack_line_def reclaimed_line_def NL_def)
  moreover have "main_thread_exit \<noteq> Out (''cancel: '' @ e @ NL)" "main_thread_exit \<noteq> Out (''detach: '' @ e @ NL)"
    "main_thread_exit \<noteq> Out (''join: '' @ e @ NL)" "main_thread_exit \<noteq> Out (''err:'' @ e @ NL)" for e
    by (simp_all add: main_thread_exit_def)
  moreover have "Say main_thread_exit \<notin> Say ` set xs" if "main_thread_exit \<notin> set xs" for xs using that by auto
  ultimately show ?thesis using n f saying_lines [of main_thread_exit j v rs "main_ops p"]
    by (cases rule: thr_prog_cases [OF assms]) (auto simp: progs takeWhile_append)
qed

text \<open>A thread that is not cancelled has printed all its lines when it is over.\<close>

lemma thr_all_printed:
  assumes "thr_inv p s" "child_over s" "\<forall>c. Cancel c \<notin> set (main_ops p)"
  shows "cout s = child_lines p"
proof -
  from assms(1) have "set (mdone s) \<subseteq> set (main_ops p)" unfolding thr_inv_def by (metis Un_upper1 set_append)
  with assms have "cleft s = []" unfolding thr_inv_def by blast
  with assms(1) show ?thesis unfolding thr_inv_def by simp
qed

lemma thr_joined:
  assumes p: "thr_prog p" and i: "thr_inv p s" and j: "joined s = Some v"
  shows "v = result p \<and> cout s = child_lines p"
proof -
  from i j have v: "v = result p" "child_over s" "\<exists>c. Join c \<in> set (mdone s)" by (auto simp: thr_inv_def)
  from i have "set (mdone s) \<subseteq> set (main_ops p)" unfolding thr_inv_def by (metis Un_upper1 set_append)
  with v(3) obtain c where "Join c \<in> set (main_ops p)" by blast
  with p have "\<forall>c. Cancel c \<notin> set (main_ops p)" by (cases rule: thr_prog_cases) (auto simp: progs)
  with v thr_all_printed [OF i] show ?thesis by blast
qed



section \<open>Without the thread\<close>

fun names_thread :: "mop \<Rightarrow> bool" where
  "names_thread (Cancel c) = True"
| "names_thread (Detach c) = True"
| "names_thread (Join c) = True"
| "names_thread _ = False"

lemma alone_say: "alone (map Say es @ as) = bindc (es, Done ()) (\<lambda>_. alone as)"
proof (induction es)
  case Nil
  show ?case by (cases "alone as") (simp add: effect_simps)
next
  case (Cons e es)
  then show ?case by (cases "alone as") (simp add: effect_simps)
qed

text \<open>
  When \<open>pthread_create\<close> fails, the programs that only print and end do so; those that cancel, detach or join the
  thread use a number never set.
\<close>

lemma threads_without:
  assumes "thr_prog p" "r \<noteq> 0" "thr_main p r m = Inl c"
  shows "outcome c = (if \<exists>a\<in>set (main_ops p). names_thread a then Undef else Exit 0) \<and>
    hd (events c) = Out (complaint p @ m @ NL)"
proof -
  from assms have c: "c = thenc (emit (Out (complaint p @ m @ NL))) (alone (main_ops p))"
    by (simp add: thr_main_def)
  have "outcome (alone (main_ops p)) = (if \<exists>a\<in>set (main_ops p). names_thread a then Undef else Exit 0)"
    using assms(1) by (cases rule: thr_prog_cases) (auto simp: progs alone_say effect_simps)
  with c show ?thesis by (simp add: effect_simps)
qed

end
