(* ===== verification/Signals.thy ===== *)
theory Signals
  imports Echo "HOL-Library.Word"
begin

unbundle bit_operations_syntax

text \<open>
  Signals: sets of signals and the blocked and pending sets of a process (\<^verbatim>\<open>sigset.c\<close>, \<^verbatim>\<open>sigprocmask.c\<close>),
  timers with and without a handler (\<^verbatim>\<open>setitimer.c\<close>, \<^verbatim>\<open>sighanlder.c\<close>, \<^verbatim>\<open>sigaction.c\<close>), alarms
  (\<^verbatim>\<open>alarm.c\<close>, \<^verbatim>\<open>alarm1.c\<close>), \<^verbatim>\<open>kill.c\<close> and \<^verbatim>\<open>core.c\<close>.  Time is counted in seconds.
\<close>

section \<open>Sets of signals\<close>

text \<open>Signal \<open>n\<close> is bit \<open>n - 1\<close>.\<close>

type_synonym sigset = "64 word"

definition SIGINT :: nat where "SIGINT = 2"
definition SIGQUIT :: nat where "SIGQUIT = 3"
definition SIGALRM :: nat where "SIGALRM = 14"

definition sigemptyset :: sigset where
  "sigemptyset = 0"

definition sigaddset :: "nat \<Rightarrow> sigset \<Rightarrow> sigset" where
  "sigaddset n m = set_bit (n - 1) m"

definition sigdelset :: "nat \<Rightarrow> sigset \<Rightarrow> sigset" where
  "sigdelset n m = unset_bit (n - 1) m"

definition sigismember :: "sigset \<Rightarrow> nat \<Rightarrow> bool" where
  "sigismember m n = bit m (n - 1)"

lemma sigismember_empty [simp]: "\<not> sigismember sigemptyset n"
  by (simp add: sigismember_def sigemptyset_def)

lemma sigismember_add [simp]:
  "1 \<le> n \<Longrightarrow> n \<le> 64 \<Longrightarrow> 1 \<le> k \<Longrightarrow> sigismember (sigaddset n m) k \<longleftrightarrow> k = n \<or> sigismember m k"
  by (auto simp: sigismember_def sigaddset_def bit_set_bit_iff)

lemma sigismember_del [simp]:
  "1 \<le> n \<Longrightarrow> 1 \<le> k \<Longrightarrow> sigismember (sigdelset n m) k \<longleftrightarrow> k \<noteq> n \<and> sigismember m k"
  by (auto simp: sigismember_def sigdelset_def bit_unset_bit_iff)

definition tell :: "sigset \<Rightarrow> event" where
  "tell m = (if sigismember m SIGINT then Out (''SIGINT blocked'' @ NL) else Out (''SIGINT not blocked'' @ NL))"

definition sigset_main :: "unit comp" where
  "sigset_main =
     (let m = sigemptyset;
          m1 = sigaddset SIGQUIT (sigaddset SIGINT m);
          m2 = sigdelset SIGINT m1
      in ([tell m, tell m1, tell m2], Done ()))"

lemma sigset_tells:
  "sigset_main =
     ([Out (''SIGINT not blocked'' @ NL), Out (''SIGINT blocked'' @ NL), Out (''SIGINT not blocked'' @ NL)], Done ())"
  by (simp add: sigset_main_def tell_def SIGINT_def SIGQUIT_def)

section \<open>Blocked and pending signals\<close>

text \<open>\<^verbatim>\<open>sigprocmask\<close> with \<^verbatim>\<open>SIG_BLOCK\<close> and with \<^verbatim>\<open>SIG_UNBLOCK\<close>: the new blocked set.\<close>

definition SIG_BLOCK :: "sigset \<Rightarrow> sigset \<Rightarrow> sigset" where
  "SIG_BLOCK sset blocked = blocked OR sset"

definition SIG_UNBLOCK :: "sigset \<Rightarrow> sigset \<Rightarrow> sigset" where
  "SIG_UNBLOCK sset blocked = blocked AND NOT sset"

lemma sigismember_block [simp]:
  "sigismember (SIG_BLOCK a m) n \<longleftrightarrow> sigismember a n \<or> sigismember m n"
  by (auto simp: sigismember_def SIG_BLOCK_def bit_or_iff)

lemma sigismember_unblock [simp]:
  "sigismember (SIG_UNBLOCK a m) n \<longleftrightarrow> sigismember m n \<and> \<not> sigismember a n"
  by (cases "n - 1 < 64") (auto simp: sigismember_def SIG_UNBLOCK_def bit_and_iff bit_not_iff bit_imp_le_length
      dest: bit_imp_le_length)

text \<open>
  \<open>blocked\<close> and \<open>pending\<close> are the kernel's sets for the process, \<open>num\<close> and the rows printed are the
  program's; \<open>asleep\<close>: it has printed a row and is in \<open>sleep(1)\<close>.
\<close>

record sigproc =
  blocked :: sigset
  pending :: sigset
  num :: nat
  asleep :: bool
  rows :: "string list"
  killed :: "nat option"

text \<open>The signals whose default action does not end the process.\<close>

definition harmless :: "nat \<Rightarrow> bool" where
  "harmless n \<longleftrightarrow> n \<in> {17, 18, 19, 20, 21, 22, 23, 28}"

definition block_set :: sigset where
  "block_set = sigaddset SIGINT (sigaddset SIGQUIT sigemptyset)"

definition sp_init :: sigproc where
  "sp_init = \<lparr>blocked = SIG_BLOCK block_set sigemptyset, pending = sigemptyset, num = 0, asleep = False,
              rows = [], killed = None\<rparr>"

definition row :: "sigset \<Rightarrow> string" where
  "row m = map (\<lambda>i. if sigismember m i then CHR ''1'' else CHR ''0'') [1..<32]"

text \<open>A signal arrives: it stays pending when it is blocked, else its default action follows.\<close>

definition arrive :: "nat \<Rightarrow> sigproc \<Rightarrow> sigproc" where
  "arrive n s =
     (if sigismember (blocked s) n then s\<lparr>pending := sigaddset n (pending s)\<rparr>
      else if harmless n then s else s\<lparr>killed := Some n\<rparr>)"

text \<open>
  Pending signals that are no longer blocked are delivered, the lowest first (only SIGINT and SIGQUIT
  are ever blocked, and both end the process).
\<close>

definition deliver :: "sigproc \<Rightarrow> sigproc" where
  "deliver s =
     (case List.find (\<lambda>n. sigismember (pending s) n \<and> \<not> sigismember (blocked s) n) [1..<32] of
        None \<Rightarrow> s | Some n \<Rightarrow> s\<lparr>killed := Some n\<rparr>)"

definition sp_print :: "sigproc \<Rightarrow> sigproc" where
  "sp_print s = s\<lparr>rows := rows s @ [row (pending s)], asleep := True\<rparr>"

definition sp_wake :: "sigproc \<Rightarrow> sigproc" where
  "sp_wake s =
     (let s = s\<lparr>num := num s + 1, asleep := False\<rparr> in
      if num s = 10 then deliver (s\<lparr>blocked := SIG_UNBLOCK block_set (blocked s)\<rparr>) else s)"

datatype sp_label = Arrive nat | Print | Wake

definition sp_step :: "sigproc \<Rightarrow> sp_label \<Rightarrow> sigproc option" where
  "sp_step s l =
     (if killed s \<noteq> None then None
      else case l of
        Arrive n \<Rightarrow> (if 1 \<le> n \<and> n \<le> 31 then Some (arrive n s) else None)
      | Print \<Rightarrow> (if asleep s then None else Some (sp_print s))
      | Wake \<Rightarrow> (if asleep s then Some (sp_wake s) else None))"

definition sp_mem :: "sigset \<Rightarrow> nat set" where
  "sp_mem m = {n. 1 \<le> n \<and> n \<le> 31 \<and> sigismember m n}"

lemma sp_mem_simps [simp]:
  "sp_mem sigemptyset = {}"
  "1 \<le> n \<Longrightarrow> n \<le> 31 \<Longrightarrow> sp_mem (sigaddset n m) = insert n (sp_mem m)"
  "sp_mem (SIG_BLOCK a m) = sp_mem a \<union> sp_mem m"
  "sp_mem (SIG_UNBLOCK a m) = sp_mem m - sp_mem a"
  by (auto simp: sp_mem_def)

lemma sp_mem_block_set [simp]: "sp_mem block_set = {2, 3}"
  by (simp add: block_set_def SIGINT_def SIGQUIT_def)

lemma sp_mem_iff: "1 \<le> n \<Longrightarrow> n \<le> 31 \<Longrightarrow> sigismember m n \<longleftrightarrow> n \<in> sp_mem m"
  by (simp add: sp_mem_def)

definition arrived :: "sp_label list \<Rightarrow> nat set" where
  "arrived ls = {n. Arrive n \<in> set ls}"

text \<open>What holds after a schedule: the state of the blocked and pending sets, and the cause of death.\<close>

definition sp_inv :: "sp_label list \<Rightarrow> sigproc \<Rightarrow> bool" where
  "sp_inv ls s \<longleftrightarrow>
     num s = length (filter ((=) Wake) ls) \<and>
     (case killed s of
        None \<Rightarrow> sp_mem (blocked s) = (if num s < 10 then {2, 3} else {}) \<and>
                sp_mem (pending s) = arrived ls \<inter> {2, 3} \<and>
                (\<forall>n \<in> arrived ls. harmless n \<or> n \<in> {2, 3} \<and> num s < 10)
      | Some n \<Rightarrow> n \<in> arrived ls \<and> \<not> harmless n \<and> (n \<in> {2, 3} \<longrightarrow> 10 \<le> num s))"

lemma arrived_simps [simp]:
  "arrived [] = {}"
  "arrived (ls @ [Arrive n]) = insert n (arrived ls)"
  "arrived (ls @ [Print]) = arrived ls"
  "arrived (ls @ [Wake]) = arrived ls"
  by (auto simp: arrived_def)

lemma deliver_none: "sp_mem (pending s) = {} \<Longrightarrow> deliver s = s"
proof -
  assume "sp_mem (pending s) = {}"
  then have "List.find (\<lambda>n. sigismember (pending s) n \<and> \<not> sigismember (blocked s) n) [1..<32] = None"
    by (auto simp: find_None_iff sp_mem_def)
  then show ?thesis by (simp add: deliver_def)
qed

lemma deliver_some:
  assumes "sp_mem (pending s) \<noteq> {}" "sp_mem (blocked s) = {}"
  obtains n where "n \<in> sp_mem (pending s)" "deliver s = s\<lparr>killed := Some n\<rparr>"
proof (cases "List.find (\<lambda>n. sigismember (pending s) n \<and> \<not> sigismember (blocked s) n) [1..<32]")
  case None
  with assms have False by (auto simp: find_None_iff sp_mem_def)
  then show ?thesis ..
next
  case (Some n)
  then have "n \<in> set [1..<32]" "sigismember (pending s) n"
    using nth_mem by (fastforce simp del: upt_rec_numeral simp: find_Some_iff)+
  then have "n \<in> sp_mem (pending s)" by (simp add: sp_mem_def)
  with Some show ?thesis by (intro that) (simp_all add: deliver_def)
qed

lemma sp_inv_step: "sp_inv ls s \<Longrightarrow> sp_step s l = Some t \<Longrightarrow> sp_inv (ls @ [l]) t"
proof (cases l)
  case (Arrive n)
  assume "sp_inv ls s" "sp_step s l = Some t"
  with Arrive show ?thesis
    by (auto simp: sp_inv_def sp_step_def arrive_def sp_mem_iff harmless_def [of 2] harmless_def [of 3]
        split: if_splits option.splits)
next
  case Print
  assume "sp_inv ls s" "sp_step s l = Some t"
  with Print show ?thesis
    by (auto simp: sp_inv_def sp_step_def sp_print_def split: if_splits option.splits)
next
  case Wake
  assume i: "sp_inv ls s" and st: "sp_step s l = Some t"
  define u where "u = s\<lparr>num := num s + 1, asleep := False\<rparr>"
  from st Wake have k: "killed s = None" and t: "t = sp_wake s"
    by (auto simp: sp_step_def split: if_splits)
  show ?thesis
  proof (cases "num u = 10")
    case False
    with t have "t = u" by (simp add: sp_wake_def u_def Let_def)
    with i k Wake False show ?thesis by (auto simp: sp_inv_def u_def)
  next
    case True
    define v where "v = u\<lparr>blocked := SIG_UNBLOCK block_set (blocked u)\<rparr>"
    from True t have tv: "t = deliver v" by (simp add: sp_wake_def u_def v_def Let_def)
    from i k True have b: "sp_mem (blocked v) = {}" "num v = length (filter ((=) Wake) (ls @ [Wake]))" "killed v = None"
      "num v = 10"
      and p: "sp_mem (pending v) = arrived ls \<inter> {2, 3}" and h: "\<forall>n \<in> arrived ls. harmless n \<or> n \<in> {2, 3}"
      by (auto simp: sp_inv_def u_def v_def)
    show ?thesis
    proof (cases "sp_mem (pending v) = {}")
      case True
      with tv have "t = v" by (simp add: deliver_none)
      with True b p h Wake show ?thesis by (auto simp: sp_inv_def)
    next
      case False
      from deliver_some [OF False b(1)] obtain n where
        "n \<in> sp_mem (pending v)" "deliver v = v\<lparr>killed := Some n\<rparr>" .
      with tv b p Wake show ?thesis by (auto simp: sp_inv_def harmless_def)
    qed
  qed
qed

lemma sp_inv_run: "run sp_step sp_init ls = Some s \<Longrightarrow> sp_inv ls s"
proof (induction ls arbitrary: s rule: rev_induct)
  case Nil
  then have "s = sp_init" by simp
  then show ?case by (simp add: sp_inv_def sp_init_def)
next
  case (snoc l ls)
  then obtain u where "run sp_step sp_init ls = Some u" "sp_step u l = Some s"
    by (auto simp: run_append bind_eq_Some_conv split: option.splits)
  with snoc.IH show ?case by (blast intro: sp_inv_step)
qed

text \<open>
  Claim C31.  While \<^verbatim>\<open>sigprocmask.c\<close> blocks SIGINT and SIGQUIT they only become pending: a row it
  prints has a 1 exactly for those two that have arrived; no other signal is ever shown.  It lives
  exactly as long as every signal that arrived is harmless or one of the two before the tenth
  wake-up; when it dies it is of a signal that arrived, and SIGINT or SIGQUIT can be the cause only
  from the tenth wake-up on, when they are unblocked.
\<close>
theorem blocked_until_tenth:
  assumes "run sp_step sp_init ls = Some s"
  shows "(\<forall>t. sp_step s Print = Some t \<longrightarrow>
            rows t = rows s @ [map (\<lambda>i. if i \<in> {2, 3} \<and> Arrive i \<in> set ls then CHR ''1'' else CHR ''0'') [1..<32]]) \<and>
         (killed s = None \<longrightarrow> (\<forall>n. Arrive n \<in> set ls \<longrightarrow> harmless n \<or> n \<in> {2, 3} \<and> num s < 10)) \<and>
         (\<forall>n. killed s = Some n \<longrightarrow> Arrive n \<in> set ls \<and> \<not> harmless n \<and> (n \<in> {2, 3} \<longrightarrow> 10 \<le> num s)) \<and>
         num s = length (filter ((=) Wake) ls)"
proof (intro conjI allI impI)
  note i = sp_inv_run [OF assms]
  fix t
  assume "sp_step s Print = Some t"
  then have k: "killed s = None" and t: "t = sp_print s"
    by (auto simp: sp_step_def split: if_splits)
  with i have "sp_mem (pending s) = arrived ls \<inter> {2, 3}" by (simp add: sp_inv_def)
  then have "row (pending s) = map (\<lambda>i. if i \<in> {2, 3} \<and> Arrive i \<in> set ls then CHR ''1'' else CHR ''0'') [1..<32]"
    by (auto simp: row_def sp_mem_iff arrived_def simp del: upt_rec_numeral)
  with t show "rows t = rows s @ [map (\<lambda>i. if i \<in> {2, 3} \<and> Arrive i \<in> set ls then CHR ''1'' else CHR ''0'') [1..<32]]"
    by (simp add: sp_print_def)
qed (use sp_inv_run [OF assms] in \<open>auto simp: sp_inv_def arrived_def\<close>)

lemma blocked_until_tenth_witness:
  "\<exists>s. run sp_step sp_init [Arrive 2, Arrive 17, Print, Arrive 3, Wake] = Some s \<and>
     killed s = None \<and> num s = 1 \<and>
     (\<exists>t. sp_step s Print = Some t \<and> last (rows t) = ''0110000000000000000000000000000'')"
proof -
  obtain s where s: "run sp_step sp_init [Arrive 2, Arrive 17, Print, Arrive 3, Wake] = Some s" "killed s = None" "asleep s = False"
    by (simp add: sp_step_def sp_init_def arrive_def sp_print_def sp_wake_def harmless_def sp_mem_iff Let_def
        del: upt_rec_numeral)
  then obtain t where t: "sp_step s Print = Some t" by (simp add: sp_step_def)
  have "map (\<lambda>i. if i \<in> {2, 3} \<and> Arrive i \<in> set [Arrive 2, Arrive 17, Print, Arrive 3, Wake] then CHR ''1'' else CHR ''0'')
      [1..<32] = ''0110000000000000000000000000000''" by code_simp
  with blocked_until_tenth [OF s(1)] t have "num s = 1" "last (rows t) = ''0110000000000000000000000000000''"
    by (simp_all del: upt_rec_numeral One_nat_def)
  with s t show ?thesis by blast
qed

section \<open>Timers\<close>

record itimerval =
  it_value :: nat
  it_interval :: nat

text \<open>One second passes: whether the timer fires, and how it goes on.\<close>

definition tick :: "itimerval \<Rightarrow> bool \<times> itimerval" where
  "tick t =
     (if it_value t = 0 then (False, t)
      else if it_value t = 1 then (True, t\<lparr>it_value := it_interval t\<rparr>)
      else (False, t\<lparr>it_value := it_value t - 1\<rparr>))"

definition new_value :: itimerval where
  "new_value = \<lparr>it_value = 3, it_interval = 2\<rparr>"

datatype ending = Running | Ended int | KilledBy nat

definition myalarm :: "nat \<Rightarrow> event list" where
  "myalarm n = [Out (''caught signal: '' @ show_int (int n) @ NL), Out (''xxxxx'' @ NL)]"

text \<open>
  The seconds of a program that waits; the list says in which one a key ends \<open>getchar\<close>.  Without a
  handler SIGALRM ends the process.
\<close>

fun timer_run :: "(nat \<Rightarrow> event list) option \<Rightarrow> itimerval \<Rightarrow> bool list \<Rightarrow> event list \<times> ending" where
  "timer_run h t [] = ([], Running)"
| "timer_run h t (key # ks) =
     (if key then ([], Ended 0)
      else case tick t of
        (False, t) \<Rightarrow> timer_run h t ks
      | (True, t) \<Rightarrow>
          (case h of
             None \<Rightarrow> ([], KilledBy SIGALRM)
           | Some f \<Rightarrow> (case timer_run h t ks of (es, e) \<Rightarrow> (f SIGALRM @ es, e))))"

definition timer_started :: "int \<Rightarrow> (nat \<Rightarrow> event list) option \<Rightarrow> bool list \<Rightarrow> event list \<times> ending" where
  "timer_started r h ks =
     (let es = [Out (''the timer has started'' @ NL)] in
      if r = -1 then (es @ [Perror ''setitimer''], Ended 0)
      else case timer_run h new_value ks of (fs, e) \<Rightarrow> (es @ fs, e))"

definition setitimer_main :: "int \<Rightarrow> bool list \<Rightarrow> event list \<times> ending" where
  "setitimer_main r ks = timer_started r None ks"

definition sighandler_main :: "bool \<Rightarrow> int \<Rightarrow> bool list \<Rightarrow> event list \<times> ending" where
  "sighandler_main sig_err r ks =
     (if sig_err then ([Perror ''signal''], Ended (-1)) else timer_started r (Some myalarm) ks)"

text \<open>\<^verbatim>\<open>sigaction.c\<close> spins instead of waiting for a key; \<open>T\<close> seconds of it.\<close>

definition sigaction_main :: "int \<Rightarrow> nat \<Rightarrow> event list \<times> ending" where
  "sigaction_main r T = timer_started r (Some myalarm) (replicate T False)"

lemma timer_run_secs:
  assumes "0 < it_interval tm" "0 < it_value tm"
  shows "timer_run (Some f) tm (replicate T False) =
           (concat (replicate (if T < it_value tm then 0 else (T - it_value tm) div it_interval tm + 1) (f SIGALRM)),
            Running)"
  using assms
proof (induction T arbitrary: tm)
  case (Suc T)
  show ?case
  proof (cases "it_value tm = 1")
    case True
    with Suc.prems Suc.IH [of "tm\<lparr>it_value := it_interval tm\<rparr>"]
    have "timer_run (Some f) (tm\<lparr>it_value := it_interval tm\<rparr>) (replicate T False) =
            (concat (replicate (T div it_interval tm) (f SIGALRM)), Running)"
      by (auto simp: le_div_geq not_less)
    with True show ?thesis by (simp add: tick_def)
  next
    case False
    with Suc.prems obtain n where n: "it_value tm = Suc (Suc n)"
      by (intro that [of "it_value tm - 2"]) simp
    with Suc.prems Suc.IH [of "tm\<lparr>it_value := Suc n\<rparr>"] show ?thesis
      by (simp add: tick_def)
  qed
qed simp

lemma timer_run_dies:
  assumes "0 < it_value tm"
  shows "timer_run None tm (replicate T False) = ([], if T < it_value tm then Running else KilledBy SIGALRM)"
  using assms
proof (induction T arbitrary: tm)
  case (Suc T)
  show ?case
  proof (cases "it_value tm = 1")
    case False
    with Suc.prems Suc.IH [of "tm\<lparr>it_value := it_value tm - 1\<rparr>"] show ?thesis
      by (auto simp: tick_def)
  qed (simp add: tick_def)
qed simp

text \<open>
  The timer set to three seconds and then every two: in \<open>T\<close> seconds without a key the
  handler of \<^verbatim>\<open>sighanlder.c\<close> and of \<^verbatim>\<open>sigaction.c\<close> runs \<open>(T - 1) div 2\<close> times (at 3, 5, 7, ...), and
  the program goes on; without a handler (\<^verbatim>\<open>setitimer.c\<close>) SIGALRM kills the process at the third
  second, and the interval is never used.
\<close>
theorem timer_fires:
  "sigaction_main 0 T =
     (Out (''the timer has started'' @ NL) # concat (replicate ((T - 1) div 2) (myalarm SIGALRM)), Running) \<and>
   sighandler_main False 0 (replicate T False) = sigaction_main 0 T \<and>
   setitimer_main 0 (replicate T False) =
     ([Out (''the timer has started'' @ NL)], if T < 3 then Running else KilledBy SIGALRM)"
proof -
  have n: "(if T < 3 then 0 else (T - 3) div 2 + 1) = (T - 1) div (2 :: nat)" by auto
  have h: "timer_run (Some myalarm) new_value (replicate T False) =
      (concat (replicate ((T - 1) div 2) (myalarm SIGALRM)), Running)"
    using timer_run_secs [of new_value myalarm T] by (simp only: new_value_def itimerval.simps n)
  have d: "timer_run None new_value (replicate T False) = ([], if T < 3 then Running else KilledBy SIGALRM)"
    using timer_run_dies [of new_value T] by (simp add: new_value_def)
  show ?thesis
    by (simp only: sigaction_main_def sighandler_main_def setitimer_main_def timer_started_def h d) simp
qed

text \<open>\<open>alarm\<close> sets the one timer of the process anew and gives the seconds that were left.\<close>

definition alarm_set :: "nat \<Rightarrow> nat \<Rightarrow> nat \<times> nat" where
  "alarm_set seconds left = (left, seconds)"

fun wait_alarm :: "nat \<Rightarrow> nat \<Rightarrow> nat option" where
  "wait_alarm left 0 = Some left"
| "wait_alarm left (Suc t) = (if left = 1 then None else wait_alarm (left - 1) t)"

definition alarm_main :: "nat \<Rightarrow> event list \<times> ending" where
  "alarm_main T =
     (let (r, left) = alarm_set 5 0; e1 = Out (''seconds = '' @ show_int (int r) @ NL) in
      case wait_alarm left (min T 2) of
        None \<Rightarrow> ([e1], KilledBy SIGALRM)
      | Some left \<Rightarrow>
          if T < 2 then ([e1], Running)
          else let (r, left) = alarm_set 3 left; e2 = Out (''seconds = '' @ show_int (int r) @ NL) in
               case wait_alarm left (T - 2) of
                 None \<Rightarrow> ([e1, e2], KilledBy SIGALRM)
               | Some _ \<Rightarrow> ([e1, e2], Running))"

lemma alarm_main_ends:
  "alarm_main T =
     (Out (''seconds = 0'' @ NL) # (if T < 2 then [] else [Out (''seconds = 3'' @ NL)]),
      if T < 5 then Running else KilledBy SIGALRM)"
proof -
  have w: "wait_alarm n t = (if t < n then Some (n - t) else None)" if "0 < n" for n t
    using that by (induction n t rule: wait_alarm.induct) auto
  have d: "show_int 0 = ''0''" "show_int 3 = ''3''"
    by (simp_all add: show_int_def show_nat.simps digit_def char_of_def bit_Suc_0_iff)
  show ?thesis by (auto simp: alarm_main_def alarm_set_def w d)
qed

text \<open>\<^verbatim>\<open>alarm1.c\<close>: \<open>k\<close> is how far it counts in a second.\<close>

definition alarm1_main :: "nat \<Rightarrow> event list \<times> ending" where
  "alarm1_main k = (map (\<lambda>i. Out (show_int (int i) @ NL)) [1..<Suc k], KilledBy SIGALRM)"

section \<open>kill and a stray pointer\<close>

text \<open>
  \<^verbatim>\<open>kill.c\<close>: the child prints five lines, a second apart, and exits; the parent prints, sleeps and
  kills it.  The schedule says who goes next (\<open>True\<close>: the parent), \<open>p\<close> and \<open>i\<close> are the steps each
  has taken.  The value: the lines, and how the child ends.
\<close>

fun kill_run :: "nat \<Rightarrow> nat \<Rightarrow> bool list \<Rightarrow> event list \<times> ending" where
  "kill_run p i [] = ([], if 6 \<le> i then Ended 0 else Running)"
| "kill_run p i (parent # ls) =
     (if parent then
        (if p = 0 then case kill_run 1 i ls of (es, e) \<Rightarrow> (Out (''Parent process'' @ NL) # es, e)
         else if p = 1 then
           (if 6 \<le> i then ([Out (''Kill child process now'' @ NL)], Ended 0)
            else ([Out (''Kill child process now'' @ NL)], KilledBy SIGINT))
         else kill_run p i ls)
      else if i < 5 then case kill_run p (i + 1) ls of (es, e) \<Rightarrow> (Out (''Child process'' @ NL) # es, e)
      else kill_run p 6 ls)"

definition kill_main :: "int \<Rightarrow> bool list \<Rightarrow> event list \<times> ending" where
  "kill_main pid ls = (if pid = -1 then ([], Ended 0) else kill_run 0 0 ls)"

lemma kill_run_ends:
  "i \<le> 6 \<Longrightarrow> kill_run p i ls = (es, e) \<Longrightarrow>
     length (filter ((=) (Out (''Child process'' @ NL))) es) \<le> 5 - i \<and> e \<in> {Running, Ended 0, KilledBy SIGINT}"
  by (induction p i ls arbitrary: es e rule: kill_run.induct)
     (auto split: if_splits prod.splits simp: NL_def)

text \<open>\<^verbatim>\<open>core.c\<close> copies to a pointer that is never set.\<close>

definition core_main :: "unit comp" where
  "core_main = undef"

end
