(* ===== verification/Processes.thy ===== *)
theory Processes
  imports Signals
begin

text \<open>
  Programs on processes: the buffer of standard output (\<^verbatim>\<open>exit.c\<close>), a parent and its child and what each of
  them prints (\<^verbatim>\<open>fork.c\<close>, \<^verbatim>\<open>orphan.c\<close>, \<^verbatim>\<open>zombie.c\<close>, \<^verbatim>\<open>execl.c\<close>, \<^verbatim>\<open>fork.cpp\<close>), the daemon (\<^verbatim>\<open>daemonP.c\<close>) and the
  sums in five processes (\<^verbatim>\<open>MultiProcess_Chorn.cpp\<close>).
\<close>

section \<open>exit.c\<close>

text \<open>On a terminal whole lines leave the buffer at once, else nothing does before a flush.\<close>

record stdio =
  terminal :: bool
  unflushed :: string
  written :: string

definition newline :: char where
  "newline = CHR 0x0A"

definition whole_lines :: "string \<Rightarrow> string" where
  "whole_lines s = rev (dropWhile (\<lambda>c. c \<noteq> newline) (rev s))"

definition printf :: "string \<Rightarrow> stdio \<Rightarrow> stdio" where
  "printf s f =
     (let t = unflushed f @ s in
      if terminal f then f\<lparr>written := written f @ whole_lines t, unflushed := drop (length (whole_lines t)) t\<rparr>
      else f\<lparr>unflushed := t\<rparr>)"

text \<open>\<open>exit\<close> flushes, \<open>_exit\<close> does not.\<close>

definition exit_flush :: "stdio \<Rightarrow> string" where
  "exit_flush f = written f @ unflushed f"

definition exit_now :: "stdio \<Rightarrow> string" where
  "exit_now f = written f"

definition exit_main :: "bool \<Rightarrow> string" where
  "exit_main tty =
     exit_now (printf ''world'' (printf (''hello '' @ [newline]) \<lparr>terminal = tty, unflushed = [], written = []\<rparr>))"

lemma exit_main_loses: "exit_main tty = (if tty then ''hello '' @ [newline] else [])"
proof -
  have "exit_main True = ''hello '' @ [newline]" "exit_main False = []" by code_simp+
  then show ?thesis by (cases tty) simp_all
qed

text \<open>Nothing is lost before the end, and nothing at all by \<open>exit\<close>.\<close>

lemma printf_keeps: "exit_flush (printf s f) = exit_flush f @ s"
proof -
  have "whole_lines t @ drop (length (whole_lines t)) t = t" for t
  proof -
    have "t = rev (takeWhile (\<lambda>c. c \<noteq> newline) (rev t) @ dropWhile (\<lambda>c. c \<noteq> newline) (rev t))" by simp
    then have "t = whole_lines t @ rev (takeWhile (\<lambda>c. c \<noteq> newline) (rev t))"
      unfolding whole_lines_def by (metis rev_append)
    then show ?thesis by (metis append_eq_conv_conj)
  qed
  then show ?thesis by (simp add: exit_flush_def printf_def Let_def del: drop_append)
qed

section \<open>Parent and child\<close>

text \<open>
  After the fork each process has its own copy of the variables.  A line may show the parent's number, which
  for an orphan is 1; \<open>True\<close>: the parent still exists.  \<open>pleft\<close> is \<open>None\<close> for a parent that never ends.
\<close>

record family =
  pleft :: "event list option"
  cleft :: "(bool \<Rightarrow> event) list"
  parent_gone :: bool
  zombie :: bool
  fout :: "event list"

definition pid_line :: "string \<Rightarrow> int \<Rightarrow> int \<Rightarrow> event" where
  "pid_line who me parent = Out (''I am '' @ who @ '',my pid is : '' @ show_int me @ '' , ppid : '' @ show_int parent @ NL)"

definition i_lines :: "int \<Rightarrow> event list" where
  "i_lines me = map (\<lambda>i. Out (''i:'' @ show_int i @ '' pid:'' @ show_int me @ '' '' @ NL)) [0, 1, 2]"

definition exec_lines :: "int \<Rightarrow> event list" where
  "exec_lines me = map (\<lambda>i. Out (''i = '' @ show_int i @ '' , pid = '' @ show_int me @ NL)) [0, 1, 2]"

text \<open>
  A program after its \<open>fork\<close>: \<open>pre\<close> has been printed before, a parent that ends prints \<open>ps\<close>, the child \<open>cs\<close>.
\<close>

definition family_of :: "event list \<Rightarrow> event list option \<Rightarrow> (bool \<Rightarrow> event) list \<Rightarrow> family" where
  "family_of pre ps cs = \<lparr>pleft = ps, cleft = cs, parent_gone = False, zombie = False, fout = pre\<rparr>"

text \<open>The result \<open>r\<close> of \<open>fork\<close>: without a child there is only a message and the exit status -1.\<close>

definition forked :: "string \<Rightarrow> int \<Rightarrow> family \<Rightarrow> unit comp + family" where
  "forked msg r f = (if r = -1 then Inl (thenc (emit (Perror msg)) (exit_with (-1))) else Inr f)"

text \<open>
  \<^verbatim>\<open>fork.c\<close>: \<open>me\<close> and \<open>up\<close> are the numbers of the parent and of the parent's parent, \<open>kid\<close> is what \<open>fork\<close> returns.
  Each process adds to its own copy of \<open>num\<close>.
\<close>

definition num_lines :: "string \<Rightarrow> int \<Rightarrow> int \<Rightarrow> event list" where
  "num_lines who add pid =
     (let num = 10 :: int; l1 = Out (who @ '' num = '' @ show_int num @ NL); num = num + add in
      [l1, Out (who @ '' num +='' @ show_int add @ '' : '' @ show_int num @ NL), Out (''- pid:'' @ show_int pid @ NL)])"

definition fork_family :: "int \<Rightarrow> int \<Rightarrow> int \<Rightarrow> family" where
  "fork_family me kid up = family_of []
     (Some (num_lines ''parent'' 10 kid @ [Out (''I am father,my id is:'' @ show_int me @ '',ppid:'' @ show_int up @ NL)]))
     (map (\<lambda>e b. e) (num_lines ''child'' 100 0) @
      [\<lambda>b. Out (''I am child,my id is:'' @ show_int kid @ '',my father id is:'' @ show_int (if b then me else 1) @ NL)])"

definition fork_main :: "int \<Rightarrow> int \<Rightarrow> int \<Rightarrow> unit comp + family" where
  "fork_main r me up = forked ''- fork'' r (fork_family me r up)"

text \<open>\<^verbatim>\<open>orphan.c\<close> and \<^verbatim>\<open>zombie.c\<close> differ in the parent, which in the second one never ends.\<close>

definition kid_lines :: "int \<Rightarrow> int \<Rightarrow> (bool \<Rightarrow> event) list" where
  "kid_lines me kid = (\<lambda>b. pid_line ''child'' kid (if b then me else 1)) # map (\<lambda>e b. e) (i_lines kid)"

definition orphan_family :: "int \<Rightarrow> int \<Rightarrow> int \<Rightarrow> family" where
  "orphan_family me kid up = family_of [] (Some (pid_line ''father'' me up # i_lines me)) (kid_lines me kid)"

definition orphan_main :: "int \<Rightarrow> int \<Rightarrow> int \<Rightarrow> unit comp + family" where
  "orphan_main r me up = forked ''- fork'' r (orphan_family me r up)"

definition zombie_family :: "int \<Rightarrow> int \<Rightarrow> int \<Rightarrow> family" where
  "zombie_family me kid up = family_of [] None (kid_lines me kid)"

definition zombie_main :: "int \<Rightarrow> int \<Rightarrow> int \<Rightarrow> unit comp + family" where
  "zombie_main r me up = forked ''- fork'' r (zombie_family me r up)"

text \<open>\<^verbatim>\<open>execl.c\<close>: \<open>ok\<close> tells whether the child becomes \<open>ps\<close>, whose output is \<open>es\<close>; else it goes on.\<close>

definition exec_family :: "bool \<Rightarrow> event list \<Rightarrow> int \<Rightarrow> int \<Rightarrow> family" where
  "exec_family ok es me kid = family_of []
     (Some (Out (''I am father process, pid: '' @ show_int me @ NL) # exec_lines me))
     (map (\<lambda>e b. e) (if ok then es
       else Perror ''execl'' # Out (''I am child process. pid = '' @ show_int kid @ NL) # exec_lines kid))"

definition exec_main :: "bool \<Rightarrow> event list \<Rightarrow> int \<Rightarrow> int \<Rightarrow> unit comp + family" where
  "exec_main ok es r me = forked ''fork'' r (exec_family ok es me r)"

text \<open>\<^verbatim>\<open>fork.cpp\<close> says nothing of a \<open>fork\<close> that fails.\<close>

definition cpp_line :: "string \<Rightarrow> int \<Rightarrow> event" where
  "cpp_line who n = Out (who @ '' Pid='' @ show_int n @ NL)"

definition cpp_main :: "int \<Rightarrow> int \<Rightarrow> unit comp + family" where
  "cpp_main r me =
     (let pre = cpp_line ''main process'' me in
      if r = -1 then Inl (emit pre)
      else Inr (family_of [pre] (Some [cpp_line ''Father'' me])
        [\<lambda>b. cpp_line ''Child'' r, \<lambda>b. cpp_line ''Father'' (if b then me else 1)]))"

text \<open>A parent in an endless loop prints its line again and again; a child without a waiting parent becomes a zombie.\<close>

datatype fam_label = ParentTurn | KidTurn

definition fam_step :: "event \<Rightarrow> family \<Rightarrow> fam_label \<Rightarrow> family option" where
  "fam_step loop_line s l =
     (case l of
        ParentTurn \<Rightarrow>
          (case pleft s of
             None \<Rightarrow> Some (s\<lparr>fout := fout s @ [loop_line]\<rparr>)
           | Some [] \<Rightarrow> if parent_gone s then None else Some (s\<lparr>parent_gone := True, zombie := False\<rparr>)
           | Some (e # es) \<Rightarrow> Some (s\<lparr>pleft := Some es, fout := fout s @ [e]\<rparr>))
      | KidTurn \<Rightarrow>
          (case cleft s of
             [] \<Rightarrow> if zombie s \<or> parent_gone s then None else Some (s\<lparr>zombie := True\<rparr>)
           | e # es \<Rightarrow> Some (s\<lparr>cleft := es, fout := fout s @ [e (\<not> parent_gone s)]\<rparr>)))"

text \<open>
  After some steps: \<open>pl\<close> are the lines of the parent and \<open>zs\<close> all lines since the fork; the child has printed
  \<open>n\<close> lines, the first \<open>q\<close> of them while the parent was there.
\<close>

definition kid_said :: "(bool \<Rightarrow> event) list \<Rightarrow> nat \<Rightarrow> nat \<Rightarrow> event list" where
  "kid_said cs n q = map (\<lambda>k. (cs ! k) (k < q)) [0..<n]"

definition fam_inv :: "event \<Rightarrow> event list \<Rightarrow> event list option \<Rightarrow> (bool \<Rightarrow> event) list \<Rightarrow>
    nat \<Rightarrow> nat \<Rightarrow> event list \<Rightarrow> event list \<Rightarrow> family \<Rightarrow> bool" where
  "fam_inv e pre ps cs n q pl zs s \<longleftrightarrow>
     fout s = pre @ zs \<and> zs \<in> shuffles pl (kid_said cs n q) \<and> n \<le> length cs \<and> cleft s = drop n cs \<and>
     (if parent_gone s then q \<le> n else q = n) \<and> (zombie s \<longrightarrow> n = length cs \<and> \<not> parent_gone s) \<and>
     (case ps of
        None \<Rightarrow> pleft s = None \<and> \<not> parent_gone s \<and> pl = replicate (length pl) e
      | Some P \<Rightarrow> (\<exists>rest. pleft s = Some rest \<and> pl @ rest = P \<and> (parent_gone s \<longrightarrow> rest = [])))"

lemma kid_said_alive: "kid_said cs (Suc n) (Suc n) = kid_said cs n n @ [(cs ! n) True]"
  by (simp add: kid_said_def)

lemma kid_said_orphan: "q \<le> n \<Longrightarrow> kid_said cs (Suc n) q = kid_said cs n q @ [(cs ! n) False]"
  by (simp add: kid_said_def)

lemma fam_inv_parent:
  assumes i: "fam_inv e pre ps cs n q pl zs s" and st: "fam_step e s ParentTurn = Some t"
  shows "\<exists>pl zs. fam_inv e pre ps cs n q pl zs t"
proof (cases "pleft s")
  case None
  with st have t: "t = s\<lparr>fout := fout s @ [e]\<rparr>" by (simp add: fam_step_def)
  from i None have ps: "ps = None" by (auto simp: fam_inv_def split: option.splits)
  with i have pl: "pl = replicate (length pl) e" by (simp add: fam_inv_def)
  have "pl @ [e] = replicate (length (pl @ [e])) e"
    by (subst pl) (simp add: replicate_append_same)
  moreover have "zs @ [e] \<in> shuffles (pl @ [e]) (kid_said cs n q)"
    using i by (simp add: fam_inv_def shuffles_snoc_left)
  ultimately have "fam_inv e pre ps cs n q (pl @ [e]) (zs @ [e]) t"
    using i ps t unfolding fam_inv_def by simp
  then show ?thesis by blast
next
  case (Some ws)
  with i obtain P where P: "ps = Some P" "pl @ ws = P" "parent_gone s \<longrightarrow> ws = []"
    by (auto simp: fam_inv_def split: option.splits)
  show ?thesis
  proof (cases ws)
    case Nil
    with st Some have "t = s\<lparr>parent_gone := True, zombie := False\<rparr>" by (simp add: fam_step_def split: if_splits)
    with i P Some Nil have "fam_inv e pre ps cs n q pl zs t" by (auto simp: fam_inv_def split: if_splits)
    then show ?thesis by blast
  next
    case (Cons w ws')
    with st Some have "t = s\<lparr>pleft := Some ws', fout := fout s @ [w]\<rparr>" by (simp add: fam_step_def)
    with i P Cons have "fam_inv e pre ps cs n q (pl @ [w]) (zs @ [w]) t"
      by (auto simp: fam_inv_def shuffles_snoc_left)
    then show ?thesis by blast
  qed
qed

lemma fam_inv_kid:
  assumes i: "fam_inv e pre ps cs n q pl zs s" and st: "fam_step e s KidTurn = Some t"
  shows "\<exists>n q zs. fam_inv e pre ps cs n q pl zs t"
proof (cases "cleft s")
  case Nil
  with st have "t = s\<lparr>zombie := True\<rparr>" "\<not> parent_gone s" by (simp_all add: fam_step_def split: if_splits)
  with i Nil have "fam_inv e pre ps cs n q pl zs t" by (auto simp: fam_inv_def split: option.splits)
  then show ?thesis by blast
next
  case (Cons c cs')
  with i have d: "drop n cs = c # cs'" by (simp add: fam_inv_def)
  then have n: "n < length cs" "cs ! n = c" "cs' = drop (Suc n) cs"
    by (auto simp: nth_via_drop drop_Suc tl_drop [symmetric] intro: ccontr)
  from st Cons have t: "t = s\<lparr>cleft := cs', fout := fout s @ [c (\<not> parent_gone s)]\<rparr>" by (simp add: fam_step_def)
  show ?thesis
  proof (cases "parent_gone s")
    case True
    with i n t have "fam_inv e pre ps cs (Suc n) q pl (zs @ [c False]) t"
      by (auto simp: fam_inv_def kid_said_orphan shuffles_snoc_right split: option.splits)
    then show ?thesis by blast
  next
    case False
    with i n t have "fam_inv e pre ps cs (Suc n) (Suc n) pl (zs @ [c True]) t"
      by (auto simp: fam_inv_def kid_said_alive shuffles_snoc_right split: option.splits)
    then show ?thesis by blast
  qed
qed

interpretation fam: safe_system "fam_step e" "family_of pre ps cs" "\<lambda>s. \<exists>n q pl zs. fam_inv e pre ps cs n q pl zs s"
proof
  have "fam_inv e pre ps cs 0 0 [] [] (family_of pre ps cs)"
    by (simp add: fam_inv_def family_of_def kid_said_def split: option.splits)
  then show "\<exists>n q pl zs. fam_inv e pre ps cs n q pl zs (family_of pre ps cs)" by blast
next
  fix s l t assume "\<exists>n q pl zs. fam_inv e pre ps cs n q pl zs s" and st: "fam_step e s l = Some t"
  then obtain n q pl zs where i: "fam_inv e pre ps cs n q pl zs s" by blast
  show "\<exists>n q pl zs. fam_inv e pre ps cs n q pl zs t"
  proof (cases l)
    case ParentTurn
    from fam_inv_parent [OF i st [unfolded ParentTurn]] show ?thesis by blast
  next
    case KidTurn
    from fam_inv_kid [OF i st [unfolded KidTurn]] show ?thesis by blast
  qed
qed

text \<open>
  Parent and child after a \<open>fork\<close>, under every schedule: what is printed since then is an
  interleaving of first lines of the parent (or of repetitions of its endless loop) and first lines of the
  child, where the child shows its parent's number in the lines before the parent's end and 1 in all
  later ones; and a child is a zombie only when it has printed all its lines and the parent has not ended.
\<close>
lemma family_lines:
  assumes "reachable (fam_step e) (family_of pre ps cs) s"
  shows "\<exists>n q pl zs. fout s = pre @ zs \<and> zs \<in> shuffles pl (kid_said cs n q) \<and> n \<le> length cs \<and>
    (case ps of None \<Rightarrow> pl = replicate (length pl) e | Some P \<Rightarrow> pl = take (length pl) P) \<and>
    (\<not> parent_gone s \<longrightarrow> q = n) \<and>
    (zombie s \<longrightarrow> n = length cs \<and> \<not> parent_gone s)"
proof -
  obtain n q pl zs where i: "fam_inv e pre ps cs n q pl zs s" using fam.inv_reachable [OF assms] by blast
  then have "fout s = pre @ zs \<and> zs \<in> shuffles pl (kid_said cs n q) \<and> n \<le> length cs \<and>
    (case ps of None \<Rightarrow> pl = replicate (length pl) e | Some P \<Rightarrow> pl = take (length pl) P) \<and>
    (\<not> parent_gone s \<longrightarrow> q = n) \<and> (zombie s \<longrightarrow> n = length cs \<and> \<not> parent_gone s)"
    by (auto simp: fam_inv_def split: option.splits if_splits)
  then show ?thesis by blast
qed

lemma family_lines_witness:
  "\<exists>s. run (fam_step (Perror [])) (orphan_family 7 8 1) (replicate 5 ParentTurn @ [KidTurn]) = Some s \<and>
     parent_gone s \<and> fout s = pid_line ''father'' 7 1 # i_lines 7 @ [pid_line ''child'' 8 1] \<and> \<not> zombie s"
proof -
  let ?s0 = "orphan_family 7 8 1"
  obtain s where s: "run (fam_step (Perror [])) ?s0 (replicate 5 ParentTurn @ [KidTurn]) = Some s" "parent_gone s"
    "fout s = pid_line ''father'' 7 1 # i_lines 7 @ [pid_line ''child'' 8 1]"
    by (simp add: orphan_family_def family_of_def fam_step_def kid_lines_def i_lines_def eval_nat_numeral)
  have "reachable (fam_step (Perror [])) ?s0 s" by (rule run_reachable [OF s(1)])
  from family_lines [OF this [unfolded orphan_family_def]] s(2) have "\<not> zombie s" by blast
  with s show ?thesis by blast
qed

lemma zombie_stays:
  assumes "run (fam_step e) (zombie_family me kid up) ls = Some s"
  shows "pleft s = None \<and> \<not> parent_gone s \<and> (4 < length (filter ((=) KidTurn) ls) \<longrightarrow> zombie s)"
proof -
  have "pleft t = None \<and> \<not> parent_gone t \<and>
      (if zombie t then cleft t = [] else length (cleft t) + length (filter ((=) KidTurn) ks) = 4)"
    if "run (fam_step e) (zombie_family me kid up) ks = Some t" for ks t
    using that
  proof (induction ks arbitrary: t rule: rev_induct)
    case Nil
    then have "t = zombie_family me kid up" by simp
    then show ?case by (simp add: zombie_family_def family_of_def kid_lines_def i_lines_def)
  next
    case (snoc l ks)
    then obtain u where u: "run (fam_step e) (zombie_family me kid up) ks = Some u" "fam_step e u l = Some t"
      by (auto simp: run_append bind_eq_Some_conv split: option.splits)
    from snoc.IH [OF u(1)] u(2) show ?case
      by (cases l) (auto simp: fam_step_def split: list.splits if_splits)
  qed
  from this [OF assms] show ?thesis by (auto split: if_splits)
qed

section \<open>The daemon\<close>

text \<open>\<open>clock\<close> is what \<open>asctime\<close> gives at a second; a write appends.\<close>

definition work :: "(nat \<Rightarrow> string) \<Rightarrow> nat \<Rightarrow> string \<Rightarrow> string" where
  "work clock now file = file @ clock now"

definition daemon_val :: itimerval where
  "daemon_val = \<lparr>it_value = 2, it_interval = 2\<rparr>"

text \<open>\<open>n\<close> more seconds of the loop; every signal interrupts a \<open>sleep\<close>.\<close>

fun daemon_secs :: "(nat \<Rightarrow> string) \<Rightarrow> itimerval \<Rightarrow> nat \<Rightarrow> nat \<Rightarrow> string \<Rightarrow> string" where
  "daemon_secs clock t now 0 file = file"
| "daemon_secs clock t now (Suc n) file =
     (case tick t of
        (fires, t) \<Rightarrow> daemon_secs clock t (Suc now) n (if fires then work clock (Suc now) file else file))"

text \<open>
  The start; \<open>pid\<close> is the result of \<open>fork\<close>.  The path given to \<open>chdir\<close> begins with a tilde, which only a
  shell would expand, and the result is not looked at.
\<close>

definition daemon_start :: "int \<Rightarrow> int \<Rightarrow> unit comp" where
  "daemon_start pid fd =
     (if 0 < pid then exit_with 0
      else
        ([Call ''setsid'' [], Call ''umask'' [18], Call ''chdir ~/lesson'' [], Call ''open /dev/null'' [],
          Call ''dup2'' [fd, 0], Call ''dup2'' [fd, 1], Call ''dup2'' [fd, 2],
          Call ''sigaction SIGALRM'' [], Call ''setitimer'' [0, 2, 2]], Done ()))"

definition daemon_main :: "(nat \<Rightarrow> string) \<Rightarrow> int \<Rightarrow> int \<Rightarrow> nat \<Rightarrow> string \<Rightarrow> string comp" where
  "daemon_main clock pid fd secs file =
     bindc (daemon_start pid fd) (\<lambda>_. ret (daemon_secs clock daemon_val 0 secs file))"

lemma daemon_secs_two:
  "daemon_secs clock daemon_val now secs f =
     f @ concat (map (\<lambda>k. clock (now + 2 * (k + 1))) [0..<secs div 2])"
proof (induction secs arbitrary: now f rule: less_induct)
  case (less secs)
  consider "secs = 0" | "secs = 1" | n where "secs = Suc (Suc n)" by (metis One_nat_def not0_implies_Suc)
  then show ?case
  proof cases
    case 3
    have "map (\<lambda>k. clock (now + 2 * (k + 1))) [0..<Suc (n div 2)] =
        clock (now + 2) # map (\<lambda>k. clock (Suc (Suc now) + 2 * (k + 1))) [0..<n div 2]"
      by (simp add: upt_conv_Cons map_Suc_upt [symmetric] del: upt_Suc)
    with 3 less.IH [of n "Suc (Suc now)" "work clock (Suc (Suc now)) f"] show ?thesis
      by (simp add: daemon_val_def tick_def work_def)
  qed (simp_all add: daemon_val_def tick_def)
qed

text \<open>
  The daemon appends the time to its file every two seconds, and nothing else ever happens to
  the file; the process that was started has ended by then.
\<close>
theorem daemon_log:
  "(pid \<le> 0 \<longrightarrow> outcome (daemon_main clock pid fd secs file) =
      Done (file @ concat (map (\<lambda>k. clock (2 * (k + 1))) [0..<secs div 2]))) \<and>
   (0 < pid \<longrightarrow> daemon_main clock pid fd secs file = ([], Exit 0))"
  by (simp add: daemon_main_def daemon_start_def daemon_secs_two effect_simps)

lemma daemon_log_witness:
  "outcome (daemon_main (\<lambda>n. show_nat n) 0 3 5 ''log'') = Done (''log'' @ show_nat 2 @ show_nat 4) \<and>
   daemon_main (\<lambda>n. show_nat n) 7 3 5 ''log'' = ([], Exit 0)"
proof -
  have "[0..<2] = [0, 1 :: nat]" by code_simp
  then show ?thesis
    using daemon_log [of 0 "\<lambda>n. show_nat n" 3 5 "''log''"] daemon_log [of 7 "\<lambda>n. show_nat n" 3 5 "''log''"]
    by (simp add: numeral_2_eq_2 [symmetric])
qed

section \<open>Sums in five processes\<close>

text \<open>\<open>n\<close> turns of the loop \<open>temp += i\<close> over a \<open>long long\<close>, and over an \<open>int\<close>, whose overflow is undefined.\<close>

fun add_from :: "int \<Rightarrow> int \<Rightarrow> nat \<Rightarrow> int" where
  "add_from temp i 0 = temp"
| "add_from temp i (Suc n) = add_from (temp + i) (i + 1) n"

definition INT_MAX :: int where
  "INT_MAX = 2147483647"

fun add_int_from :: "int \<Rightarrow> int \<Rightarrow> nat \<Rightarrow> int option" where
  "add_int_from temp i 0 = Some temp"
| "add_int_from temp i (Suc n) = (if INT_MAX < temp + i then None else add_int_from (temp + i) (i + 1) n)"

text \<open>Storing a \<open>long long\<close> into an \<open>int\<close> keeps the low 32 bits.\<close>

definition low_int :: "int \<Rightarrow> int" where
  "low_int n = (n + 2 ^ 31) mod 2 ^ 32 - 2 ^ 31"

text \<open>What the function prints, returns and adds to the variable \<open>total\<close> of its process.\<close>

definition get_interval_sum :: "int \<Rightarrow> int \<Rightarrow> event \<times> int \<times> int" where
  "get_interval_sum k total_v =
     (let start = k * 20000; stop = start + 20000; temp = add_from 0 start (nat (stop - start)) in
      (Out (''I'' @ [CHR 0x27] @ ''m '' @ show_int (start div 20000) @ ''th, temp = '' @ show_int temp @ NL),
       temp, low_int (total_v + temp)))"

text \<open>
  A process: \<open>k\<close> is the value of \<open>i\<close> it leaves the fork loop with (5: the parent).  Every process has its own
  \<open>total_sum\<close>, which the result is: that of the parent stays 0.  The parent polls for ever unless all five
  forks have given it a child.
\<close>

definition chorn_child :: "nat \<Rightarrow> int comp" where
  "chorn_child k =
     (case get_interval_sum (int k) 0 of (e, temp, _) \<Rightarrow> thenc (emit e) (ret (low_int (0 + temp))))"

definition chorn_parent :: "nat \<Rightarrow> int \<Rightarrow> int \<Rightarrow> int \<Rightarrow> int comp" where
  "chorn_parent children me up dur =
     (let total_sum = 0 in
      if children = 5 then
        thenc (emit (Out (''I'' @ [CHR 0x27] @ ''m parent, pid = '' @ show_int me @ '', ppid ='' @ show_int up @ NL)))
       (thenc (emit (Out (''Multi_Process result = '' @ show_int total_sum @ NL)))
       (thenc (emit (Out (''Mulit_Process takes '' @ show_int dur @ '' ms'' @ NL)))
       (ret total_sum)))
      else block)"

definition chorn_single :: "int \<Rightarrow> unit comp" where
  "chorn_single dur =
     thenc (emit (Out (replicate 38 (CHR ''-'') @ NL)))
     (case add_int_from 0 0 (5 * 20000) of
        None \<Rightarrow> undef
      | Some temp \<Rightarrow>
          thenc (emit (Out (''I'' @ [CHR 0x27] @ ''m parent, Single process temp= '' @ show_int temp @ NL)))
          (emit (Out (''Single process, use '' @ show_int dur @ '' ms'' @ NL))))"

definition chorn_main :: "nat \<Rightarrow> nat \<Rightarrow> int \<Rightarrow> int \<Rightarrow> int \<Rightarrow> int \<Rightarrow> unit comp" where
  "chorn_main k children me up d1 d2 =
     (if k < 5 then bindc (chorn_child k) (\<lambda>_. ret ())
      else bindc (chorn_parent children me up d1) (\<lambda>_. chorn_single d2))"

lemma add_from_closed: "2 * add_from t i n = 2 * t + 2 * int n * i + int n * (int n - 1)"
proof (induction t i n rule: add_from.induct)
  case (2 t i n)
  then show ?case by (simp add: algebra_simps)
qed simp

lemma add_from_append: "add_from t i (m + n) = add_from (add_from t i m) (i + int m) n"
  by (induction m arbitrary: t i) (simp_all add: algebra_simps)

lemma add_int_from_overflow:
  "0 \<le> i \<Longrightarrow> add_int_from t i n = (if t \<le> INT_MAX \<or> n = 0 then
       (if n = 0 \<or> add_from t i n \<le> INT_MAX then Some (add_from t i n) else None) else None)"
proof (induction t i n rule: add_int_from.induct)
  case (2 t i n)
  have mono: "u \<le> add_from u j m" if "0 \<le> j" for u j m
    using that
  proof (induction m arbitrary: u j)
    case (Suc m)
    have "u + j \<le> add_from (u + j) (j + 1) m" using Suc.prems by (intro Suc.IH) simp
    with Suc.prems have "u \<le> add_from (u + j) (j + 1) m" by linarith
    then show ?case by simp
  qed simp
  show ?case using 2 mono [of "i + 1" "t + i" n] by (cases "n = 0") auto
qed simp

lemma interval_sum: "add_from 0 (int k * 20000) 20000 = 400000000 * int k + 199990000"
  using add_from_closed [of 0 "int k * 20000" 20000] by simp

lemma five_intervals: "(\<Sum>k < m. add_from 0 (int k * 20000) 20000) = add_from 0 0 (20000 * m)"
proof (induction m)
  case (Suc m)
  have sum: "2 * add_from 0 0 n = int n * (int n - 1)" for n using add_from_closed [of 0 0 n] by simp
  have "2 * add_from 0 0 (20000 * Suc m) = 2 * (add_from 0 0 (20000 * m) + add_from 0 (int m * 20000) 20000)"
    unfolding interval_sum distrib_left sum by (simp add: algebra_simps)
  with Suc.IH show ?case by simp
qed simp

text \<open>
  The sum in five processes: each child prints the sum of its interval, in closed form, and the
  five sums make up the whole sum of the numbers below 100000; but the parent prints 0, as it
  has its own \<open>total_sum\<close>, it polls for ever unless all five forks have given it a child, and its own sum
  overflows an \<open>int\<close>, which is undefined.
\<close>
theorem chorn_sums:
  "(k < 5 \<longrightarrow> chorn_child k =
      ([fst (get_interval_sum (int k) 0)], Done (400000000 * int k + 199990000))) \<and>
   fst (snd (get_interval_sum (int k) v)) = 400000000 * int k + 199990000 \<and>
   (\<Sum>k < 5. fst (snd (get_interval_sum (int k) v))) = add_from 0 0 100000 \<and>
   (Out (''Multi_Process result = 0'' @ NL) \<in> set (events (chorn_main 5 c me up d1 d2)) \<longleftrightarrow> c = 5) \<and>
   outcome (chorn_main 5 c me up d1 d2) = (if c = 5 then Undef else Block)"
proof (intro conjI impI)
  have g: "fst (snd (get_interval_sum (int k) v)) = add_from 0 (int k * 20000) 20000" for k v
    by (simp add: get_interval_sum_def Let_def)
  show "fst (snd (get_interval_sum (int k) v)) = 400000000 * int k + 199990000" by (simp add: g interval_sum)
  show "(\<Sum>k < 5. fst (snd (get_interval_sum (int k) v))) = add_from 0 0 100000"
    using five_intervals [of 5] by (simp add: g)
  have z: "show_int 0 = ''0''" by code_simp
  have single: "outcome (chorn_single d2) = Undef"
  proof -
    have "2 * add_from 0 0 100000 = 9999900000" using add_from_closed [of 0 0 100000] by simp
    then have "INT_MAX < add_from 0 0 100000" by (simp add: INT_MAX_def)
    then show ?thesis by (simp add: chorn_single_def add_int_from_overflow effect_simps)
  qed
  show "outcome (chorn_main 5 c me up d1 d2) = (if c = 5 then Undef else Block)"
    using single by (simp add: chorn_main_def chorn_parent_def effect_simps)
  show "Out (''Multi_Process result = 0'' @ NL) \<in> set (events (chorn_main 5 c me up d1 d2)) \<longleftrightarrow> c = 5"
    by (simp add: chorn_main_def chorn_parent_def z effect_simps)
  assume "k < 5"
  then have "low_int (400000000 * int k + 199990000) = 400000000 * int k + 199990000" by (simp add: low_int_def)
  with \<open>k < 5\<close> show "chorn_child k = ([fst (get_interval_sum (int k) 0)], Done (400000000 * int k + 199990000))"
    by (simp add: chorn_child_def get_interval_sum_def Let_def interval_sum effect_simps)
qed

lemma chorn_sums_witness: "chorn_child 4 = ([fst (get_interval_sum 4 0)], Done 1799990000)"
  using chorn_sums [of 4 0 5 0 0 0 0] by simp

end
