(* ===== verification/Samples.thy ===== *)
theory Samples
  imports Processes ListFile
begin

unbundle bit_operations_syntax

text \<open>
  The smallest programs: \<^verbatim>\<open>hello.c\<close>, \<^verbatim>\<open>chmod.c\<close>, \<^verbatim>\<open>fpathconf.c\<close>, \<^verbatim>\<open>epoll_test.cpp\<close>, the counter of
  \<^verbatim>\<open>timer_test.cpp\<close> and the three threads of \<^verbatim>\<open>MultiThread_Test.cpp\<close>, which are joined one after the other.
\<close>

section \<open>hello.c\<close>

definition hello_main :: "bool \<Rightarrow> string" where
  "hello_main tty = exit_flush (printf (''Hello world'' @ [newline]) \<lparr>terminal = tty, unflushed = [], written = []\<rparr>)"

text \<open>A return from \<open>main\<close> flushes, so that nothing is lost wherever the output goes; \<open>_exit\<close> in its place would lose it.\<close>

lemma hello_main_complete: "hello_main tty = ''Hello world'' @ [newline]"
  by (simp add: hello_main_def printf_keeps) (simp add: exit_flush_def)

section \<open>chmod.c\<close>

text \<open>The files of the caller by name; the call changes the twelve mode bits of one that exists, and not its type.\<close>

definition chmod_call :: "string \<Rightarrow> mode_t \<Rightarrow> (string \<Rightarrow> mode_t option) \<Rightarrow> int \<times> (string \<Rightarrow> mode_t option)" where
  "chmod_call path mode files =
     (case files path of
        None \<Rightarrow> (-1, files)
      | Some m \<Rightarrow> (0, files(path \<mapsto> (m AND S_IFMT) OR (mode AND 0xFFF))))"

definition chmod_main :: "(string \<Rightarrow> mode_t option) \<Rightarrow> int \<times> (string \<Rightarrow> mode_t option)" where
  "chmod_main files = (case chmod_call ''a.out'' 0x1FF files of (_, files') \<Rightarrow> (0, files'))"

lemma type_char_keep: "type_char ((m AND S_IFMT) OR 0x1FF) = type_char m"
proof -
  have "((m AND S_IFMT) OR 0x1FF) AND S_IFMT = m AND S_IFMT"
  proof -
    have "((m AND S_IFMT) OR 0x1FF) AND S_IFMT = ((m AND S_IFMT) AND S_IFMT) OR (0x1FF AND S_IFMT)" by (rule word_ao_dist)
    also have "0x1FF AND S_IFMT = 0" by (simp add: S_IFMT_def)
    also have "(m AND S_IFMT) AND S_IFMT = m AND S_IFMT" by (simp add: and.assoc)
    finally show ?thesis by simp
  qed
  then show ?thesis by (simp only: type_char_def)
qed

lemma perm_char_all: "f AND 0x1FF = f \<Longrightarrow> f \<noteq> 0 \<Longrightarrow> perm_char ((m AND S_IFMT) OR 0x1FF) f c = c"
proof -
  assume f: "f AND 0x1FF = f" "f \<noteq> 0"
  have "((m AND S_IFMT) OR 0x1FF) AND f = ((m AND S_IFMT) AND f) OR (0x1FF AND f)" by (rule word_ao_dist)
  also have "0x1FF AND f = f" using f(1) by (simp only: word_bw_comms)
  also have "((m AND S_IFMT) AND f) OR f = f" by (simp only: word_ao_absorbs)
  finally show ?thesis using f(2) by (simp add: perm_char_def)
qed

lemma perms_all: "perms ((m AND S_IFMT) OR 0x1FF) = type_char m # ''rwxrwxrwx''"
  unfolding perms_def type_char_keep
  by (simp add: perm_char_all S_IRUSR_def S_IWUSR_def S_IXUSR_def S_IRGRP_def S_IWGRP_def S_IXGRP_def
    S_IROTH_def S_IWOTH_def S_IXOTH_def)

section \<open>fpathconf.c\<close>

text \<open>\<open>conf\<close> is what \<open>fpathconf\<close> gives for a descriptor; after a failed \<open>pipe\<close> the array still holds \<open>g\<close>.\<close>

definition fpathconf_main :: "int \<Rightarrow> int \<Rightarrow> int \<Rightarrow> (int \<Rightarrow> int) \<Rightarrow> int comp" where
  "fpathconf_main made rd g conf =
     (let pipefd0 = (if made = -1 then g else rd); size = conf pipefd0 in
      thenc (emit (Out (''pipe size: '' @ show_int size @ NL))) (ret 0))"

definition epoll_test_main :: "int comp" where
  "epoll_test_main = thenc (emit (Call ''epoll_create'' [1])) (ret 0)"

section \<open>timer_test.cpp\<close>

text \<open>
  \<open>k\<close> is how far it counts in the second; each of the two insertions into \<open>cerr\<close> is written at once, and
  the signal may come between them (\<open>halfway\<close>).
\<close>

definition timer_test_main :: "nat \<Rightarrow> bool \<Rightarrow> event list \<times> ending" where
  "timer_test_main k halfway =
     (concat (map (\<lambda>i. [Wr 2 (show_int (int i)), Wr 2 NL]) [1..<Suc k]) @
      (if halfway then [Wr 2 (show_int (int (Suc k)))] else []), KilledBy SIGALRM)"

definition stderr_text :: "event list \<Rightarrow> string" where
  "stderr_text es = concat (map (\<lambda>e. case e of Wr f t \<Rightarrow> (if f = 2 then t else []) | _ \<Rightarrow> []) es)"

definition stdout_text :: "event list \<Rightarrow> string" where
  "stdout_text es = concat (map (\<lambda>e. case e of Out t \<Rightarrow> t | _ \<Rightarrow> []) es)"

text \<open>The same count as that of \<^verbatim>\<open>alarm1.c\<close>, on standard error.\<close>

lemma timer_test_counts:
  "stderr_text (fst (timer_test_main k False)) = stdout_text (fst (alarm1_main k)) \<and>
   snd (timer_test_main k halfway) = snd (alarm1_main k)"
proof -
  have "stderr_text (concat (map (\<lambda>i. [Wr 2 (show_int (int i)), Wr 2 NL]) ks)) =
      stdout_text (map (\<lambda>i. Out (show_int (int i) @ NL)) ks)" for ks
    by (induction ks) (simp_all add: stderr_text_def stdout_text_def)
  then show ?thesis by (simp add: timer_test_main_def alarm1_main_def del: upt_Suc)
qed

section \<open>MultiThread_Test.cpp\<close>

text \<open>
  \<open>mt_todo\<close> are the threads not created yet, each with its insertions into \<open>cout\<close>; \<open>mt_child\<close> is what is left of
  the one the main thread waits for in \<open>join\<close>.  A thread that cannot be created ends the process.
\<close>

record mt =
  mt_todo :: "event list list"
  mt_child :: "event list option"
  mt_out :: "event list"
  mt_aborted :: bool

definition say_line :: "string \<Rightarrow> event list" where
  "say_line t = [Out t, Out NL]"

definition hello :: "event list" where
  "hello = say_line ''hello world''"

definition world :: "string \<Rightarrow> event list" where
  "world name = say_line name"

definition test1 :: "event list list" where
  "test1 = [hello, say_line ''hello lamda'', world ''std::thread Transfer paramter'']"

definition mt_init :: mt where
  "mt_init = \<lparr>mt_todo = test1, mt_child = None, mt_out = [], mt_aborted = False\<rparr>"

datatype mt_label = Create bool | ChildSays | JoinChild

definition mt_step :: "mt \<Rightarrow> mt_label \<Rightarrow> mt option" where
  "mt_step s l =
     (if mt_aborted s then None
      else case l of
        Create ok \<Rightarrow>
          (case (mt_child s, mt_todo s) of
             (None, t # ts) \<Rightarrow> Some (if ok then s\<lparr>mt_todo := ts, mt_child := Some t\<rparr> else s\<lparr>mt_aborted := True\<rparr>)
           | _ \<Rightarrow> None)
      | ChildSays \<Rightarrow>
          (case mt_child s of Some (e # es) \<Rightarrow> Some (s\<lparr>mt_child := Some es, mt_out := mt_out s @ [e]\<rparr>) | _ \<Rightarrow> None)
      | JoinChild \<Rightarrow> (case mt_child s of Some [] \<Rightarrow> Some (s\<lparr>mt_child := None\<rparr>) | _ \<Rightarrow> None))"

definition mt_inv :: "mt \<Rightarrow> bool" where
  "mt_inv s \<longleftrightarrow> mt_out s @ (case mt_child s of None \<Rightarrow> [] | Some es \<Rightarrow> es) @ concat (mt_todo s) = concat test1"

definition mt_fuel :: "mt \<Rightarrow> nat" where
  "mt_fuel s = (if mt_aborted s then 0
     else 1 + 2 * length (mt_todo s) + length (concat (mt_todo s)) +
       (case mt_child s of None \<Rightarrow> 0 | Some es \<Rightarrow> Suc (length es)))"

interpretation mt: bounded_system mt_step mt_init mt_inv mt_fuel
proof
  show "mt_inv mt_init" by (simp add: mt_inv_def mt_init_def)
  show "mt_inv t" if "mt_inv s" "mt_step s l = Some t" for s l t
    using that by (auto simp: mt_inv_def mt_step_def split: mt_label.splits if_splits option.splits list.splits)
  show "mt_fuel t < mt_fuel s" if "mt_inv s" "mt_step s l = Some t" for s l t
    using that by (auto simp: mt_fuel_def mt_step_def split: mt_label.splits if_splits option.splits list.splits)
qed

section \<open>Properties\<close>

text \<open>After \<^verbatim>\<open>chmod.c\<close> the line \<^verbatim>\<open>f_ls.c\<close> prints for the file shows all nine permissions and the same type; other files,
  and all of them when the file does not exist, stay as they were.\<close>

theorem chmod_main_shown:
  assumes "chmod_main files = (r, files')"
  shows "r = 0 \<and> dom files' = dom files \<and> (\<forall>f. f \<noteq> ''a.out'' \<longrightarrow> files' f = files f) \<and>
    (\<forall>m. files ''a.out'' = Some m \<longrightarrow> (\<exists>n. files' ''a.out'' = Some n \<and> perms n = type_char m # ''rwxrwxrwx''))"
  using assms by (auto simp: chmod_main_def chmod_call_def perms_all split: option.splits if_splits)

lemma chmod_main_shown_witness:
  "\<exists>n. snd (chmod_main [''a.out'' \<mapsto> 0x81A4]) ''a.out'' = Some n \<and> perms n = ''-rwxrwxrwx''"
  using chmod_main_shown [of "[''a.out'' \<mapsto> 0x81A4]", OF surjective_pairing]
  by (simp add: type_char_def S_IFMT_def S_IFLNK_def S_IFDIR_def S_IFREG_def)

text \<open>However the threads of \<^verbatim>\<open>MultiThread_Test.cpp\<close> are scheduled, the screen shows a beginning of the three lines in
  the order of the program, never a mixture; no schedule makes more than thirteen steps, and one that cannot go on has
  shown all three lines or has failed to create a thread.\<close>

theorem mt_in_order:
  assumes "run mt_step mt_init ls = Some s"
  shows "(\<exists>rest. mt_out s @ rest = concat test1) \<and> length ls \<le> 13 \<and>
    (stuck mt_step s \<longrightarrow> mt_out s = concat test1 \<or> mt_aborted s)"
proof (intro conjI impI)
  have inv: "mt_inv s" by (rule mt.inv_reachable [OF run_reachable [OF assms]])
  then show "\<exists>rest. mt_out s @ rest = concat test1" by (auto simp: mt_inv_def)
  show "length ls \<le> 13" using mt.run_bounded [OF assms]
    by (simp add: mt_fuel_def mt_init_def test1_def hello_def world_def say_line_def)
  assume st: "stuck mt_step s"
  show "mt_out s = concat test1 \<or> mt_aborted s"
  proof (rule disjCI)
    assume go: "\<not> mt_aborted s"
    have none: "mt_step s l = None" for l using st by (simp add: stuck_def)
    have "mt_child s = None"
      using none [of ChildSays] none [of JoinChild] go by (auto simp: mt_step_def split: option.splits list.splits)
    moreover from this have "mt_todo s = []"
      using none [of "Create True"] go by (auto simp: mt_step_def split: list.splits)
    ultimately show "mt_out s = concat test1" using inv by (simp add: mt_inv_def)
  qed
qed

lemma mt_in_order_witness:
  "\<exists>s. run mt_step mt_init (concat (replicate 3 [Create True, ChildSays, ChildSays, JoinChild])) = Some s \<and>
     mt_out s = concat test1"
proof -
  let ?ls = "concat (replicate 3 [Create True, ChildSays, ChildSays, JoinChild])"
  obtain s where s: "run mt_step mt_init ?ls = Some s" "mt_todo s = []" "mt_child s = None" "\<not> mt_aborted s"
    by (simp add: mt_step_def mt_init_def test1_def hello_def world_def say_line_def numeral_3_eq_3)
  have "stuck mt_step s" using s by (auto simp: stuck_def mt_step_def split: mt_label.splits)
  with mt_in_order [OF s(1)] s show ?thesis by blast
qed

end
