(* ===== verification/Descriptors.thy ===== *)
theory Descriptors
  imports FileCopy Fcntl
begin

unbundle bit_operations_syntax

text \<open>
  Descriptors, open files and one file on disk: \<^verbatim>\<open>dup.c\<close>, \<^verbatim>\<open>fcntl.c\<close>, \<^verbatim>\<open>func_open.c\<close>, \<^verbatim>\<open>access.c\<close> and
  \<^verbatim>\<open>f_stat_lstat.c\<close>.  A descriptor names an open file, which has an offset and status flags; \<open>dup\<close> makes a
  second name for the same open file.
\<close>

section \<open>The kernel's tables\<close>

record kern =
  fdtab :: "nat option list"
  ofiles :: "(nat \<times> flags) list"
  disk :: string

definition ofile :: "int \<Rightarrow> kern \<Rightarrow> nat option" where
  "ofile fd k = (if 0 \<le> fd \<and> nat fd < length (fdtab k) then fdtab k ! nat fd else None)"

text \<open>The lowest free descriptor from \<open>n\<close> on.\<close>

definition free_from :: "nat \<Rightarrow> nat option list \<Rightarrow> nat" where
  "free_from n tab = n + length (takeWhile (\<lambda>x. x \<noteq> None) (drop n tab))"

definition install :: "nat \<Rightarrow> nat \<Rightarrow> nat option list \<Rightarrow> nat option list" where
  "install i d tab = (if i < length tab then tab[i := Some d] else tab @ replicate (i - length tab) None @ [Some d])"

definition k_open :: "flags \<Rightarrow> kern \<Rightarrow> int \<times> kern" where
  "k_open fl k =
     (let i = free_from 0 (fdtab k) in
      (int i, k\<lparr>fdtab := install i (length (ofiles k)) (fdtab k), ofiles := ofiles k @ [(0, fl)]\<rparr>))"

definition k_dupfd :: "int \<Rightarrow> int \<Rightarrow> kern \<Rightarrow> int \<times> kern" where
  "k_dupfd fd least k =
     (case ofile fd k of
        None \<Rightarrow> (-1, k)
      | Some d \<Rightarrow>
          if least < 0 then (-1, k)
          else let i = free_from (nat least) (fdtab k) in (int i, k\<lparr>fdtab := install i d (fdtab k)\<rparr>))"

definition k_dup :: "int \<Rightarrow> kern \<Rightarrow> int \<times> kern" where
  "k_dup fd k = k_dupfd fd 0 k"

definition k_close :: "int \<Rightarrow> kern \<Rightarrow> kern" where
  "k_close fd k = (if ofile fd k = None then k else k\<lparr>fdtab := (fdtab k)[nat fd := None]\<rparr>)"

text \<open>\<open>w\<close>: how many bytes the disk takes, negative when the write fails.\<close>

definition k_write :: "int \<Rightarrow> string \<Rightarrow> int \<Rightarrow> kern \<Rightarrow> int \<times> kern" where
  "k_write fd d w k =
     (case ofile fd k of
        None \<Rightarrow> (-1, k)
      | Some j \<Rightarrow>
          (case ofiles k ! j of (off, fl) \<Rightarrow>
             if fl AND 3 = O_RDONLY \<or> w < 0 then (-1, k)
             else let at = (if fl AND O_APPEND \<noteq> 0 then length (disk k) else off); d = take (nat w) d in
                  (int (length d), k\<lparr>disk := write_at (disk k) at d, ofiles := (ofiles k)[j := (at + length d, fl)]\<rparr>)))"

definition k_getfl :: "int \<Rightarrow> kern \<Rightarrow> flags" where
  "k_getfl fd k = (case ofile fd k of None \<Rightarrow> -1 | Some j \<Rightarrow> snd (ofiles k ! j))"

definition k_setfl :: "int \<Rightarrow> flags \<Rightarrow> kern \<Rightarrow> int \<times> kern" where
  "k_setfl fd arg k =
     (case ofile fd k of
        None \<Rightarrow> (-1, k)
      | Some j \<Rightarrow>
          (case ofiles k ! j of (off, fl) \<Rightarrow>
             (0, k\<lparr>ofiles := (ofiles k)[j := (off, status (F_SETFL arg \<lparr>status = fl, fdflags = 0\<rparr>))]\<rparr>)))"

section \<open>The programs\<close>

text \<open>\<open>ok\<close> tells whether \<open>open\<close> succeeds, \<open>w\<close> how much is written.\<close>

definition dup_main :: "bool \<Rightarrow> int \<Rightarrow> kern \<Rightarrow> kern comp" where
  "dup_main ok w k =
     (case (if ok then k_open O_RDWR k else (-1, k)) of (fd, k) \<Rightarrow>
      thenc (emit (Out (''old fd: '' @ show_int fd @ NL)))
      (case k_dup fd k of (fd1, k) \<Rightarrow>
        if fd1 = -1 then thenc (emit (Perror ''dup'')) (exit_with (-1))
        else
          thenc (emit (Out (''new fd1:'' @ show_int fd1 @ NL)))
          (case k_write fd1 ''hello world'' w (k_close fd k) of (r, k) \<Rightarrow>
             if -1 = r then thenc (emit (Perror ''write'')) (exit_with (-1))
             else ret (k_close fd1 k))))"

text \<open>
  \<open>F_DUPFD\<close> is called without its argument; \<open>arg\<close> is what happens to be there.  \<open>xfl\<close> are the flags that the
  kernel adds to those asked for (\<open>O_LARGEFILE\<close>).
\<close>

definition fcntl_main :: "bool \<Rightarrow> flags \<Rightarrow> int \<Rightarrow> int \<Rightarrow> kern \<Rightarrow> kern comp" where
  "fcntl_main ok xfl arg w k =
     (case (if ok then k_open (O_RDWR OR xfl) k else (-1, k)) of (fd, k) \<Rightarrow>
      thenc (if -1 = fd then emit (Perror ''open'') else ret ())
      (case k_dupfd fd arg k of (fd1, k) \<Rightarrow>
       let flag = k_getfl fd k OR O_APPEND in
       thenc (emit (Out (show_int (sint flag))))
       (case k_setfl fd flag k of (r, k) \<Rightarrow>
        thenc (if r = -1 then emit (Perror ''setfl'') else ret ())
        (case k_write fd ''nihao'' w k of (r, k) \<Rightarrow>
         thenc (if -1 = r then emit (Perror ''write'') else ret ()) (ret k)))))"

text \<open>Single calls: \<^verbatim>\<open>func_open.c\<close> closes -1 when the file is missing, \<^verbatim>\<open>access.c\<close> reports the file in any case.\<close>

definition func_open_main :: "bool \<Rightarrow> kern \<Rightarrow> kern comp" where
  "func_open_main ok k =
     (case (if ok then k_open O_RDONLY k else (-1, k)) of (fd, k) \<Rightarrow>
      thenc (if -1 = fd then emit (Perror '' '') else ret ())
      (case (if ok then k_open (O_RDONLY OR O_RDWR OR O_APPEND) (k_close fd k) else (-1, k)) of (fd2, k) \<Rightarrow> ret k))"

definition access_main :: "int \<Rightarrow> event list" where
  "access_main r = (if -1 = r then [Perror ''acces''] else []) @ [Out ''the file exists'']"

definition stat_main :: "int option \<Rightarrow> unit comp" where
  "stat_main st =
     (case st of
        None \<Rightarrow> thenc (emit (Perror ''stat'')) (exit_with (-1))
      | Some sz \<Rightarrow> emit (Out (''size:'' @ show_int sz @ NL)))"

section \<open>Two names for one open file\<close>

lemma nth_install: "i < length (install i d tab)" "install i d tab ! i = Some d"
  by (auto simp: install_def nth_append)

lemma nth_install_other: "j \<noteq> i \<Longrightarrow> j < length tab \<Longrightarrow> j < length (install i d tab) \<and> install i d tab ! j = tab ! j"
  by (auto simp: install_def nth_append)

lemma free_from_free: "free_from n tab < length tab \<Longrightarrow> tab ! free_from n tab = None"
proof -
  assume a: "free_from n tab < length tab"
  then have "length (takeWhile (\<lambda>x. x \<noteq> None) (drop n tab)) < length (drop n tab)" by (simp add: free_from_def)
  from nth_length_takeWhile [OF this] a show ?thesis by (simp add: free_from_def)
qed

text \<open>A duplicate names the same open file, and the old name stays.\<close>

lemma k_dupfd_same:
  assumes "ofile fd k = Some j" "k_dupfd fd n k = (fd1, k1)" "fd1 \<noteq> -1"
  shows "ofile fd1 k1 = Some j \<and> ofile fd k1 = Some j \<and> fd1 \<noteq> fd \<and> ofiles k1 = ofiles k \<and> disk k1 = disk k"
proof -
  let ?i = "free_from (nat n) (fdtab k)"
  from assms have n: "0 \<le> n" "fd1 = int ?i" "k1 = k\<lparr>fdtab := install ?i j (fdtab k)\<rparr>"
    by (auto simp: k_dupfd_def Let_def split: if_splits)
  from assms(1) have fd: "0 \<le> fd" "nat fd < length (fdtab k)" "fdtab k ! nat fd = Some j"
    by (auto simp: ofile_def split: if_splits)
  have "?i \<noteq> nat fd" using free_from_free [of "nat n" "fdtab k"] fd by auto
  with n fd nth_install [of ?i j "fdtab k"] nth_install_other [of "nat fd" ?i "fdtab k" j] show ?thesis
    by (auto simp: ofile_def)
qed

lemma ofile_same [simp]:
  "ofile fd (k\<lparr>disk := c, ofiles := fs\<rparr>) = ofile fd k"
  "ofile fd (k\<lparr>disk := c\<rparr>) = ofile fd k" "ofile fd (k\<lparr>ofiles := fs\<rparr>) = ofile fd k"
  by (simp_all add: ofile_def)

lemma close_other: "fd \<noteq> fd1 \<Longrightarrow> ofile fd1 (k_close fd k) = ofile fd1 k"
proof -
  assume ne: "fd \<noteq> fd1"
  have "nat fd \<noteq> nat fd1" if "0 \<le> fd" "0 \<le> fd1" using ne that by simp
  then show "ofile fd1 (k_close fd k) = ofile fd1 k" by (auto simp: ofile_def k_close_def)
qed

text \<open>A write through a descriptor that allows it.\<close>

lemma k_write_open:
  assumes "ofile fd k = Some j" "ofiles k ! j = (off, fl)" "fl AND 3 \<noteq> O_RDONLY" "0 \<le> w"
  shows "k_write fd d w k =
    (int (length (take (nat w) d)),
     k\<lparr>disk := write_at (disk k) (if fl AND O_APPEND \<noteq> 0 then length (disk k) else off) (take (nat w) d),
       ofiles := (ofiles k)[j := ((if fl AND O_APPEND \<noteq> 0 then length (disk k) else off) + length (take (nat w) d), fl)]\<rparr>)"
  using assms by (simp add: k_write_def Let_def)

lemma k_write_fails: "w < 0 \<Longrightarrow> k_write fd d w k = (-1, k)"
  by (simp add: k_write_def split: option.split prod.split)

lemma close_keeps [simp]: "disk (k_close fd k) = disk k" "ofiles (k_close fd k) = ofiles k"
  by (simp_all add: k_close_def)

section \<open>What the programs do\<close>

lemma k_open_new:
  assumes "k_open fl k = (fd, k1)"
  shows "fd \<noteq> -1 \<and> ofile fd k1 = Some (length (ofiles k)) \<and> ofiles k1 = ofiles k @ [(0, fl)] \<and> disk k1 = disk k"
  using assms nth_install [where tab = "fdtab k"] by (auto simp: k_open_def Let_def ofile_def)

lemma k_setfl_ok:
  assumes "ofile fd k = Some j" "ofiles k ! j = (off, fl)"
  shows "k_setfl fd (fl OR O_APPEND) k = (0, k\<lparr>ofiles := (ofiles k)[j := (off, fl OR O_APPEND)]\<rparr>)"
proof -
  have "O_APPEND AND SETFL_MASK = O_APPEND" by (simp add: SETFL_MASK_def flag_defs)
  from F_SETFL_keeps [OF this, of "\<lparr>status = fl, fdflags = 0\<rparr>"] assms show ?thesis
    by (simp add: k_setfl_def F_GETFL_def)
qed

lemma dup_main_writes:
  "\<exists>es k1. dup_main True w k =
     (if w < 0 then (es @ [Perror ''write''], Exit (-1)) else (es, Done k1)) \<and>
     (0 \<le> w \<longrightarrow> disk k1 = write_at (disk k) 0 (take (nat w) ''hello world''))"
proof -
  obtain fd ko where o: "k_open O_RDWR k = (fd, ko)" by force
  note n = k_open_new [OF o]
  obtain fd1 kd where d: "k_dup fd ko = (fd1, kd)" by force
  then have "fd1 \<noteq> -1" using n by (auto simp: k_dup_def k_dupfd_def Let_def)
  note s = k_dupfd_same [OF _ d [unfolded k_dup_def] this, of "length (ofiles k)"]
  have fl: "(O_RDWR :: flags) AND 3 \<noteq> O_RDONLY" "(O_RDWR :: flags) AND O_APPEND = 0" by (simp_all add: flag_defs)
  have "ofile fd1 (k_close fd kd) = Some (length (ofiles k))" "ofiles (k_close fd kd) ! length (ofiles k) = (0, O_RDWR)"
    using n s close_other [of fd fd1 kd] by auto
  from k_write_open [OF this fl(1), of w] n s fl(2) \<open>fd1 \<noteq> -1\<close> show ?thesis
    by (cases "w < 0") (simp_all add: dup_main_def o d effect_simps k_write_fails)
qed

lemma fcntl_main_writes:
  assumes "xfl AND 3 = 0"
  shows "\<exists>k1. fcntl_main True xfl arg w k =
      (Out (show_int (sint ((O_RDWR OR xfl) OR O_APPEND))) # (if w < 0 then [Perror ''write''] else []), Done k1) \<and>
    disk k1 = disk k @ take (nat w) ''nihao''"
proof -
  let ?f0 = "O_RDWR OR xfl"
  obtain fd ko where o: "k_open ?f0 k = (fd, ko)" by force
  note n = k_open_new [OF o]
  obtain fd1 kd where d: "k_dupfd fd arg ko = (fd1, kd)" by force
  let ?j = "length (ofiles k)"
  have kd: "ofile fd kd = Some ?j" "ofiles kd ! ?j = (0, ?f0)" "disk kd = disk k" "?j < length (ofiles kd)"
  proof -
    have "kd = ko" if "fd1 = -1" using d that by (auto simp: k_dupfd_def Let_def split: option.splits if_splits)
    with n k_dupfd_same [OF _ d, of ?j]
    have "ofile fd kd = Some ?j \<and> ofiles kd = ofiles k @ [(0, ?f0)] \<and> disk kd = disk k" by metis
    then show "ofile fd kd = Some ?j" "ofiles kd ! ?j = (0, ?f0)" "disk kd = disk k" "?j < length (ofiles kd)"
      by simp_all
  qed
  let ?fl = "?f0 OR O_APPEND"
  let ?ks = "kd\<lparr>ofiles := (ofiles kd)[?j := (0, ?fl)]\<rparr>"
  have s: "k_setfl fd ?fl kd = (0, ?ks)" by (rule k_setfl_ok [OF kd(1,2)])
  have "?fl AND 3 = 2 OR (xfl AND 3)" by (simp add: flag_defs bit.conj_disj_distrib2)
  then have fl1: "?fl AND 3 \<noteq> O_RDONLY" using assms by (simp add: O_RDONLY_def)
  have "?fl AND O_APPEND = O_APPEND" by (rule bit_word_eqI) (auto simp: bit_simps)
  then have fl2: "?fl AND O_APPEND \<noteq> 0" by (simp add: O_APPEND_def)
  have "ofile fd ?ks = Some ?j" "ofiles ?ks ! ?j = (0, ?fl)" using kd by simp_all
  note w = k_write_open [OF this fl1, of w "''nihao''"]
  have "write_at (disk k) (length (disk k)) (take (nat w) ''nihao'') = disk k @ take (nat w) ''nihao''" by (simp add: write_at_def)
  moreover have "k_getfl fd kd = ?f0" using kd by (simp add: k_getfl_def)
  ultimately show ?thesis using n kd(3) fl2
    by (cases "w < 0") (simp_all add: fcntl_main_def o d s w effect_simps Let_def k_write_fails)
qed

text \<open>
  \<^verbatim>\<open>dup.c\<close> overwrites the beginning of its file through the duplicate and keeps the rest, and
  stops with a message when there is nothing to duplicate or the write fails; \<^verbatim>\<open>fcntl.c\<close>, whatever lies where the missing
  argument of \<open>F_DUPFD\<close> is looked for, shows the flags with \<open>O_APPEND\<close> and appends its text; with no file to
  open it goes on and reports three errors.  A short write is not noticed.
\<close>
theorem descriptor_programs:
  assumes "xfl AND 3 = 0"
  shows "(0 \<le> w \<longrightarrow> (\<exists>es k1. dup_main True w k = (es, Done k1) \<and>
      disk k1 = take (nat w) ''hello world'' @ drop (min (nat w) 11) (disk k))) \<and>
   (w < 0 \<longrightarrow> (\<exists>es. dup_main True w k = (es @ [Perror ''write''], Exit (-1)))) \<and>
   dup_main False w k = ([Out (''old fd: -1'' @ NL), Perror ''dup''], Exit (-1)) \<and>
   (\<exists>k2. fcntl_main True xfl arg w k =
        (Out (show_int (sint ((O_RDWR OR xfl) OR O_APPEND))) # (if w < 0 then [Perror ''write''] else []), Done k2) \<and>
      disk k2 = disk k @ take (nat w) ''nihao'') \<and>
   fcntl_main False xfl arg w k = ([Perror ''open'', Out ''-1'', Perror ''setfl'', Perror ''write''], Done k)"
proof -
  have "write_at (disk k) 0 d = d @ drop (length d) (disk k)" for d
    by (simp add: write_at_def)
  moreover have "length (take (nat w) ''hello world'') = min (nat w) 11" by (simp add: min.commute)
  ultimately have "0 \<le> w \<longrightarrow> (\<exists>es k1. dup_main True w k = (es, Done k1) \<and>
      disk k1 = take (nat w) ''hello world'' @ drop (min (nat w) 11) (disk k))"
    "w < 0 \<longrightarrow> (\<exists>es. dup_main True w k = (es @ [Perror ''write''], Exit (-1)))"
    using dup_main_writes [of w k] by (auto split: if_splits)
  moreover have "ofile (-1) k = None" by (simp add: ofile_def)
  moreover have "show_int (-1) = ''-1''" by code_simp
  ultimately show ?thesis
    using fcntl_main_writes [OF assms, of arg w k]
    by (simp add: dup_main_def [of False] fcntl_main_def [of False] k_dup_def k_dupfd_def k_getfl_def k_setfl_def k_write_def
        effect_simps Let_def)
qed

lemma descriptor_programs_witness:
  "\<exists>k2. fcntl_main True 0 3 5 \<lparr>fdtab = [], ofiles = [], disk = ''text''\<rparr> = ([Out ''1026''], Done k2) \<and>
     disk k2 = ''textnihao''"
proof -
  have m: "(0 :: flags) AND 3 = 0" by simp
  have "show_int (sint ((O_RDWR OR (0 :: flags)) OR O_APPEND)) = ''1026''"
  proof -
    have "sint ((O_RDWR OR (0 :: flags)) OR O_APPEND) = 1026" by (simp add: flag_defs)
    moreover have "show_int 1026 = ''1026''" by code_simp
    ultimately show ?thesis by simp
  qed
  with descriptor_programs [OF m, of 5 "\<lparr>fdtab = [], ofiles = [], disk = ''text''\<rparr>" 3] show ?thesis by simp
qed

end
