(* ===== verification/Spec2Isabelle.thy ===== *)
theory Spec2Isabelle
  imports WebServer Locker Chat SharedMap Conversations Multiplexers Tickets CrossLock Progress
    FileCopy ByteOrder LocalSocket Datagrams Threads Samples Descriptors
begin

text \<open>
  A verification library for the C programs of Linux-Net-Code.

  The repository is a collection of programs on Linux system calls: TCP echo servers with their clients
  (\<^verbatim>\<open>NetCode\<close>), processes, signals and interprocess communication (\<^verbatim>\<open>Process\<close>), threads and their
  synchronisation (\<^verbatim>\<open>thread\<close>, with a suffix in Chinese) and files (\<^verbatim>\<open>linux\<close>, likewise).  The
  programs share idioms, not code; a theory below models one program or a family that shares its logic.
  The kernel, the network and the C library beyond strings and \<open>printf\<close> are not under \<^verbatim>\<open>src\<close>: their answers are
  inputs of the model (what \<open>read\<close> returns, which descriptor \<open>accept\<close> hands out, which thread the
  scheduler runs), so that a theorem holds for all answers, or for all that keep the documented contract
  named in its hypotheses.

  Sequential programs are functions into \<open>'a comp\<close> (theory \<open>Prelude\<close>): the calls made, in order, and how the
  program goes on: it continues, exits, has run into behaviour that C leaves undefined, or blocks for
  ever.  Concurrent programs are step functions \<open>'s \<Rightarrow> 'l \<Rightarrow> 's option\<close> over labels that name the
  thread which moves, or an inductive relation (\<open>CrossLock\<close>); \<open>reachable\<close> and \<open>run\<close> close them under
  schedules, and the locales \<open>safe_system\<close>, \<open>bounded_system\<close>, \<open>live_system\<close> and \<open>mutex_system\<close> give invariants, finite
  runs, freedom from deadlock and mutual exclusion from the laws each interpretation proves.

  \<^item> \<open>Prelude\<close>, \<open>CString\<close>, \<open>Mutex\<close>, \<open>Slots\<close>: effects, schedules, character buffers and C strings, mutex ownership,
    connection tables.
  \<^item> \<open>Echo\<close>: what the multiplexing servers share, and the locale \<open>echo_mux\<close>, the contract of one round of an echo
    server: it never stops, keeps the clients that joined and did not leave, and answers them.
  \<^item> \<open>SelectServer\<close> (\<^verbatim>\<open>select.c\<close>), \<open>EpollServer\<close> (\<^verbatim>\<open>epoll_LT.c\<close>): \<open>main\<close>, one turn of its loop, and the parts of a turn;
    both interpret \<open>echo_mux\<close>, on which their properties rest.  What the code does outside the
    contract (unchecked results, messages that fill the buffer) is stated too.
  \<^item> \<open>Fcntl\<close>, \<open>EpollET\<close> (\<^verbatim>\<open>epoll_ET.c\<close>): descriptor flags; the draining loop against the socket's queue.
  \<^item> \<open>PollServer\<close> (\<^verbatim>\<open>poll.c\<close>): the table of 1024 \<open>pollfd\<close>, an interpretation of \<open>slot_table\<close>; service, placement and
    starvation of clients.  \<open>PollRounds\<close>: its runs from a clear table, a third interpretation of \<open>echo_mux\<close>; the reports that
    entries beyond \<open>nfds\<close> keep are of data still unread, so that no \<open>read\<close> blocks.
  \<^item> \<open>Multiplexers\<close>: the servers over \<open>select\<close>, \<open>epoll\<close> and \<open>poll\<close> against one abstract server, by the locale \<open>mux_refines\<close>
    on top of \<open>echo_mux\<close>, which turns a workload into the inputs of each; what becomes of a client's bytes however
    they are cut into reads.
  \<^item> \<open>ThreadServer\<close> (\<^verbatim>\<open>server_thread.c\<close>): accept loop, search for an element of \<open>sockInfos\<close> (an interpretation of
    \<open>slot_alloc\<close>) and one thread per client as interleaved steps; isolation, capacity, the wedge.
  \<^item> \<open>WaitStatus\<close>, \<open>Reap\<close> (\<^verbatim>\<open>wait.c\<close>, \<^verbatim>\<open>waitpid.c\<close>, \<^verbatim>\<open>sigchild.c\<close>): the status word, the process table, the handlers
    \<open>recycleChild\<close> and \<open>myFun\<close> as interpretations of the locale \<open>reaper\<close>, the waiting parents.
  \<^item> \<open>ProcessServer\<close> (\<^verbatim>\<open>server_process.c\<close>): parent, children and SIGCHLD; its states project to those of the signal
    system of \<open>Reap\<close>, from which the absence of zombies follows.
  \<^item> \<open>Clients\<close> (the four \<^verbatim>\<open>client.c\<close>), \<open>Conversations\<close>: the clients, and what they see of the servers end to end: the
    numbering client against all of them but \<^verbatim>\<open>epoll_LT.c\<close>, which its first message undoes; the client that sends its
    input against the two epoll servers, also when the input has ended.
  \<^item> \<open>Tickets\<close> (\<^verbatim>\<open>sell_tickets.c\<close>, \<^verbatim>\<open>mutex.c\<close>, \<^verbatim>\<open>deadLock.c\<close>), \<open>CrossLock\<close> (\<^verbatim>\<open>deadLock1.c\<close>), \<open>RWLock\<close> (\<^verbatim>\<open>rwlock.c\<close>): exclusion,
    what is sold or printed, deadlocks and the races without locks.
  \<^item> \<open>Buffer\<close>, \<open>ProducerConsumer\<close>, \<open>CondBuffer\<close>, \<open>SemBuffer\<close> (\<^verbatim>\<open>producer_comsumer.c\<close>, \<^verbatim>\<open>pthread_condition.c\<close>, \<^verbatim>\<open>semaphore.c\<close>):
    a linked list on an explicit heap, changed statement by statement under a mutex, with no synchronisation but
    the mutex, with a condition variable, and with two semaphores; memory safety, the log of what was added and
    taken, no lost wake-up, the bound of eight.  \<open>Progress\<close>: these three and \<^verbatim>\<open>rwlock.c\<close> as interpretations of \<open>live_system\<close>, from
    which they cannot deadlock.
  \<^item> \<open>ListFile\<close> (\<^verbatim>\<open>f_ls.c\<close>, \<^verbatim>\<open>f_opendir_readir_closedir.c\<close>), \<open>FileCopy\<close> (\<^verbatim>\<open>func_read_write.c\<close>, \<^verbatim>\<open>copy.c\<close>, \<^verbatim>\<open>f_lseek.c\<close>): the mode
    string, the count of regular files, copies through a buffer and through mappings.

  \<^item> \<open>HttpConn\<close> (\<^verbatim>\<open>http_connection.cpp\<close>), \<open>ThreadPool\<close> (\<^verbatim>\<open>thread_pool.h\<close>, \<^verbatim>\<open>locker.h\<close>), \<open>WebServer\<close> (\<^verbatim>\<open>main.cpp\<close>), the abandoned web
    server: the parser of requests with its buffer and indices, the queue of the pool with its mutex and semaphore
    and threads that outlive it, and the main loop over both; that no request is ever recognised, that no
    request put into the pool is lost, how many users are counted.  \<open>Locker\<close>: the condition variable of \<^verbatim>\<open>locker.h\<close> as a
    monitor, an interpretation of \<open>mutex_system\<close>.
  \<^item> \<open>Pipes\<close> (\<^verbatim>\<open>pipe.c\<close>, \<^verbatim>\<open>noblock.c\<close>, \<^verbatim>\<open>ps_aux_grep_xx.c\<close>), \<open>Chat\<close> (\<^verbatim>\<open>aChat.c\<close>, \<^verbatim>\<open>bChat.c\<close>, \<^verbatim>\<open>read.c\<close>, \<^verbatim>\<open>write.c\<close>): what goes through a
    queue of bytes arrives, in order, in each direction.
  \<^item> \<open>SharedMap\<close> (shared mappings and System V memory), \<open>Signals\<close> (blocked and pending signals, timers, \<open>kill\<close>).
  \<^item> \<open>Processes\<close> (\<^verbatim>\<open>_fork\<close>, \<^verbatim>\<open>_exec\<close>, \<^verbatim>\<open>_exit\<close>, the daemon, \<^verbatim>\<open>MultiProcess_Chorn.cpp\<close>): parent and child as interleaved steps,
    orphans and zombies, the daemon's log, sums in copies of one variable.
  \<^item> \<open>Threads\<close> (\<^verbatim>\<open>thread_Functions\<close>): each program as the list of what its two threads do, one step relation for all,
    an interpretation of \<open>bounded_system\<close>.
  \<^item> \<open>ByteOrder\<close> (\<^verbatim>\<open>byteSort.c\<close>, \<^verbatim>\<open>transform.c\<close>, \<^verbatim>\<open>iptrans.c\<close>): words in memory on hosts of either byte order, addresses as text.
  \<^item> \<open>LocalSocket\<close> (\<^verbatim>\<open>local_socket\<close>), \<open>Datagrams\<close> (\<^verbatim>\<open>NetCode/UDP\<close>, \<^verbatim>\<open>_socket\<close>, \<^verbatim>\<open>epoll_timer/server.cpp\<close>): echo pairs in lockstep, what
    datagram receivers show, single exchanges.
  \<^item> \<open>Samples\<close>: the smallest programs (\<^verbatim>\<open>hello.c\<close>, \<^verbatim>\<open>chmod.c\<close>, \<^verbatim>\<open>fpathconf.c\<close>, \<^verbatim>\<open>timer_test.cpp\<close>, \<^verbatim>\<open>epoll_test.cpp\<close>) and the threads
    of \<^verbatim>\<open>MultiThread_Test.cpp\<close>, joined in turn.
  \<^item> \<open>Descriptors\<close> (\<^verbatim>\<open>dup.c\<close>, \<^verbatim>\<open>fcntl.c\<close>, \<^verbatim>\<open>func_open.c\<close> and others): descriptors, open files and the file on disk.

  Properties carry the ids C1 to C40 in the texts before them; the theorems without an id state what
  further programs do.

  Bounds.  No model uses fuel: loops are structural recursions over the kernel's answers, or functions with a
  termination proof, and server loops that never end are followed for every finite number of turns.  The one
  loop that need not end, the reading of requests in \<open>HttpConn\<close>, is a partial function whose value \<open>None\<close> means
  that it never returns.  Runs of \<open>mutex.c\<close>, \<open>deadLock.c\<close> and the programs of \<open>Threads\<close> and \<open>Samples\<close> are bounded by a measure that
  every step decreases.  Integers are unbounded where the program keeps them small, which the theorems that
  need it state, and words of 32 bits where their bits matter (status words, file modes, descriptor flags,
  signal sets, the counter of \<open>rwlock.c\<close>).  A buffer declared inside a loop keeps its content from turn to turn, as
  it does on a stack; its first content is arbitrary.  Memory is sequentially consistent; a data race
  appears as an interleaving of loads and stores.

  Not modelled: output formatting beyond the text printed, addresses of peers but for their text, sleeping times, datagrams that are
  lost or duplicated between the two UDP programs.  \<^verbatim>\<open>dup2.c\<close> and \<^verbatim>\<open>truncate.c\<close> hold only
  a comment.
\<close>

end
